(* ===== verification/Go_Float.thy ===== *)
theory Go_Float
  imports Complex_Main "HOL-Library.Log_Nat"
begin

text \<open>
  \<^verbatim>\<open>float64\<close> as the sources use it: the value of every operation is the exact one rounded to 53
  significant bits, to the nearest and to the even one of two equally near. Only numbers whose
  exponent is far from the limits occur (counts, nanoseconds and ratios of them), so there are
  no infinities, subnormals or NaNs: values are rationals.
\<close>

text \<open>The greatest power of two that is at most a positive rational.\<close>

definition exponent_of :: "rat \<Rightarrow> int" where
  "exponent_of x = (case quotient_of x of (a, b) \<Rightarrow>
     (let d = bitlen a - bitlen b in if 2 powi d \<le> x then d else d - 1))"

definition nearest_even :: "rat \<Rightarrow> int" where
  "nearest_even x = (let k = \<lfloor>x\<rfloor>; d = x - of_int k in
     if d < 1 / 2 then k else if 1 / 2 < d then k + 1 else if even k then k else k + 1)"

definition float64 :: "rat \<Rightarrow> rat" where
  "float64 x = (if x = 0 then 0 else
     (let q = 2 powi (exponent_of \<bar>x\<bar> - 52) in of_int (nearest_even (x / q)) * q))"

text \<open>A conversion to \<^verbatim>\<open>int\<close> drops the fraction.\<close>

definition trunc :: "rat \<Rightarrow> int" where
  "trunc x = (if 0 \<le> x then \<lfloor>x\<rfloor> else \<lceil>x\<rceil>)"

definition float_mul :: "rat \<Rightarrow> rat \<Rightarrow> rat" where "float_mul x y = float64 (x * y)"
definition float_div :: "rat \<Rightarrow> rat \<Rightarrow> rat" where "float_div x y = float64 (x / y)"
definition float_add :: "rat \<Rightarrow> rat \<Rightarrow> rat" where "float_add x y = float64 (x + y)"

subsection \<open>How far off a result can be\<close>

lemma nearest_even_error: "\<bar>of_int (nearest_even x) - x\<bar> \<le> 1 / 2"
proof -
  have "of_int \<lfloor>x\<rfloor> \<le> x" "x < of_int \<lfloor>x\<rfloor> + 1" by linarith+
  then show ?thesis by (auto simp: nearest_even_def Let_def abs_le_iff)
qed

lemma exponent_of_le:
  assumes "0 < x"
  shows "2 powi exponent_of x \<le> x"
proof -
  obtain a b where q: "quotient_of x = (a, b)" by fastforce
  have x: "x = of_int a / of_int b" and b: "0 < b" using q quotient_of_div quotient_of_denom_pos by blast+
  have a: "0 < a" using assms b by (simp add: x zero_less_divide_iff)
  have al: "1 \<le> bitlen a" using a bitlen_eq_zero_iff [of a] bitlen_nonneg [of a] by linarith
  have bl: "0 \<le> bitlen b" by (rule bitlen_nonneg)
  let ?d = "bitlen a - bitlen b"
  have "2 ^ nat (bitlen a - 1) \<le> a" "b < 2 ^ nat (bitlen b)" using bitlen_bounds [OF a] bitlen_bounds [OF b] by blast+
  then have lo: "2 powi (bitlen a - 1) \<le> (of_int a :: rat)" and hi: "(of_int b :: rat) < 2 powi bitlen b"
    using al bl unfolding power_int_def by (simp_all del: of_int_power add: of_int_power [symmetric])
  have "2 powi (?d - 1) = (2 powi (bitlen a - 1) / 2 powi bitlen b :: rat)"
    by (simp add: power_int_diff power_int_add algebra_simps)
  also have "\<dots> \<le> of_int a / of_int b"
    using lo hi a b by (intro frac_le) simp_all
  finally have "2 powi (?d - 1) \<le> x" by (simp add: x)
  then show ?thesis using q by (simp add: exponent_of_def Let_def)
qed

lemma float64_error: "\<bar>float64 x - x\<bar> \<le> \<bar>x\<bar> / 2 ^ 53"
proof (cases "x = 0")
  case False
  let ?e = "exponent_of \<bar>x\<bar>"
  define q :: rat where "q = 2 powi (?e - 52)"
  have q0: "0 < q" by (simp add: q_def)
  have "float64 x - x = (of_int (nearest_even (x / q)) - x / q) * q"
    using False q0 by (simp add: float64_def q_def [symmetric] Let_def algebra_simps)
  then have "\<bar>float64 x - x\<bar> = \<bar>of_int (nearest_even (x / q)) - x / q\<bar> * q"
    using q0 by (simp add: abs_mult)
  also have "\<dots> \<le> 1 / 2 * q" using nearest_even_error q0 by (intro mult_right_mono) simp_all
  also have "\<dots> = 2 powi ?e / 2 ^ 53" by (simp add: q_def power_int_diff)
  also have "\<dots> \<le> \<bar>x\<bar> / 2 ^ 53"
    using exponent_of_le [of "\<bar>x\<bar>"] False by (intro divide_right_mono) simp_all
  finally show ?thesis .
qed (simp add: float64_def)

lemma float64_bounds:
  assumes "0 \<le> x"
  shows "x - x / 2 ^ 53 \<le> float64 x" "float64 x \<le> x + x / 2 ^ 53"
  using float64_error [of x] abs_le_D1 [of "float64 x - x" "x / 2 ^ 53"] abs_le_D2 [of "float64 x - x" "x / 2 ^ 53"] assms
  by simp_all

lemma float64_nonneg:
  assumes "0 \<le> x"
  shows "0 \<le> float64 x"
proof -
  have "0 \<le> x - x / 2 ^ 53" using assms by simp
  with float64_bounds(1) [OF assms] show ?thesis by (rule order_trans [rotated])
qed

end
