(* ===== verification/Kv_Prelude.thy ===== *)
theory Kv_Prelude
  imports Main "HOL-Library.Word"
begin

text \<open>
  The prelude of the development: the machine integers of the Go code, the collections
  of rewrite rules the component theories fill, and the generic facts on lists and words
  that several components share.
\<close>

subsection \<open>Machine integers\<close>

text \<open>
  Terms and log indices are Go \<^verbatim>\<open>uint64\<close>, checksums \<^verbatim>\<open>uint32\<close>; both wrap. Go
  \<^verbatim>\<open>int\<close> values of the sources are lengths and counters, modelled as \<^typ>\<open>nat\<close>.
\<close>

type_synonym u64 = "64 word"
type_synonym u32 = "32 word"

named_theorems u64_simps "reading 64-bit arithmetic as arithmetic on natural numbers"
named_theorems step_simps "unfolding of a node's small operations"
named_theorems frame_simps "the fields an operation leaves alone"

lemma unat_succ_u64 [u64_simps]:
  fixes w :: u64
  assumes "w < v"
  shows "unat (w + 1) = Suc (unat w)"
proof -
  have "unat v < 2 ^ 64" using unsigned_less [where ?'a = nat and w = v] by simp
  moreover have "unat w < unat v" using assms by (simp add: word_less_nat_alt)
  ultimately have "unat w + 1 < 2 ^ 64" by linarith
  then show ?thesis by (simp add: unat_word_ariths)
qed

lemma unat_succ_u64_max:
  fixes w :: u64
  assumes "w \<noteq> - 1"
  shows "unat (w + 1) = Suc (unat w)"
proof -
  have "w < - 1" using assms word_order.not_eq_extremum by blast
  then show ?thesis by (rule unat_succ_u64)
qed

lemma less_succ_u64:
  fixes w :: u64
  assumes "w \<noteq> - 1"
  shows "w < w + 1"
  using unat_succ_u64_max [OF assms] by (simp add: word_less_nat_alt)

lemma unat_of_nat_u64 [u64_simps]: "n < 2 ^ 64 \<Longrightarrow> unat (of_nat n :: u64) = n"
  by (simp add: unat_of_nat)

lemma of_nat_less_u64 [u64_simps]:
  "n < 2 ^ 64 \<Longrightarrow> m < 2 ^ 64 \<Longrightarrow> (of_nat n < (of_nat m :: u64)) = (n < m)"
  by (simp add: word_less_nat_alt unat_of_nat_u64)

lemma of_nat_eq_u64 [u64_simps]:
  "n < 2 ^ 64 \<Longrightarrow> m < 2 ^ 64 \<Longrightarrow> (of_nat n = (of_nat m :: u64)) = (n = m)"
  by (metis unat_of_nat_u64)

lemma u64_less_of_nat [u64_simps]:
  "m < 2 ^ 64 \<Longrightarrow> ((w :: u64) < of_nat m) = (unat w < m)"
  by (simp add: word_less_nat_alt unat_of_nat_u64)

lemma of_nat_le_u64 [u64_simps]:
  "m < 2 ^ 64 \<Longrightarrow> (of_nat m \<le> (w :: u64)) = (m \<le> unat w)"
  by (simp add: word_le_nat_alt unat_of_nat_u64)

lemma of_nat_Suc_u64: "(of_nat n :: u64) + 1 = of_nat (Suc n)"
  by simp

lemma unat_eq_of_nat_u64: "n < 2 ^ 64 \<Longrightarrow> (unat (w :: u64) = n) = (w = of_nat n)"
  by (metis unat_of_nat_u64 of_nat_unat ucast_id)

subsection \<open>Lists\<close>

lemma take_take_append: "k \<le> length xs \<Longrightarrow> take k (take (length xs) (xs @ ys)) = take k xs"
  by simp

lemma take_eq_mono: "take n xs = take n ys \<Longrightarrow> k \<le> n \<Longrightarrow> take k xs = take k ys"
  by (metis min.absorb1 take_take)

lemma nth_append_last: "(xs @ [x]) ! length xs = x"
  by simp

lemma take_Suc_snoc: "k < length xs \<Longrightarrow> take (Suc k) xs = take k xs @ [xs ! k]"
  by (rule take_Suc_conv_app_nth)

lemma concat_take_Suc:
  "k < length xs \<Longrightarrow> concat (take (Suc k) xs) = concat (take k xs) @ xs ! k"
  by (simp add: take_Suc_conv_app_nth)

lemma length_concat_take_mono:
  "i \<le> j \<Longrightarrow> length (concat (take i xs)) \<le> length (concat (take j xs))"
proof -
  assume "i \<le> j"
  then have "take j xs = take i xs @ take (j - i) (drop i xs)"
    by (metis le_add_diff_inverse take_add)
  then show ?thesis by simp
qed

lemma take_length_concat_take:
  "take (length (concat (take i xs))) (concat xs) = concat (take i xs)"
proof -
  have "concat xs = concat (take i xs) @ concat (drop i xs)"
    by (metis append_take_drop_id concat_append)
  then show ?thesis by (metis append_eq_conv_conj)
qed

subsection \<open>Majorities\<close>

text \<open>
  Two sets of more than half of a finite population meet. This is the fact every
  agreement argument on the cluster rests on.
\<close>

lemma majorities_meet:
  assumes "finite S" and "A \<subseteq> S" and "B \<subseteq> S"
    and "card S < 2 * card A" and "card S < 2 * card B"
  shows "A \<inter> B \<noteq> {}"
proof
  assume "A \<inter> B = {}"
  then have "card (A \<union> B) = card A + card B"
    using assms by (meson card_Un_disjoint finite_subset)
  moreover have "card (A \<union> B) \<le> card S" using assms by (meson Un_least card_mono)
  ultimately show False using assms by linarith
qed

end
