(* ===== verification/Go_Utf8.thy ===== *)
theory Go_Utf8
  imports Kv_Prelude
begin

text \<open>
  The part of Go's \<^verbatim>\<open>unicode/utf8\<close> the sources rely on through \<^verbatim>\<open>encoding/json\<close>: which
  byte sequences are one well-formed rune, and what happens to bytes that are not.
  Go strings are arbitrary byte sequences, so nothing guarantees that a key or a value
  is UTF-8; \<open>sanitize\<close> is what a JSON round trip does to one.
\<close>

abbreviation byte :: "char \<Rightarrow> nat" where
  "byte c \<equiv> of_char c"

text \<open>
  \<open>rune_need b\<close> is what a rune starting with byte \<open>b\<close> needs: its length (0 when no rune
  starts with \<open>b\<close>) and the range of its second byte; the table \<^verbatim>\<open>first\<close> and the
  accept ranges of \<^verbatim>\<open>unicode/utf8\<close>. \<open>rune_len s\<close> is the length of the well-formed
  rune \<open>s\<close> starts with, 0 when it starts with none.
\<close>

definition rune_need :: "nat \<Rightarrow> nat \<times> nat \<times> nat" where
  "rune_need b =
     (if b < 0x80 then (1, 0, 0)
      else if b < 0xC2 then (0, 0, 0)
      else if b \<le> 0xDF then (2, 0x80, 0xBF)
      else if b = 0xE0 then (3, 0xA0, 0xBF)
      else if b = 0xED then (3, 0x80, 0x9F)
      else if b \<le> 0xEF then (3, 0x80, 0xBF)
      else if b = 0xF0 then (4, 0x90, 0xBF)
      else if b \<le> 0xF3 then (4, 0x80, 0xBF)
      else if b = 0xF4 then (4, 0x80, 0x8F)
      else (0, 0, 0))"

definition within :: "nat \<Rightarrow> nat \<Rightarrow> char \<Rightarrow> bool" where
  "within lo hi c \<longleftrightarrow> lo \<le> byte c \<and> byte c \<le> hi"

fun rune_len :: "string \<Rightarrow> nat" where
  "rune_len [] = 0"
| "rune_len (c # r) =
     (let (n, lo, hi) = rune_need (byte c) in
      if n \<le> 1 then n
      else if length r < n - 1 then 0
      else if within lo hi (hd r) \<and> list_all (within 0x80 0xBF) (take (n - 2) (tl r)) then n
      else 0)"

lemma rune_need_cases:
  "rune_need b = (n, lo, hi) \<Longrightarrow> n = 0 \<or> (n = 1 \<and> b < 128) \<or> (2 \<le> n \<and> 128 \<le> lo \<and> 128 \<le> b)"
  by (auto simp: rune_need_def split: if_splits)

lemma rune_len_ascii [simp]: "byte c < 128 \<Longrightarrow> rune_len (c # s) = 1"
  by (simp add: rune_need_def)

lemma rune_len_1: "rune_len (c # s) = 1 \<Longrightarrow> byte c < 128"
  using rune_need_cases [of "byte c"] by (auto split: prod.splits if_splits)

lemma rune_len_le: "rune_len s \<le> length s"
  by (cases s) (auto split: prod.splits)

lemma take_at_least_2:
  "2 \<le> n \<Longrightarrow> n \<le> Suc (length r) \<Longrightarrow> take n (c # r) = c # hd r # take (n - 2) (tl r)"
  by (cases r; cases n; cases "n - 1") auto

lemma rune_len_append:
  assumes "rune_len s \<noteq> 0"
  shows "rune_len (take (rune_len s) s @ t) = rune_len s"
proof (cases s)
  case Nil
  with assms show ?thesis by simp
next
  case (Cons c r)
  obtain n lo hi where n: "rune_need (byte c) = (n, lo, hi)" by (cases "rune_need (byte c)")
  show ?thesis
  proof (cases "n \<le> 1")
    case True
    with n Cons assms show ?thesis by (cases n) auto
  next
    case False
    with n Cons assms have ok: "n - 1 \<le> length r" "rune_len s = n" "within lo hi (hd r)"
        "list_all (within 0x80 0xBF) (take (n - 2) (tl r))"
      by (auto split: if_splits)
    have "take (rune_len s) s = c # hd r # take (n - 2) (tl r)"
      using ok False Cons by (subst take_at_least_2 [symmetric]) auto
    then show ?thesis using n ok False by simp
  qed
qed

lemma rune_multibyte:
  assumes "1 < rune_len s" and "x \<in> set (take (rune_len s) s)"
  shows "128 \<le> byte x"
proof (cases s)
  case Nil
  with assms show ?thesis by simp
next
  case (Cons c r)
  obtain n lo hi where n: "rune_need (byte c) = (n, lo, hi)" by (cases "rune_need (byte c)")
  with Cons assms have ok: "1 < n" "n - 1 \<le> length r" "rune_len s = n" "within lo hi (hd r)"
      "list_all (within 0x80 0xBF) (take (n - 2) (tl r))"
    by (auto split: if_splits)
  have "take (rune_len s) s = c # hd r # take (n - 2) (tl r)"
    using ok Cons by (subst take_at_least_2 [symmetric]) auto
  with assms(2) have "x = c \<or> x = hd r \<or> x \<in> set (take (n - 2) (tl r))" by simp
  moreover have "128 \<le> byte c" "128 \<le> lo" using rune_need_cases [OF n] ok by auto
  ultimately show ?thesis using ok by (auto simp: list_all_iff within_def)
qed

declare rune_len.simps(2) [simp del]

subsection \<open>Replacing malformed bytes\<close>

text \<open>U+FFFD, the replacement character, in UTF-8.\<close>

definition ufffd :: string where
  "ufffd = [CHR 0xEF, CHR 0xBF, CHR 0xBD]"

lemma rune_len_ufffd [simp]: "rune_len (ufffd @ s) = 3"
  by (simp add: ufffd_def rune_len.simps(2) rune_need_def within_def)

function sanitize :: "string \<Rightarrow> string" where
  "sanitize s =
     (if s = [] then []
      else if rune_len s = 0 then ufffd @ sanitize (tl s)
      else take (rune_len s) s @ sanitize (drop (rune_len s) s))"
  by pat_completeness auto
termination
  by (relation "measure length") (auto simp: neq_Nil_conv)

declare sanitize.simps [simp del]

function valid_utf8 :: "string \<Rightarrow> bool" where
  "valid_utf8 s =
     (if s = [] then True
      else if rune_len s = 0 then False
      else valid_utf8 (drop (rune_len s) s))"
  by pat_completeness auto
termination
  by (relation "measure length") (auto simp: neq_Nil_conv)

declare valid_utf8.simps [simp del]

lemma sanitize_Nil [simp]: "sanitize [] = []"
  by (subst sanitize.simps) simp

lemma valid_utf8_Nil [simp]: "valid_utf8 []"
  by (subst valid_utf8.simps) simp

lemma sanitize_ascii [simp]: "byte c < 128 \<Longrightarrow> sanitize (c # s) = c # sanitize s"
  by (subst sanitize.simps) simp

lemma sanitize_bad: "rune_len (c # s) = 0 \<Longrightarrow> sanitize (c # s) = ufffd @ sanitize s"
  by (subst sanitize.simps) simp

lemma valid_utf8_ascii [simp]: "byte c < 128 \<Longrightarrow> valid_utf8 (c # s) = valid_utf8 s"
  by (subst valid_utf8.simps) simp

lemma sanitize_valid: "valid_utf8 s \<Longrightarrow> sanitize s = s"
proof (induction s rule: valid_utf8.induct)
  case (1 s)
  show ?case
  proof (cases "s = []")
    case False
    with "1.prems" have n: "rune_len s \<noteq> 0" and v: "valid_utf8 (drop (rune_len s) s)"
      by (metis valid_utf8.simps)+
    have "sanitize (drop (rune_len s) s) = drop (rune_len s) s"
      by (rule "1.IH" [OF False n v])
    then show ?thesis using False n by (subst sanitize.simps) simp
  qed simp
qed

lemma valid_utf8_rune_append:
  assumes "rune_len s \<noteq> 0"
  shows "valid_utf8 (take (rune_len s) s @ t) = valid_utf8 t"
proof -
  let ?r = "take (rune_len s) s"
  have "rune_len (?r @ t) = rune_len s" using assms by (rule rune_len_append)
  moreover have "length ?r = rune_len s" using rune_len_le by simp
  moreover have "?r @ t \<noteq> []" using calculation assms by auto
  ultimately show ?thesis using assms by (subst valid_utf8.simps) simp
qed

lemma valid_sanitize: "valid_utf8 (sanitize s)"
proof (induction s rule: sanitize.induct)
  case (1 s)
  have uf: "valid_utf8 (ufffd @ t) = valid_utf8 t" for t
    using valid_utf8_rune_append [of "ufffd @ []" t] rune_len_ufffd [of "[]"]
    by (simp add: ufffd_def)
  from 1 show ?case
    by (cases "s = []"; cases "rune_len s = 0")
       (simp_all add: sanitize.simps [of s] uf valid_utf8_rune_append)
qed

lemma sanitize_idem [simp]: "sanitize (sanitize s) = sanitize s"
  by (rule sanitize_valid) (rule valid_sanitize)

lemma sanitize_id_iff: "sanitize s = s \<longleftrightarrow> valid_utf8 s"
  by (metis sanitize_valid valid_sanitize)

lemma sanitize_eq_Nil [simp]: "sanitize s = [] \<longleftrightarrow> s = []"
  by (subst sanitize.simps) (auto simp: ufffd_def)

end
