(* ===== verification/Raft_Config.thy ===== *)
theory Raft_Config
  imports Go_Utf8 "HOL-Library.List_Lexorder" "HOL-Library.Char_ord"
begin

text \<open>
  \<^verbatim>\<open>src/internal/raft/config.go\<close>: who is in the cluster, how many nodes are a majority,
  and the parser of the peer flag. The theorems characterise the configurations
  \<^verbatim>\<open>Validate\<close> accepts, show that two majorities share a node, and that the parser
  reads back what the flag's syntax says.
\<close>

type_synonym NodeID = string

record Peer =
  peer_ID :: NodeID
  peer_Addr :: string

record Config =
  cfg_ID :: NodeID
  cfg_Addr :: string
  cfg_Peers :: "Peer list"

definition ClusterSize :: "Config \<Rightarrow> nat" where
  "ClusterSize c = length (cfg_Peers c) + 1"

definition Majority :: "Config \<Rightarrow> nat" where
  "Majority c = ClusterSize c div 2 + 1"

datatype config_error = ErrIDRequired | ErrAddrRequired | ErrPeerMissing Peer
  | ErrDuplicateID NodeID | ErrEvenSize nat | ErrPeerSyntax string

text \<open>The loop of \<^verbatim>\<open>Validate\<close> over the peers, with the set \<^verbatim>\<open>seen\<close> as a list.\<close>

fun check_peers :: "NodeID list \<Rightarrow> Peer list \<Rightarrow> config_error option" where
  "check_peers seen [] = None"
| "check_peers seen (p # ps) =
     (if peer_ID p = [] \<or> peer_Addr p = [] then Some (ErrPeerMissing p)
      else if peer_ID p \<in> set seen then Some (ErrDuplicateID (peer_ID p))
      else check_peers (peer_ID p # seen) ps)"

definition Validate :: "Config \<Rightarrow> config_error option" where
  "Validate c =
     (if cfg_ID c = [] then Some ErrIDRequired
      else if cfg_Addr c = [] then Some ErrAddrRequired
      else case check_peers [cfg_ID c] (cfg_Peers c) of
        Some e \<Rightarrow> Some e
      | None \<Rightarrow> if ClusterSize c mod 2 = 0 then Some (ErrEvenSize (ClusterSize c)) else None)"

definition PeerByID :: "Config \<Rightarrow> NodeID \<Rightarrow> Peer option" where
  "PeerByID c i = find (\<lambda>p. peer_ID p = i) (cfg_Peers c)"

subsection \<open>Parsing the peer flag\<close>

text \<open>
  \<^verbatim>\<open>strings.TrimSpace\<close>: the ASCII spaces and the UTF-8 encodings of the other Unicode white
  space. \<open>space_len\<close> is the length of the white space character a text starts with, for the
  text itself or, with \<open>d = rev\<close>, for a reversed text.
\<close>

definition wide_spaces :: "string list" where
  "wide_spaces = [[CHR 0xC2, CHR 0x85], [CHR 0xC2, CHR 0xA0], [CHR 0xE1, CHR 0x9A, CHR 0x80]] @
     map (\<lambda>n. [CHR 0xE2, CHR 0x80, char_of n]) [0x80..<0x8B] @
     [[CHR 0xE2, CHR 0x80, CHR 0xA8], [CHR 0xE2, CHR 0x80, CHR 0xA9], [CHR 0xE2, CHR 0x80, CHR 0xAF],
      [CHR 0xE2, CHR 0x81, CHR 0x9F], [CHR 0xE3, CHR 0x80, CHR 0x80]]"

definition space_len :: "(string \<Rightarrow> string) \<Rightarrow> string \<Rightarrow> nat" where
  "space_len d s =
     (if s = [] then 0
      else if byte (hd s) \<in> {9, 10, 11, 12, 13, 32} then 1
      else case find (\<lambda>w. take (length w) s = d w) wide_spaces of
        Some w \<Rightarrow> length w | None \<Rightarrow> 0)"

function trim_with :: "(string \<Rightarrow> string) \<Rightarrow> string \<Rightarrow> string" where
  "trim_with d s = (if space_len d s = 0 then s else trim_with d (drop (space_len d s) s))"
  by pat_completeness auto
termination
  by (relation "measure (length o snd)") (auto simp: space_len_def)

declare trim_with.simps [simp del]

definition TrimSpace :: "string \<Rightarrow> string" where
  "TrimSpace s = rev (trim_with rev (rev (trim_with id s)))"

fun Split :: "string \<Rightarrow> char \<Rightarrow> string list" where
  "Split [] sep = [[]]"
| "Split (c # r) sep =
     (if c = sep then [] # Split r sep
      else case Split r sep of h # t \<Rightarrow> (c # h) # t | [] \<Rightarrow> [[c]])"

text \<open>\<^verbatim>\<open>strings.Cut\<close>: around the first separator, \<^const>\<open>None\<close> when there is none.\<close>

definition Cut :: "string \<Rightarrow> char \<Rightarrow> (string \<times> string) option" where
  "Cut s sep = (case dropWhile (\<lambda>c. c \<noteq> sep) s of
     [] \<Rightarrow> None | _ # r \<Rightarrow> Some (takeWhile (\<lambda>c. c \<noteq> sep) s, r))"

fun parse_parts :: "string list \<Rightarrow> config_error + Peer list" where
  "parse_parts [] = Inr []"
| "parse_parts (x # xs) =
     (let part = TrimSpace x in
      if part = [] then parse_parts xs
      else case Cut part (CHR ''='') of
        None \<Rightarrow> Inl (ErrPeerSyntax part)
      | Some (i, a) \<Rightarrow>
          (let i = TrimSpace i; a = TrimSpace a in
           if i = [] \<or> a = [] then Inl (ErrPeerSyntax part)
           else case parse_parts xs of
             Inl e \<Rightarrow> Inl e
           | Inr ps \<Rightarrow> Inr (\<lparr>peer_ID = i, peer_Addr = a\<rparr> # ps)))"

text \<open>
  \<^verbatim>\<open>sort.Slice\<close> orders the peers by ID, bytewise. It promises no order among equal IDs; for
  the up to twelve peers for which it is an insertion sort it keeps theirs, as
  \<^const>\<open>sort_key\<close> does, and \<^const>\<open>Validate\<close> rejects equal IDs anyway.
\<close>

definition ParsePeers :: "string \<Rightarrow> config_error + Peer list" where
  "ParsePeers s =
     (let s = TrimSpace s in
      if s = [] then Inr []
      else case parse_parts (Split s (CHR '','')) of
        Inl e \<Rightarrow> Inl e
      | Inr ps \<Rightarrow> Inr (sort_key peer_ID ps))"

subsection \<open>What Validate accepts\<close>

lemma check_peers_None:
  "check_peers seen ps = None \<longleftrightarrow>
   (\<forall>p \<in> set ps. peer_ID p \<noteq> [] \<and> peer_Addr p \<noteq> []) \<and>
   distinct (map peer_ID ps) \<and> set (map peer_ID ps) \<inter> set seen = {}"
  by (induction seen ps rule: check_peers.induct) auto

lemma Validate_iff:
  "Validate c = None \<longleftrightarrow>
   cfg_ID c \<noteq> [] \<and> cfg_Addr c \<noteq> [] \<and>
   (\<forall>p \<in> set (cfg_Peers c). peer_ID p \<noteq> [] \<and> peer_Addr p \<noteq> []) \<and>
   distinct (cfg_ID c # map peer_ID (cfg_Peers c)) \<and> odd (ClusterSize c)"
proof -
  have "Validate c = None \<longleftrightarrow> cfg_ID c \<noteq> [] \<and> cfg_Addr c \<noteq> [] \<and>
      check_peers [cfg_ID c] (cfg_Peers c) = None \<and> ClusterSize c mod 2 \<noteq> 0"
    by (simp add: Validate_def split: option.split)
  then show ?thesis by (auto simp: check_peers_None odd_iff_mod_2_eq_one)
qed

lemma PeerByID_Some: "PeerByID c i = Some p \<Longrightarrow> p \<in> set (cfg_Peers c) \<and> peer_ID p = i"
  by (auto simp: PeerByID_def find_Some_iff)

lemma PeerByID_None: "PeerByID c i = None \<longleftrightarrow> i \<notin> peer_ID ` set (cfg_Peers c)"
  by (auto simp: PeerByID_def find_None_iff)

subsection \<open>Majorities\<close>

text \<open>
  The contract of a voting rule: a threshold that more than half of the members must
  reach. Whatever is decided by that many members is known to a member of any other
  decision.
\<close>

locale voting =
  fixes members :: "'c \<Rightarrow> 'n set"
    and threshold :: "'c \<Rightarrow> nat"
  assumes members_finite: "finite (members c)"
    and more_than_half: "card (members c) < 2 * threshold c"
begin

lemma quorums_meet:
  assumes "A \<subseteq> members c" and "B \<subseteq> members c" and "threshold c \<le> card A" and "threshold c \<le> card B"
  obtains n where "n \<in> A" and "n \<in> B"
proof -
  have "A \<inter> B \<noteq> {}"
    using members_finite assms(1,2)
    by (rule majorities_meet) (use more_than_half [of c] assms(3,4) in linarith)+
  then show thesis using that by blast
qed

end

definition members :: "Config \<Rightarrow> NodeID set" where
  "members c = insert (cfg_ID c) (peer_ID ` set (cfg_Peers c))"

lemma card_members_le: "card (members c) \<le> ClusterSize c"
proof -
  have "card (peer_ID ` set (cfg_Peers c)) \<le> length (cfg_Peers c)"
    using card_image_le card_length finite_set le_trans by metis
  then show ?thesis
    using card_insert_le_m1 [of "ClusterSize c"] by (simp add: members_def ClusterSize_def card_insert_if)
qed

lemma card_members: "Validate c = None \<Longrightarrow> card (members c) = ClusterSize c"
  by (auto simp: Validate_iff members_def ClusterSize_def card_insert_if distinct_card
        simp flip: set_map)

interpretation cluster: voting members Majority
proof unfold_locales
  show "finite (members c)" for c by (simp add: members_def)
  show "card (members c) < 2 * Majority c" for c
    using card_members_le [of c] by (simp add: Majority_def)
qed

text \<open>A valid cluster of \<open>2 f + 1\<close> nodes still has a majority when \<open>f\<close> nodes are down, not when more are.\<close>

lemma majority_tolerates:
  assumes "Validate c = None" and "down \<subseteq> members c"
  shows "Majority c \<le> card (members c - down) \<longleftrightarrow> card down \<le> (ClusterSize c - 1) div 2"
proof -
  have fin: "finite (members c)" by (rule cluster.members_finite)
  have "card (members c - down) = ClusterSize c - card down"
    using card_members [OF assms(1)] card_Diff_subset [OF finite_subset [OF assms(2) fin] assms(2)] by simp
  moreover have "card down \<le> ClusterSize c"
    using card_mono [OF fin assms(2)] card_members [OF assms(1)] by simp
  moreover obtain k where "ClusterSize c = 2 * k + 1"
    using assms(1) by (auto simp: Validate_iff elim: oddE)
  ultimately show ?thesis by (auto simp: Majority_def)
qed

subsection \<open>What the parser returns\<close>

lemma parse_parts_fields:
  "parse_parts xs = Inr ps \<Longrightarrow> p \<in> set ps \<Longrightarrow> peer_ID p \<noteq> [] \<and> peer_Addr p \<noteq> []"
  by (induction xs arbitrary: ps)
     (auto simp: Let_def split: if_splits option.splits prod.splits sum.splits)

lemma ParsePeers_sorted:
  "ParsePeers s = Inr ps \<Longrightarrow>
   sorted (map peer_ID ps) \<and> (\<forall>p \<in> set ps. peer_ID p \<noteq> [] \<and> peer_Addr p \<noteq> [])"
  by (auto simp: ParsePeers_def Let_def split: if_splits sum.splits dest: parse_parts_fields)

text \<open>
  The flag's syntax read backwards: peers whose fields are printable ASCII without space,
  comma or (in the ID) equals sign, written \<^verbatim>\<open>id=addr\<close> and joined with commas.
\<close>

definition graphic :: "string \<Rightarrow> bool" where
  "graphic s \<longleftrightarrow> s \<noteq> [] \<and> list_all (\<lambda>c. 32 < byte c \<and> byte c < 127 \<and> c \<noteq> CHR '','') s"

definition render_peer :: "Peer \<Rightarrow> string" where
  "render_peer p = peer_ID p @ CHR ''='' # peer_Addr p"

fun render_peers :: "Peer list \<Rightarrow> string" where
  "render_peers [] = []"
| "render_peers [p] = render_peer p"
| "render_peers (p # ps) = render_peer p @ CHR '','' # render_peers ps"

definition peer_ok :: "Peer \<Rightarrow> bool" where
  "peer_ok p \<longleftrightarrow> graphic (peer_ID p) \<and> graphic (peer_Addr p) \<and> CHR ''='' \<notin> set (peer_ID p)"

lemma wide_spaces_bytes: "w \<in> set wide_spaces \<Longrightarrow> w \<noteq> [] \<and> (\<forall>c \<in> set w. 128 \<le> byte c)"
  by (auto simp: wide_spaces_def upt_rec)

lemma space_len_ascii:
  assumes "s \<noteq> []" and "32 < byte (hd s)" and "byte (hd s) < 128" and "\<And>w. set (d w) = set w"
  shows "space_len d s = 0"
proof -
  have "take (length w) s \<noteq> d w" if "w \<in> set wide_spaces" for w
  proof
    assume e: "take (length w) s = d w"
    from wide_spaces_bytes [OF that] have w: "w \<noteq> []" "\<forall>c \<in> set w. 128 \<le> byte c" by auto
    with assms(1) have "hd s \<in> set (take (length w) s)" by (cases s; cases w) auto
    with e w assms show False by auto
  qed
  then have "find (\<lambda>w. take (length w) s = d w) wide_spaces = None" by (simp add: find_None_iff)
  with assms show ?thesis by (simp add: space_len_def)
qed

lemma TrimSpace_graphic:
  assumes "s \<noteq> []" and "32 < byte (hd s)" "byte (hd s) < 128" "32 < byte (last s)" "byte (last s) < 128"
  shows "TrimSpace s = s"
proof -
  have "space_len id s = 0" using assms by (intro space_len_ascii) auto
  moreover have "space_len rev (rev s) = 0" using assms by (intro space_len_ascii) (auto simp: hd_rev)
  ultimately show ?thesis
    by (simp add: TrimSpace_def trim_with.simps [of id] trim_with.simps [of rev])
qed

lemma graphic_ends:
  assumes "graphic s"
  shows "s \<noteq> []" "32 < byte (hd s)" "byte (hd s) < 128" "32 < byte (last s)" "byte (last s) < 128"
proof -
  from assms have ne: "s \<noteq> []" and all: "\<And>c. c \<in> set s \<Longrightarrow> 32 < byte c \<and> byte c < 127"
    by (auto simp: graphic_def list_all_iff)
  show "s \<noteq> []" by (rule ne)
  show "32 < byte (hd s)" "byte (hd s) < 128" using all [OF hd_in_set [OF ne]] by simp_all
  show "32 < byte (last s)" "byte (last s) < 128" using all [OF last_in_set [OF ne]] by simp_all
qed

lemma TrimSpace_graphic' [simp]: "graphic s \<Longrightarrow> TrimSpace s = s"
  by (rule TrimSpace_graphic) (auto dest: graphic_ends)

lemma render_peer_ends:
  assumes "peer_ok p"
  shows "render_peer p \<noteq> []" "32 < byte (hd (render_peer p))" "byte (hd (render_peer p)) < 128"
    "32 < byte (last (render_peer p))" "byte (last (render_peer p)) < 128"
  using assms graphic_ends [of "peer_ID p"] graphic_ends [of "peer_Addr p"]
  by (auto simp: peer_ok_def render_peer_def)

lemma Split_no_sep: "sep \<notin> set s \<Longrightarrow> Split s sep = [s]"
  by (induction s) auto

lemma Split_append: "sep \<notin> set s \<Longrightarrow> Split (s @ sep # r) sep = s # Split r sep"
  by (induction s) auto

lemma render_peer_no_comma: "peer_ok p \<Longrightarrow> CHR '','' \<notin> set (render_peer p)"
  by (auto simp: peer_ok_def render_peer_def graphic_def list_all_iff)

lemma Split_render: "ps \<noteq> [] \<Longrightarrow> \<forall>p \<in> set ps. peer_ok p \<Longrightarrow>
    Split (render_peers ps) (CHR '','') = map render_peer ps"
  by (induction ps rule: render_peers.induct)
     (simp_all add: Split_no_sep Split_append render_peer_no_comma)

lemma Cut_append: "sep \<notin> set s \<Longrightarrow> Cut (s @ sep # r) sep = Some (s, r)"
  by (induction s) (auto simp: Cut_def split: list.splits)

lemma Cut_render: "peer_ok p \<Longrightarrow> Cut (render_peer p) (CHR ''='') = Some (peer_ID p, peer_Addr p)"
  by (simp add: render_peer_def peer_ok_def Cut_append)

lemma parse_parts_render:
  "\<forall>p \<in> set ps. peer_ok p \<Longrightarrow> parse_parts (map render_peer ps) = Inr ps"
proof (induction ps)
  case (Cons p ps)
  then have p: "peer_ok p" by simp
  have "TrimSpace (render_peer p) = render_peer p"
    using render_peer_ends [OF p] by (intro TrimSpace_graphic) auto
  moreover have "graphic (peer_ID p)" "graphic (peer_Addr p)" using p by (auto simp: peer_ok_def)
  ultimately show ?case
    using Cons p by (simp add: Cut_render render_peer_ends(1) graphic_def)
qed simp

lemma render_peers_last:
  "ps \<noteq> [] \<Longrightarrow> \<forall>p \<in> set ps. peer_ok p \<Longrightarrow>
   render_peers ps \<noteq> [] \<and> hd (render_peers ps) = hd (render_peer (hd ps)) \<and>
   last (render_peers ps) = last (render_peer (last ps))"
proof (induction ps rule: render_peers.induct)
  case (3 p q qs)
  then show ?case using render_peer_ends(1) [of p] by simp
qed (auto dest: render_peer_ends(1))

lemma ParsePeers_render:
  assumes "\<forall>p \<in> set ps. peer_ok p"
  shows "ParsePeers (render_peers ps) = Inr (sort_key peer_ID ps)"
proof (cases "ps = []")
  case True
  then show ?thesis
    by (simp add: ParsePeers_def TrimSpace_def trim_with.simps [of _ "[]"] space_len_def)
next
  case False
  note e = render_peers_last [OF False assms]
  have "peer_ok (hd ps)" "peer_ok (last ps)" using assms False by auto
  then have "TrimSpace (render_peers ps) = render_peers ps"
    using e render_peer_ends [of "hd ps"] render_peer_ends [of "last ps"]
    by (intro TrimSpace_graphic) auto
  with e show ?thesis
    by (simp add: ParsePeers_def Split_render [OF False assms] parse_parts_render [OF assms])
qed

end
