(* ===== verification/Go_Json.thy ===== *)
theory Go_Json
  imports Go_Utf8
begin

text \<open>
  The part of Go's \<^verbatim>\<open>encoding/json\<close> the sources use: \<^verbatim>\<open>json.Marshal\<close> and
  \<^verbatim>\<open>json.Unmarshal\<close> of structs whose fields are \<^verbatim>\<open>uint64\<close> and \<^verbatim>\<open>string\<close>. Marshal
  escapes strings as the package does (HTML escaping on, bytes that are not UTF-8 as
  U+FFFD); Unmarshal is a parser for all of JSON with the package's rules for null,
  unknown keys, key case folding and type errors. The result of the theory is the
  round trip: parsing what Marshal rendered gives the rendered fields with every string
  sanitized.
\<close>

abbreviation dquote :: char where "dquote \<equiv> CHR 0x22"
abbreviation bslash :: char where "bslash \<equiv> CHR 0x5C"

subsection \<open>Numbers\<close>

definition digit :: "nat \<Rightarrow> char" where
  "digit d = char_of (48 + d)"

fun dec :: "nat \<Rightarrow> string" where
  "dec n = (if n < 10 then [digit n] else dec (n div 10) @ [digit (n mod 10)])"

declare dec.simps [simp del]

definition is_digit :: "char \<Rightarrow> bool" where
  "is_digit c \<longleftrightarrow> 48 \<le> byte c \<and> byte c \<le> 57"

definition digits_value :: "string \<Rightarrow> nat" where
  "digits_value s = foldl (\<lambda>a c. 10 * a + (byte c - 48)) 0 s"

text \<open>\<^verbatim>\<open>strconv.ParseUint(s, 10, 64)\<close> of a JSON number literal.\<close>

definition parse_uint :: "string \<Rightarrow> nat option" where
  "parse_uint s =
     (if s \<noteq> [] \<and> list_all is_digit s \<and> digits_value s < 2 ^ 64
      then Some (digits_value s) else None)"

lemma byte_digit: "d < 10 \<Longrightarrow> byte (digit d) = 48 + d"
  by (simp add: digit_def)

lemma is_digit_digit: "d < 10 \<Longrightarrow> is_digit (digit d)"
  by (simp add: is_digit_def byte_digit)

lemma dec_digits: "list_all is_digit (dec n)"
  by (induction n rule: dec.induct) (subst dec.simps, simp add: is_digit_digit)

lemma dec_not_Nil [simp]: "dec n \<noteq> []"
  by (subst dec.simps) simp

lemma digits_value_snoc: "digits_value (s @ [c]) = 10 * digits_value s + (byte c - 48)"
  by (simp add: digits_value_def)

lemma digits_value_dec: "digits_value (dec n) = n"
proof (induction n rule: dec.induct)
  case (1 n)
  show ?case
  proof (cases "n < 10")
    case True
    then show ?thesis by (subst dec.simps) (simp add: digits_value_def byte_digit)
  next
    case False
    with 1 show ?thesis by (subst dec.simps) (simp add: digits_value_snoc byte_digit)
  qed
qed

lemma parse_uint_dec: "n < 2 ^ 64 \<Longrightarrow> parse_uint (dec n) = Some n"
  by (simp add: parse_uint_def dec_digits digits_value_dec)

lemma hd_dec_zero: "hd (dec n) = CHR ''0'' \<Longrightarrow> n = 0"
proof (induction n rule: dec.induct)
  case (1 n)
  show ?case
  proof (cases "n < 10")
    case True
    with "1.prems" have "byte (digit n) = 48" by (subst (asm) dec.simps) simp
    with True show ?thesis by (simp add: byte_digit)
  next
    case False
    with 1 have "n div 10 = 0" by (subst (asm) (2) dec.simps) simp
    with False show ?thesis by simp
  qed
qed

lemma dec_0: "dec 0 = ''0''"
  by (simp add: dec.simps digit_def char_of_eq_iff)

subsection \<open>String literals\<close>

definition hexdigit :: "nat \<Rightarrow> char" where
  "hexdigit d = (if d < 10 then char_of (48 + d) else char_of (87 + d))"

text \<open>The escape of one ASCII byte (\<^verbatim>\<open>appendString\<close> with HTML escaping).\<close>

definition esc_ascii :: "char \<Rightarrow> string" where
  "esc_ascii c =
     (if c = dquote \<or> c = bslash then [bslash, c]
      else if byte c = 8 then [bslash, CHR ''b'']
      else if byte c = 12 then [bslash, CHR ''f'']
      else if byte c = 10 then [bslash, CHR ''n'']
      else if byte c = 13 then [bslash, CHR ''r'']
      else if byte c = 9 then [bslash, CHR ''t'']
      else if byte c < 32 \<or> c = CHR ''<'' \<or> c = CHR ''>'' \<or> c = CHR ''&''
      then [bslash, CHR ''u'', CHR ''0'', CHR ''0'', hexdigit (byte c div 16), hexdigit (byte c mod 16)]
      else [c])"

definition u2028 :: string where "u2028 = [CHR 0xE2, CHR 0x80, CHR 0xA8]"
definition u2029 :: string where "u2029 = [CHR 0xE2, CHR 0x80, CHR 0xA9]"

definition esc_rune :: "string \<Rightarrow> string" where
  "esc_rune r =
     (if r = u2028 then [bslash] @ ''u2028''
      else if r = u2029 then [bslash] @ ''u2029''
      else if length r = 1 then esc_ascii (hd r) else r)"

function enc_body :: "string \<Rightarrow> string" where
  "enc_body s =
     (if s = [] then []
      else if rune_len s = 0 then [bslash] @ ''ufffd'' @ enc_body (tl s)
      else esc_rune (take (rune_len s) s) @ enc_body (drop (rune_len s) s))"
  by pat_completeness auto
termination
  by (relation "measure length") (auto simp: neq_Nil_conv)

declare enc_body.simps [simp del]

definition hexval :: "char \<Rightarrow> nat option" where
  "hexval c = (let b = byte c in
     if 48 \<le> b \<and> b \<le> 57 then Some (b - 48)
     else if 97 \<le> b \<and> b \<le> 102 then Some (b - 87)
     else if 65 \<le> b \<and> b \<le> 70 then Some (b - 55)
     else None)"

fun hex4 :: "string \<Rightarrow> (nat \<times> string) option" where
  "hex4 (a # b # c # d # r) =
     (case (hexval a, hexval b, hexval c, hexval d) of
        (Some w, Some x, Some y, Some z) \<Rightarrow> Some (((w * 16 + x) * 16 + y) * 16 + z, r)
      | _ \<Rightarrow> None)"
| "hex4 _ = None"

text \<open>\<^verbatim>\<open>utf8.AppendRune\<close>.\<close>

definition utf8_enc :: "nat \<Rightarrow> string" where
  "utf8_enc n =
     (if n < 0x80 then [char_of n]
      else if n < 0x800 then [char_of (0xC0 + n div 64), char_of (0x80 + n mod 64)]
      else if (0xD800 \<le> n \<and> n < 0xE000) \<or> 0x110000 \<le> n then ufffd
      else if n < 0x10000
      then [char_of (0xE0 + n div 4096), char_of (0x80 + n div 64 mod 64), char_of (0x80 + n mod 64)]
      else [char_of (0xF0 + n div 262144), char_of (0x80 + n div 4096 mod 64),
            char_of (0x80 + n div 64 mod 64), char_of (0x80 + n mod 64)])"

text \<open>
  One \<^verbatim>\<open>\uXXXX\<close> escape after its four digits: a high surrogate followed by an escaped
  low surrogate is one rune, any other surrogate is U+FFFD.
\<close>

definition dec_u :: "nat \<Rightarrow> string \<Rightarrow> string \<times> string" where
  "dec_u n r =
     (if 0xD800 \<le> n \<and> n < 0xE000 then
        (case r of
           e # u # r' \<Rightarrow>
             (if e = bslash \<and> u = CHR ''u'' then
                (case hex4 r' of
                   Some (m, r'') \<Rightarrow>
                     (if n < 0xDC00 \<and> 0xDC00 \<le> m \<and> m < 0xE000
                      then (utf8_enc (0x10000 + (n - 0xD800) * 1024 + (m - 0xDC00)), r'')
                      else (ufffd, r))
                 | None \<Rightarrow> (ufffd, r))
              else (ufffd, r))
         | _ \<Rightarrow> (ufffd, r))
      else (utf8_enc n, r))"

definition simple_escape :: "char \<Rightarrow> char option" where
  "simple_escape c =
     (if c = dquote \<or> c = bslash \<or> c = CHR ''/'' then Some c
      else if c = CHR ''b'' then Some (CHR 8)
      else if c = CHR ''f'' then Some (CHR 12)
      else if c = CHR ''n'' then Some (CHR 10)
      else if c = CHR ''r'' then Some (CHR 13)
      else if c = CHR ''t'' then Some (CHR 9)
      else None)"

text \<open>
  One step of \<^verbatim>\<open>unquote\<close> inside a literal: \<open>Inl rest\<close> after the closing quote, or the
  bytes one character contributes and what follows; \<^const>\<open>None\<close> is a syntax error.
\<close>

fun lit_step :: "string \<Rightarrow> (string + string \<times> string) option" where
  "lit_step [] = None"
| "lit_step (c # r) =
     (if c = dquote then Some (Inl r)
      else if c = bslash then
        (case r of
           [] \<Rightarrow> None
         | e # r' \<Rightarrow>
             (case simple_escape e of
                Some x \<Rightarrow> Some (Inr ([x], r'))
              | None \<Rightarrow>
                  (if e = CHR ''u''
                   then map_option (\<lambda>(n, r''). Inr (dec_u n r'')) (hex4 r')
                   else None)))
      else if byte c < 32 then None
      else if rune_len (c # r) = 0 then Some (Inr (ufffd, r))
      else Some (Inr (take (rune_len (c # r)) (c # r), drop (rune_len (c # r)) (c # r))))"

lemma hex4_length: "hex4 s = Some (n, r) \<Longrightarrow> length r < length s"
  by (cases s rule: hex4.cases) (auto split: option.splits)

lemma dec_u_length: "dec_u n s = (x, r) \<Longrightarrow> length r \<le> length s"
  by (auto simp: dec_u_def split: if_splits list.splits option.splits dest!: hex4_length)

lemma lit_step_Inl_length: "lit_step s = Some (Inl r) \<Longrightarrow> length r < length s"
  by (cases s) (auto split: if_splits list.splits option.splits)

lemma lit_step_length: "lit_step s = Some (Inr (x, r)) \<Longrightarrow> length r < length s"
  by (cases s)
     (auto split: if_splits list.splits option.splits dest!: hex4_length dec_u_length)

function dec_body :: "string \<Rightarrow> (string \<times> string) option" where
  "dec_body s =
     (case lit_step s of
        None \<Rightarrow> None
      | Some (Inl r) \<Rightarrow> Some ([], r)
      | Some (Inr (x, r)) \<Rightarrow> map_option (\<lambda>(y, r'). (x @ y, r')) (dec_body r))"
  by pat_completeness auto
termination
  by (relation "measure length") (auto dest: lit_step_length)

declare dec_body.simps [simp del] lit_step.simps(2) [simp del]

lemma dec_body_length: "dec_body s = Some (x, r) \<Longrightarrow> length r < length s"
proof (induction s arbitrary: x r rule: dec_body.induct)
  case (1 s)
  from "1.prems" show ?case
    by (subst (asm) dec_body.simps)
       (auto split: option.splits sum.splits prod.splits
          dest: lit_step_Inl_length lit_step_length "1.IH" less_trans)
qed

subsubsection \<open>Decoding an encoded literal\<close>

lemma hexval_hexdigit: "d < 16 \<Longrightarrow> hexval (hexdigit d) = Some d"
  by (auto simp: hexval_def hexdigit_def Let_def)

lemma hex4_escape:
  "n < 256 \<Longrightarrow>
   hex4 (CHR ''0'' # CHR ''0'' # hexdigit (n div 16) # hexdigit (n mod 16) # X) = Some (n, X)"
  using hexval_hexdigit [of "n div 16"] hexval_hexdigit [of "n mod 16"]
  by (simp add: hexval_def Let_def)

lemma lit_step_plain:
  "byte c < 128 \<Longrightarrow> 32 \<le> byte c \<Longrightarrow> c \<noteq> dquote \<Longrightarrow> c \<noteq> bslash \<Longrightarrow>
   lit_step (c # X) = Some (Inr ([c], X))"
  by (simp add: lit_step.simps(2))

lemma lit_step_simple:
  "simple_escape e = Some x \<Longrightarrow> lit_step (bslash # e # X) = Some (Inr ([x], X))"
  by (simp add: lit_step.simps(2))

lemma lit_step_u:
  "hex4 Y = Some (n, X) \<Longrightarrow> lit_step (bslash # CHR ''u'' # Y) = Some (Inr (dec_u n X))"
  by (simp add: lit_step.simps(2) simple_escape_def)

lemma dec_u_ascii: "byte c < 128 \<Longrightarrow> dec_u (byte c) X = ([c], X)"
  by (simp add: dec_u_def utf8_enc_def)

lemma lit_step_esc_ascii:
  assumes "byte c < 128"
  shows "lit_step (esc_ascii c @ X) = Some (Inr ([c], X))"
proof -
  consider "c = dquote \<or> c = bslash" | "byte c \<in> {8, 9, 10, 12, 13}"
    | "byte c < 32 \<or> c = CHR ''<'' \<or> c = CHR ''>'' \<or> c = CHR ''&''"
      "byte c \<notin> {8, 9, 10, 12, 13}" "c \<noteq> dquote" "c \<noteq> bslash"
    | "32 \<le> byte c" "c \<noteq> dquote" "c \<noteq> bslash" "c \<noteq> CHR ''<''" "c \<noteq> CHR ''>''" "c \<noteq> CHR ''&''"
    by force
  then show ?thesis
  proof cases
    case 1
    then show ?thesis
      by (auto simp: esc_ascii_def simple_escape_def intro!: lit_step_simple)
  next
    case 2
    then have "c = CHR 8 \<or> c = CHR 9 \<or> c = CHR 10 \<or> c = CHR 12 \<or> c = CHR 13"
      by (simp add: of_char_eq_iff [where 'a = nat, symmetric] del: of_char_eq_iff)
    then show ?thesis
      by (elim disjE) (simp_all add: esc_ascii_def simple_escape_def lit_step_simple)
  next
    case 3
    then have "esc_ascii c = [bslash, CHR ''u'', CHR ''0'', CHR ''0'',
        hexdigit (byte c div 16), hexdigit (byte c mod 16)]"
      by (auto simp: esc_ascii_def)
    then show ?thesis using assms
      by (simp add: lit_step_u [OF hex4_escape] dec_u_ascii)
  next
    case 4
    then show ?thesis using assms by (auto simp: esc_ascii_def lit_step_plain)
  qed
qed

lemma lit_step_rune:
  assumes "1 < rune_len s"
  shows "lit_step (take (rune_len s) s @ X) = Some (Inr (take (rune_len s) s, X))"
proof -
  let ?r = "take (rune_len s) s"
  from assms have "?r \<noteq> []" by (auto intro: Nat.gr0I)
  then obtain c r' where r: "?r = c # r'" by (cases ?r) auto
  have "128 \<le> byte c" using rune_multibyte [OF assms] r by simp
  then have "32 \<le> byte c" "c \<noteq> dquote" "c \<noteq> bslash" by auto
  moreover have "rune_len (c # r' @ X) = rune_len s"
    using rune_len_append [of s X] assms r by simp
  moreover have "rune_len s = Suc (length r')"
    using r rune_len_le [of s] by (metis length_Cons length_take min.absorb2)
  ultimately show ?thesis using r assms by (simp add: lit_step.simps(2))
qed

lemma lit_step_uescape:
  "lit_step (bslash # ''u2028'' @ X) = Some (Inr (u2028, X))"
  "lit_step (bslash # ''u2029'' @ X) = Some (Inr (u2029, X))"
  "lit_step (bslash # ''ufffd'' @ X) = Some (Inr (ufffd, X))"
  by (simp_all add: lit_step.simps(2) simple_escape_def hexval_def dec_u_def utf8_enc_def
        u2028_def u2029_def ufffd_def char_of_eq_iff)

lemma lit_step_esc_rune:
  assumes "rune_len s \<noteq> 0"
  shows "lit_step (esc_rune (take (rune_len s) s) @ X) = Some (Inr (take (rune_len s) s, X))"
proof (cases "rune_len s = 1")
  case True
  then obtain c t where s: "s = c # t" by (cases s) auto
  with True have "byte c < 128" using rune_len_1 by metis
  with s show ?thesis
    by (auto simp: esc_rune_def u2028_def u2029_def lit_step_esc_ascii)
next
  case False
  with assms have gt: "1 < rune_len s" by simp
  moreover have "length (take (rune_len s) s) = rune_len s" using rune_len_le by simp
  ultimately show ?thesis
    by (auto simp: esc_rune_def lit_step_rune lit_step_uescape [simplified])
qed

lemma dec_body_step: "lit_step s = Some (Inr (x, r)) \<Longrightarrow>
    dec_body s = map_option (\<lambda>(y, r'). (x @ y, r')) (dec_body r)"
  by (subst dec_body.simps) simp

lemma dec_enc_body: "dec_body (enc_body s @ dquote # t) = Some (sanitize s, t)"
proof (induction s rule: enc_body.induct)
  case (1 s)
  let ?k = "rune_len s"
  consider "s = []" | "s \<noteq> []" "?k = 0" | "s \<noteq> []" "?k \<noteq> 0" by blast
  then show ?case
  proof cases
    case 1
    then show ?thesis
      by (simp add: enc_body.simps [of "[]"]) (subst dec_body.simps, simp add: lit_step.simps(2))
  next
    case 2
    then have "enc_body s @ dquote # t = bslash # ''ufffd'' @ (enc_body (tl s) @ dquote # t)"
      by (simp add: enc_body.simps [of s])
    then have "dec_body (enc_body s @ dquote # t) =
        map_option (\<lambda>(y, r). (ufffd @ y, r)) (dec_body (enc_body (tl s) @ dquote # t))"
      by (simp only: dec_body_step [OF lit_step_uescape(3)])
    with 2 "1.IH"(1) [OF 2] show ?thesis by (simp add: sanitize.simps [of s])
  next
    case 3
    then have "enc_body s @ dquote # t =
        esc_rune (take ?k s) @ (enc_body (drop ?k s) @ dquote # t)"
      by (simp add: enc_body.simps [of s])
    then have "dec_body (enc_body s @ dquote # t) =
        map_option (\<lambda>(y, r). (take ?k s @ y, r)) (dec_body (enc_body (drop ?k s) @ dquote # t))"
      by (simp only: dec_body_step [OF lit_step_esc_rune [OF 3(2)]])
    with 3 "1.IH"(2) [OF 3] show ?thesis by (simp add: sanitize.simps [of s])
  qed
qed

subsection \<open>Values\<close>

datatype json = JNull | JBool bool | JNum string | JStr string
  | JArr "json list" | JObj "(string \<times> json) list"

definition is_ws :: "char \<Rightarrow> bool" where
  "is_ws c \<longleftrightarrow> byte c \<in> {9, 10, 13, 32}"

definition skip_ws :: "string \<Rightarrow> string" where
  "skip_ws s = dropWhile is_ws s"

text \<open>The number grammar: optional minus, integer part, fraction, exponent.\<close>

definition digits_of :: "string \<Rightarrow> (string \<times> string) option" where
  "digits_of s = (let d = takeWhile is_digit s in
     if d = [] then None else Some (d, dropWhile is_digit s))"

definition p_int :: "string \<Rightarrow> (string \<times> string) option" where
  "p_int s = (case s of
     [] \<Rightarrow> None
   | c # r \<Rightarrow> if c = CHR ''0'' then Some ([c], r) else digits_of s)"

definition p_frac :: "string \<Rightarrow> (string \<times> string) option" where
  "p_frac s = (case s of
     c # r \<Rightarrow> if c = CHR ''.'' then map_option (\<lambda>(d, t). (c # d, t)) (digits_of r) else Some ([], s)
   | [] \<Rightarrow> Some ([], []))"

definition p_exp :: "string \<Rightarrow> (string \<times> string) option" where
  "p_exp s = (case s of
     c # r \<Rightarrow>
       if c = CHR ''e'' \<or> c = CHR ''E'' then
         (case r of
            [] \<Rightarrow> None
          | x # r' \<Rightarrow>
              if x = CHR ''+'' \<or> x = CHR ''-''
              then map_option (\<lambda>(d, t). (c # x # d, t)) (digits_of r')
              else map_option (\<lambda>(d, t). (c # d, t)) (digits_of r))
       else Some ([], s)
   | [] \<Rightarrow> Some ([], []))"

definition p_num :: "string \<Rightarrow> (json \<times> string) option" where
  "p_num s =
     (let (m, s0) = (case s of c # r \<Rightarrow> if c = CHR ''-'' then ([c], r) else ([], s) | [] \<Rightarrow> ([], [])) in
      (case p_int s0 of None \<Rightarrow> None | Some (i, s1) \<Rightarrow>
        (case p_frac s1 of None \<Rightarrow> None | Some (f, s2) \<Rightarrow>
          (case p_exp s2 of None \<Rightarrow> None | Some (e, s3) \<Rightarrow>
            Some (JNum (m @ i @ f @ e), s3)))))"

definition p_lit :: "string \<Rightarrow> json \<Rightarrow> string \<Rightarrow> (json \<times> string) option" where
  "p_lit w j s = (if take (length w) s = w then Some (j, drop (length w) s) else None)"

text \<open>
  The recursive parser. The first argument is fuel: every nested call is made on a
  shorter text, with one call in between for an array, so twice the length of the text
  plus one is enough (lemma \<open>p_fuel\<close> below). The second is the nesting depth, which \<^verbatim>\<open>encoding/json\<close> limits to 10000.
\<close>

fun p_value :: "nat \<Rightarrow> nat \<Rightarrow> string \<Rightarrow> (json \<times> string) option"
  and p_members :: "nat \<Rightarrow> nat \<Rightarrow> string \<Rightarrow> ((string \<times> json) list \<times> string) option"
  and p_elems :: "nat \<Rightarrow> nat \<Rightarrow> string \<Rightarrow> (json list \<times> string) option" where
  "p_value 0 d s = None"
| "p_value (Suc f) d s =
     (case s of [] \<Rightarrow> None | c # r \<Rightarrow>
        if c = CHR ''{'' then
          (if 10000 \<le> d then None
           else (case skip_ws r of [] \<Rightarrow> None | c' # r' \<Rightarrow>
             if c' = CHR ''}'' then Some (JObj [], r')
             else map_option (\<lambda>(ms, t). (JObj ms, t)) (p_members f (Suc d) (c' # r'))))
        else if c = CHR ''['' then
          (if 10000 \<le> d then None
           else (case skip_ws r of [] \<Rightarrow> None | c' # r' \<Rightarrow>
             if c' = CHR '']'' then Some (JArr [], r')
             else map_option (\<lambda>(es, t). (JArr es, t)) (p_elems f (Suc d) (c' # r'))))
        else if c = dquote then map_option (\<lambda>(x, t). (JStr x, t)) (dec_body r)
        else if c = CHR ''t'' then p_lit ''true'' (JBool True) s
        else if c = CHR ''f'' then p_lit ''false'' (JBool False) s
        else if c = CHR ''n'' then p_lit ''null'' JNull s
        else p_num s)"
| "p_members 0 d s = None"
| "p_members (Suc f) d s =
     (case s of [] \<Rightarrow> None | c # r \<Rightarrow>
        if c \<noteq> dquote then None
        else (case dec_body r of None \<Rightarrow> None | Some (k, t) \<Rightarrow>
          (case skip_ws t of [] \<Rightarrow> None | c1 # t1 \<Rightarrow>
             if c1 \<noteq> CHR '':'' then None
             else (case p_value f d (skip_ws t1) of None \<Rightarrow> None | Some (v, t2) \<Rightarrow>
               (case skip_ws t2 of [] \<Rightarrow> None | c3 # t3 \<Rightarrow>
                  if c3 = CHR ''}'' then Some ([(k, v)], t3)
                  else if c3 = CHR '','' then
                    map_option (\<lambda>(ms, u). ((k, v) # ms, u)) (p_members f d (skip_ws t3))
                  else None)))))"
| "p_elems 0 d s = None"
| "p_elems (Suc f) d s =
     (case p_value f d s of None \<Rightarrow> None | Some (v, t2) \<Rightarrow>
        (case skip_ws t2 of [] \<Rightarrow> None | c3 # t3 \<Rightarrow>
           if c3 = CHR '']'' then Some ([v], t3)
           else if c3 = CHR '','' then
             map_option (\<lambda>(es, u). (v # es, u)) (p_elems f d (skip_ws t3))
           else None))"

text \<open>\<^verbatim>\<open>json.Unmarshal\<close> parses the whole input: one value and nothing but space around it.\<close>

definition parse_json :: "string \<Rightarrow> json option" where
  "parse_json s =
     (let t = skip_ws s in
      case p_value (Suc (2 * length t)) 0 t of
        None \<Rightarrow> None
      | Some (j, r) \<Rightarrow> if skip_ws r = [] then Some j else None)"

subsection \<open>Structs\<close>

text \<open>
  The Go values the sources render: unsigned integers, strings, booleans, structs (the
  (name, value) pairs of the fields that are emitted: \<^verbatim>\<open>omitempty\<close> fields that are zero
  are already left out) and slices.
\<close>

datatype jfield = FNum nat | FStr string | FBool bool | FObj "(string \<times> jfield) list" | FArr "jfield list"

fun commas :: "string list \<Rightarrow> string" where
  "commas [] = []"
| "commas [s] = s"
| "commas (s # ss) = s @ CHR '','' # commas ss"

definition member_text :: "string \<times> string \<Rightarrow> string" where
  "member_text m = dquote # fst m @ [dquote, CHR '':''] @ snd m"

primrec render_field :: "jfield \<Rightarrow> string" where
  "render_field (FNum n) = dec n"
| "render_field (FStr s) = dquote # enc_body s @ [dquote]"
| "render_field (FBool b) = (if b then ''true'' else ''false'')"
| "render_field (FObj ms) =
     CHR ''{'' # commas (map member_text (map (map_prod id render_field) ms)) @ [CHR ''}'']"
| "render_field (FArr vs) = CHR ''['' # commas (map render_field vs) @ [CHR '']'']"

text \<open>The value a rendered field is read back as.\<close>

primrec field_json :: "jfield \<Rightarrow> json" where
  "field_json (FNum n) = JNum (dec n)"
| "field_json (FStr s) = JStr (sanitize s)"
| "field_json (FBool b) = JBool b"
| "field_json (FObj ms) = JObj (map (map_prod id field_json) ms)"
| "field_json (FArr vs) = JArr (map field_json vs)"

text \<open>\<^verbatim>\<open>json.Marshal\<close> of a struct.\<close>

definition render_obj :: "(string \<times> jfield) list \<Rightarrow> string" where
  "render_obj ms = render_field (FObj ms)"

text \<open>
  \<^verbatim>\<open>foldName\<close>: keys match field names up to simple case folding. The only runes outside
  ASCII that fold to ASCII letters are U+017F (to S) and U+212A (to K).
\<close>

function fold_name :: "string \<Rightarrow> string" where
  "fold_name s =
     (if s = [] then []
      else if take 2 s = [CHR 0xC5, CHR 0xBF] then CHR ''S'' # fold_name (drop 2 s)
      else if take 3 s = [CHR 0xE2, CHR 0x84, CHR 0xAA] then CHR ''K'' # fold_name (drop 3 s)
      else if 97 \<le> byte (hd s) \<and> byte (hd s) \<le> 122
      then char_of (byte (hd s) - 32) # fold_name (tl s)
      else hd s # fold_name (tl s))"
  by pat_completeness auto
termination
  by (relation "measure length") (auto simp: neq_Nil_conv)

declare fold_name.simps [simp del]

definition field_of :: "string list \<Rightarrow> string \<Rightarrow> string option" where
  "field_of names k =
     (if k \<in> set names then Some k else find (\<lambda>n. fold_name n = fold_name k) names)"

text \<open>
  Storing a JSON value into a field: null leaves it alone; a value of the wrong type, or a
  number that is not a \<^verbatim>\<open>uint64\<close>, is an \<^verbatim>\<open>UnmarshalTypeError\<close>, which is reported at
  the end (the flag).
\<close>

fun set_u64 :: "json \<Rightarrow> u64 \<Rightarrow> u64 \<times> bool" where
  "set_u64 JNull old = (old, False)"
| "set_u64 (JNum n) old = (case parse_uint n of None \<Rightarrow> (old, True) | Some v \<Rightarrow> (of_nat v, False))"
| "set_u64 _ old = (old, True)"

fun set_bool :: "json \<Rightarrow> bool \<Rightarrow> bool \<times> bool" where
  "set_bool JNull old = (old, False)"
| "set_bool (JBool b) old = (b, False)"
| "set_bool _ old = (old, True)"

fun set_string :: "json \<Rightarrow> string \<Rightarrow> string \<times> bool" where
  "set_string JNull old = (old, False)"
| "set_string (JStr s) old = (s, False)"
| "set_string _ old = (old, True)"

text \<open>
  A struct with the given field names and field setter, and a slice with the given element
  setter: an object sets the fields it names, in its order; an array overwrites the elements
  the slice has, appends to them from the zero value, and cuts off the rest.
\<close>

definition set_member ::
  "string list \<Rightarrow> (string \<Rightarrow> json \<Rightarrow> 'r \<Rightarrow> 'r \<times> bool) \<Rightarrow> 'r \<times> bool \<Rightarrow> string \<times> json \<Rightarrow> 'r \<times> bool" where
  "set_member names setter = (\<lambda>(r, bad) (k, j).
     case field_of names k of
       None \<Rightarrow> (r, bad)
     | Some n \<Rightarrow> (let (r', b) = setter n j r in (r', bad \<or> b)))"

fun set_struct ::
  "string list \<Rightarrow> (string \<Rightarrow> json \<Rightarrow> 'r \<Rightarrow> 'r \<times> bool) \<Rightarrow> json \<Rightarrow> 'r \<Rightarrow> 'r \<times> bool" where
  "set_struct names setter JNull old = (old, False)"
| "set_struct names setter (JObj ms) old = foldl (set_member names setter) (old, False) ms"
| "set_struct names setter _ old = (old, True)"

fun set_elems :: "(json \<Rightarrow> 'r \<Rightarrow> 'r \<times> bool) \<Rightarrow> 'r \<Rightarrow> json list \<Rightarrow> 'r list \<Rightarrow> 'r list \<times> bool" where
  "set_elems setter zero [] old = ([], False)"
| "set_elems setter zero (j # js) old =
     (let (r, b) = setter j (case old of [] \<Rightarrow> zero | x # _ \<Rightarrow> x);
          (rs, bad) = set_elems setter zero js (tl old) in
      (r # rs, b \<or> bad))"

fun set_slice :: "(json \<Rightarrow> 'r \<Rightarrow> 'r \<times> bool) \<Rightarrow> 'r \<Rightarrow> json \<Rightarrow> 'r list \<Rightarrow> 'r list \<times> bool" where
  "set_slice setter zero JNull old = ([], False)"
| "set_slice setter zero (JArr js) old = set_elems setter zero js old"
| "set_slice setter zero _ old = (old, True)"

text \<open>\<^verbatim>\<open>json.Unmarshal\<close> into a struct, starting from the zero value.\<close>

definition decode_struct :: "string list \<Rightarrow> (string \<Rightarrow> json \<Rightarrow> 'r \<Rightarrow> 'r \<times> bool) \<Rightarrow> 'r \<Rightarrow> json \<Rightarrow> 'r option" where
  "decode_struct names setter zero j =
     (let (r, bad) = set_struct names setter j zero in if bad then None else Some r)"

definition unmarshal :: "string list \<Rightarrow> (string \<Rightarrow> json \<Rightarrow> 'r \<Rightarrow> 'r \<times> bool) \<Rightarrow> 'r \<Rightarrow> string \<Rightarrow> 'r option" where
  "unmarshal names setter zero s =
     (case parse_json s of None \<Rightarrow> None | Some j \<Rightarrow> decode_struct names setter zero j)"

text \<open>
  \<^verbatim>\<open>json.NewDecoder(r).Decode\<close> reads one value from a stream and leaves what follows it.
  The stream is the bytes it gives, and whether it then fails (\<open>broken\<close>) or ends. An object or
  array ends at its last bracket, any other value only where the next byte, or the end of
  the stream, shows that it has.
\<close>

definition decode_stream :: "string \<Rightarrow> bool \<Rightarrow> json option" where
  "decode_stream s broken =
     (let t = skip_ws s in
      case p_value (Suc (2 * length t)) 0 t of
        None \<Rightarrow> None
      | Some (j, r) \<Rightarrow>
          (case j of JObj _ \<Rightarrow> Some j | JArr _ \<Rightarrow> Some j
           | _ \<Rightarrow> if r = [] \<and> broken then None else Some j))"

definition decode_body ::
  "string list \<Rightarrow> (string \<Rightarrow> json \<Rightarrow> 'r \<Rightarrow> 'r \<times> bool) \<Rightarrow> 'r \<Rightarrow> string \<Rightarrow> bool \<Rightarrow> 'r option" where
  "decode_body names setter zero s broken =
     (case decode_stream s broken of None \<Rightarrow> None | Some j \<Rightarrow> decode_struct names setter zero j)"

text \<open>A body behind \<^verbatim>\<open>http.MaxBytesReader\<close> fails after the first \<open>limit\<close> bytes.\<close>

definition decode_limited ::
  "nat \<Rightarrow> string list \<Rightarrow> (string \<Rightarrow> json \<Rightarrow> 'r \<Rightarrow> 'r \<times> bool) \<Rightarrow> 'r \<Rightarrow> string \<Rightarrow> 'r option" where
  "decode_limited limit names setter zero body =
     decode_body names setter zero (take limit body) (limit < length body)"

subsection \<open>Parsing what Marshal rendered\<close>

definition plain_key :: "string \<Rightarrow> bool" where
  "plain_key k \<longleftrightarrow> list_all (\<lambda>c. 32 \<le> byte c \<and> byte c < 128 \<and> c \<noteq> dquote \<and> c \<noteq> bslash) k"

text \<open>Plain keys everywhere, and nested at most \<open>d\<close> deep.\<close>

primrec plain_field :: "jfield \<Rightarrow> nat \<Rightarrow> bool" where
  "plain_field (FNum n) = (\<lambda>d. True)"
| "plain_field (FStr s) = (\<lambda>d. True)"
| "plain_field (FBool b) = (\<lambda>d. True)"
| "plain_field (FObj ms) = (\<lambda>d. 0 < d \<and>
     list_all (\<lambda>(k, ok). plain_key k \<and> ok (d - 1)) (map (map_prod id plain_field) ms))"
| "plain_field (FArr vs) = (\<lambda>d. 0 < d \<and> list_all (\<lambda>ok. ok (d - 1)) (map plain_field vs))"

lemma dec_body_plain: "plain_key k \<Longrightarrow> dec_body (k @ dquote # t) = Some (k, t)"
proof (induction k)
  case Nil
  show ?case by (subst dec_body.simps) (simp add: lit_step.simps(2))
next
  case (Cons c k)
  then have "lit_step (c # k @ dquote # t) = Some (Inr ([c], k @ dquote # t))"
    by (intro lit_step_plain) (auto simp: plain_key_def)
  with Cons show ?case by (simp add: dec_body_step plain_key_def)
qed

lemma skip_ws_Cons [simp]: "\<not> is_ws c \<Longrightarrow> skip_ws (c # r) = c # r"
  by (simp add: skip_ws_def)

lemma skip_ws_Nil [simp]: "skip_ws [] = []"
  by (simp add: skip_ws_def)

lemma length_skip_ws: "length (skip_ws s) \<le> length s"
  by (simp add: skip_ws_def length_dropWhile_le)

definition ends_number :: "string \<Rightarrow> bool" where
  "ends_number t \<longleftrightarrow> (case t of [] \<Rightarrow> True | c # _ \<Rightarrow> c = CHR '','' \<or> c = CHR ''}'' \<or> c = CHR '']'')"

lemma digits_of_dec:
  assumes "ends_number t"
  shows "digits_of (dec n @ t) = Some (dec n, t)"
proof -
  have d: "\<And>c. c \<in> set (dec n) \<Longrightarrow> is_digit c" using dec_digits by (simp add: list_all_iff)
  have "takeWhile is_digit t = [] \<and> dropWhile is_digit t = t"
    using assms by (auto simp: ends_number_def is_digit_def split: list.splits)
  then show ?thesis using d by (simp add: digits_of_def)
qed

lemma p_num_dec:
  assumes "ends_number t"
  shows "p_num (dec n @ t) = Some (JNum (dec n), t)"
proof -
  obtain c r where c: "dec n = c # r" by (cases "dec n") auto
  then have "is_digit c" using dec_digits [of n] by simp
  then have "c \<noteq> CHR ''-''" by (auto simp: is_digit_def)
  moreover have "p_int (dec n @ t) = Some (dec n, t)"
  proof (cases "c = CHR ''0''")
    case True
    with c have "n = 0" using hd_dec_zero [of n] by simp
    with c True show ?thesis by (simp add: p_int_def dec_0)
  next
    case False
    with c have "p_int (dec n @ t) = digits_of (dec n @ t)" by (simp add: p_int_def)
    then show ?thesis using digits_of_dec [OF assms] by simp
  qed
  moreover have "p_frac t = Some ([], t)" "p_exp t = Some ([], t)"
    using assms by (auto simp: ends_number_def p_frac_def p_exp_def split: list.splits)
  ultimately show ?thesis using c by (simp add: p_num_def)
qed

lemma p_value_dec:
  assumes "ends_number t"
  shows "p_value (Suc f) d (dec n @ t) = Some (JNum (dec n), t)"
proof -
  obtain c r where c: "dec n = c # r" by (cases "dec n") auto
  then have "is_digit c" using dec_digits [of n] by simp
  then have "c \<noteq> CHR ''{''" "c \<noteq> CHR ''[''" "c \<noteq> dquote" "c \<noteq> CHR ''t''" "c \<noteq> CHR ''f''" "c \<noteq> CHR ''n''"
    by (auto simp: is_digit_def)
  then have "p_value (Suc f) d (dec n @ t) = p_num (dec n @ t)" using c by simp
  then show ?thesis using p_num_dec [OF assms] by simp
qed

lemma render_field_start:
  "\<exists>c r. render_field v = c # r \<and> \<not> is_ws c \<and> c \<noteq> CHR ''}'' \<and> c \<noteq> CHR '']''"
proof (cases v)
  case (FNum n)
  obtain c r where c: "dec n = c # r" by (cases "dec n") auto
  then have "is_digit c" using dec_digits [of n] by simp
  then have "\<not> is_ws c" "c \<noteq> CHR ''}''" "c \<noteq> CHR '']''" by (auto simp: is_digit_def is_ws_def)
  with FNum c show ?thesis by simp
qed (auto simp: is_ws_def)

lemma skip_ws_field: "skip_ws (render_field v @ t) = render_field v @ t"
  using render_field_start [of v] by (auto simp: skip_ws_def)

lemma not_ws_punct [simp]:
  "\<not> is_ws (CHR '':'')" "\<not> is_ws (CHR '','')" "\<not> is_ws (CHR ''}'')" "\<not> is_ws dquote"
  "\<not> is_ws (CHR ''{'')" "\<not> is_ws (CHR '']'')" "\<not> is_ws (CHR ''['')"
  by (simp_all add: is_ws_def)

lemma p_lit_append: "p_lit x j (x @ t) = Some (j, t)"
  by (simp add: p_lit_def)

abbreviation member_field :: "string \<times> jfield \<Rightarrow> string" where
  "member_field m \<equiv> member_text (map_prod id render_field m)"

abbreviation reads_back :: "jfield \<Rightarrow> bool" where
  "reads_back v \<equiv> \<forall>f d t. ends_number t \<longrightarrow> 2 * length (render_field v) < f \<longrightarrow> plain_field v (10000 - d) \<longrightarrow>
     p_value f d (render_field v @ t) = Some (field_json v, t)"

lemma p_members_commas:
  assumes "ms \<noteq> []" and "\<forall>(k, v) \<in> set ms. reads_back v \<and> plain_key k \<and> plain_field v (10000 - d)"
    and "2 * length (commas (map member_field ms)) < f"
  shows "p_members f d (commas (map member_field ms) @ CHR ''}'' # t) =
    Some (map (map_prod id field_json) ms, t)"
  using assms
proof (induction ms arbitrary: f)
  case (Cons m ms)
  obtain k v where m: "m = (k, v)" by (cases m)
  obtain f' where f: "f = Suc f'" using Cons.prems(3) by (cases f) auto
  have v: "p_value f' d (render_field v @ u) = Some (field_json v, u)" if "ends_number u" for u
    using Cons.prems that f m by (cases ms) (auto simp: member_text_def)
  show ?case
  proof (cases "ms = []")
    case True
    have "p_value f' d (render_field v @ CHR ''}'' # t) = Some (field_json v, CHR ''}'' # t)"
      by (rule v) (simp add: ends_number_def)
    with Cons.prems(2) show ?thesis
      unfolding f m True
      by (simp add: member_text_def dec_body_plain skip_ws_field del: p_value.simps)
  next
    case False
    define rest where "rest = commas (map member_field ms) @ CHR ''}'' # t"
    have "p_members f' d rest = Some (map (map_prod id field_json) ms, t)"
      unfolding rest_def using Cons.prems False f by (intro Cons.IH) (cases ms; auto simp: member_text_def)+
    moreover have "p_value f' d (render_field v @ CHR '','' # rest) = Some (field_json v, CHR '','' # rest)"
      by (rule v) (simp add: ends_number_def)
    moreover have "skip_ws rest = rest"
      using False unfolding rest_def by (cases ms; cases "tl ms") (auto simp: member_text_def)
    moreover have whole: "commas (map member_field (m # ms)) @ CHR ''}'' # t =
        dquote # k @ dquote # CHR '':'' # render_field v @ CHR '','' # rest"
      using False m unfolding rest_def by (cases ms) (auto simp: member_text_def)
    moreover have "plain_key k" using Cons.prems(2) m by simp
    ultimately have "p_members f d (dquote # k @ dquote # CHR '':'' # render_field v @ CHR '','' # rest) =
        Some ((k, field_json v) # map (map_prod id field_json) ms, t)"
      unfolding f by (simp add: dec_body_plain skip_ws_field del: p_value.simps)
    then show ?thesis unfolding whole by (simp add: m id_def)
  qed
qed simp

lemma p_elems_commas:
  assumes "vs \<noteq> []" and "\<forall>v \<in> set vs. reads_back v \<and> plain_field v (10000 - d)"
    and "2 * length (commas (map render_field vs)) + 1 < f"
  shows "p_elems f d (commas (map render_field vs) @ CHR '']'' # t) = Some (map field_json vs, t)"
  using assms
proof (induction vs arbitrary: f)
  case (Cons v vs)
  obtain f' where f: "f = Suc f'" using Cons.prems(3) by (cases f) auto
  have v: "p_value f' d (render_field v @ u) = Some (field_json v, u)" if "ends_number u" for u
    using Cons.prems that f by (cases vs) auto
  show ?case
  proof (cases "vs = []")
    case True
    have "p_value f' d (render_field v @ CHR '']'' # t) = Some (field_json v, CHR '']'' # t)"
      by (rule v) (simp add: ends_number_def)
    then show ?thesis unfolding f True by (simp del: p_value.simps)
  next
    case False
    let ?rest = "commas (map render_field vs) @ CHR '']'' # t"
    have "p_elems f' d ?rest = Some (map field_json vs, t)"
      using Cons.prems False f by (intro Cons.IH) (cases vs; auto)+
    moreover have "p_value f' d (render_field v @ CHR '','' # ?rest) = Some (field_json v, CHR '','' # ?rest)"
      by (rule v) (simp add: ends_number_def)
    moreover have "skip_ws ?rest = ?rest"
      using False by (cases vs; cases "tl vs") (simp_all add: skip_ws_field)
    moreover have "commas (map render_field (v # vs)) = render_field v @ CHR '','' # commas (map render_field vs)"
      using False by (cases vs) auto
    ultimately show ?thesis
      unfolding f by (simp del: p_value.simps)
  qed
qed simp

lemma p_value_field: "reads_back v"
proof (induction v)
  case (FNum n)
  show ?case
  proof (intro allI impI)
    fix f d t
    assume "ends_number t" "2 * length (render_field (FNum n)) < f"
    then show "p_value f d (render_field (FNum n) @ t) = Some (field_json (FNum n), t)"
      using p_value_dec [of t "f - 1" d n] by (cases f) (simp_all del: p_value.simps)
  qed
next
  case (FStr s)
  show ?case
  proof (intro allI impI)
    fix f d t
    assume "2 * length (render_field (FStr s)) < f"
    then show "p_value f d (render_field (FStr s) @ t) = Some (field_json (FStr s), t)"
      by (cases f) (simp_all add: dec_enc_body)
  qed
next
  case (FBool b)
  show ?case
  proof (intro allI impI)
    fix f d t
    assume "2 * length (render_field (FBool b)) < f"
    then show "p_value f d (render_field (FBool b) @ t) = Some (field_json (FBool b), t)"
      using p_lit_append [of "''true''" "JBool True" t] p_lit_append [of "''false''" "JBool False" t]
      by (cases f) auto
  qed
next
  case (FObj ms)
  show ?case
  proof (intro allI impI)
    fix f d t
    assume a: "2 * length (render_field (FObj ms)) < f" "plain_field (FObj ms) (10000 - d)"
    then obtain f' where f: "f = Suc f'" by (cases f) auto
    let ?rest = "commas (map member_field ms) @ CHR ''}'' # t"
    show "p_value f d (render_field (FObj ms) @ t) = Some (field_json (FObj ms), t)"
    proof (cases "ms = []")
      case True
      with a f show ?thesis by simp
    next
      case False
      have v: "reads_back v" if "(k, v) \<in> set ms" for k v
        using FObj.IH that by (metis snds.intros snd_conv)
      have "p_members f' (Suc d) ?rest = Some (map (map_prod id field_json) ms, t)"
        using a f v by (intro p_members_commas [OF False]) (auto simp: list_all_iff o_def)
      moreover have "skip_ws ?rest = ?rest" "?rest \<noteq> []" "hd ?rest = dquote"
        using False by (cases ms; cases "tl ms"; auto simp: member_text_def)+
      ultimately show ?thesis using a unfolding f
        by (cases ?rest) (simp_all add: o_def)
    qed
  qed
next
  case (FArr vs)
  show ?case
  proof (intro allI impI)
    fix f d t
    assume a: "2 * length (render_field (FArr vs)) < f" "plain_field (FArr vs) (10000 - d)"
    then obtain f' where f: "f = Suc f'" by (cases f) auto
    let ?rest = "commas (map render_field vs) @ CHR '']'' # t"
    show "p_value f d (render_field (FArr vs) @ t) = Some (field_json (FArr vs), t)"
    proof (cases "vs = []")
      case True
      with a f show ?thesis by simp
    next
      case False
      have "p_elems f' (Suc d) ?rest = Some (map field_json vs, t)"
        using a f FArr.IH by (intro p_elems_commas [OF False]) (auto simp: list_all_iff)
      moreover obtain c r where "render_field (hd vs) = c # r" "\<not> is_ws c" "c \<noteq> CHR '']''"
        using render_field_start by metis
      then obtain r' where "?rest = c # r'" and "\<not> is_ws c" "c \<noteq> CHR '']''"
        using False by (cases vs; cases "tl vs") auto
      ultimately show ?thesis using a unfolding f by simp
    qed
  qed
qed

theorem parse_render_obj:
  assumes "plain_field (FObj ms) 10000"
  shows "parse_json (render_obj ms) = Some (field_json (FObj ms))"
proof -
  let ?s = "render_field (FObj ms)"
  have "p_value (Suc (2 * length ?s)) 0 (?s @ []) = Some (field_json (FObj ms), [])"
    by (rule p_value_field [rule_format]) (use assms in \<open>simp_all add: ends_number_def\<close>)
  then show ?thesis
    using skip_ws_field [of "FObj ms" "[]"]
    by (simp add: parse_json_def render_obj_def Let_def del: render_field.simps p_value.simps)
qed

subsection \<open>The fuel is enough\<close>

lemma digits_of_length: "digits_of s = Some (x, r) \<Longrightarrow> length r < length s"
  by (induction s arbitrary: x r)
     (auto simp: digits_of_def Let_def length_dropWhile_le less_Suc_eq_le split: if_splits)

lemma p_int_length: "p_int s = Some (x, r) \<Longrightarrow> length r < length s"
  by (auto simp: p_int_def split: list.splits if_splits dest!: digits_of_length)

lemma p_frac_length: "p_frac s = Some (x, r) \<Longrightarrow> length r \<le> length s"
  by (auto simp: p_frac_def split: list.splits if_splits dest!: digits_of_length)

lemma p_exp_length: "p_exp s = Some (x, r) \<Longrightarrow> length r \<le> length s"
  by (auto simp: p_exp_def split: list.splits if_splits dest!: digits_of_length)

lemma p_num_length: "p_num s = Some (j, r) \<Longrightarrow> length r < length s"
  by (auto simp: p_num_def Let_def split: list.splits option.splits if_splits
        dest!: p_int_length p_frac_length p_exp_length)

lemma p_lit_length: "p_lit w j s = Some (x, r) \<Longrightarrow> w \<noteq> [] \<Longrightarrow> length r < length s"
  by (cases s) (auto simp: p_lit_def split: if_splits)

lemma skip_ws_eq_length: "skip_ws s = c # r \<Longrightarrow> length r < length s"
  using length_skip_ws [of s] by simp

lemmas p_rest_lengths = p_num_length p_lit_length dec_body_length skip_ws_eq_length

lemma p_length:
  shows "p_value f d s = Some (j, r) \<Longrightarrow> length r < length s"
    and "p_members f d s = Some (ms, r) \<Longrightarrow> length r < length s"
    and "p_elems f d s = Some (es, r) \<Longrightarrow> length r < length s"
proof (induction f arbitrary: d s j r ms es)
  case (Suc f)
  have ws: "length x < length (skip_ws s) \<Longrightarrow> length x < length s" for x s :: string
    using length_skip_ws [of s] by simp
  note IH = Suc.IH(1) [THEN ws] Suc.IH(2) [THEN ws] Suc.IH(3) [THEN ws]
  {
    case 1
    then show ?case
      by (auto split: list.splits if_splits option.splits dest!: p_rest_lengths
            dest: Suc.IH)
  next
    case 2
    then show ?case
      by (auto split: list.splits if_splits option.splits dest!: p_rest_lengths IH)
  next
    case 3
    then show ?case
      by (auto split: list.splits if_splits option.splits
            dest!: p_rest_lengths Suc.IH(1) IH(3))
  }
qed simp_all

lemma p_fuel_Suc:
  shows "2 * length s < f \<Longrightarrow> p_value (Suc f) d s = p_value f d s"
    and "2 * length s < f \<Longrightarrow> p_members (Suc f) d s = p_members f d s"
    and "2 * length s + 1 < f \<Longrightarrow> p_elems (Suc f) d s = p_elems f d s"
proof (induction f arbitrary: d s)
  case (Suc f)
  have ws: "length (skip_ws x) \<le> length x" for x by (rule length_skip_ws)
  {
    case 1
    show ?case
    proof (cases s)
      case (Cons c r)
      have "p_members (Suc f) d' (c' # r') = p_members f d' (c' # r')"
        and "p_elems (Suc f) d' (c' # r') = p_elems f d' (c' # r')"
        if "skip_ws r = c' # r'" for d' c' r'
        using that ws [of r] 1 Cons by (intro Suc.IH; simp)+
      then show ?thesis
        by (subst (1 2) p_value.simps(2))
           (auto simp: Cons simp del: p_members.simps p_elems.simps split: list.split)
    qed simp
  next
    case 2
    show ?case
    proof (cases s)
      case (Cons c r)
      have v: "p_value (Suc f) d (skip_ws t1) = p_value f d (skip_ws t1)"
        if "dec_body r = Some (k, t)" "skip_ws t = c1 # t1" for k t c1 t1
        using dec_body_length [OF that(1)] skip_ws_eq_length [OF that(2)] ws [of t1] 2 Cons
        by (intro Suc.IH) simp
      have m: "p_members (Suc f) d (skip_ws t3) = p_members f d (skip_ws t3)"
        if "dec_body r = Some (k, t)" "skip_ws t = c1 # t1"
          "p_value f d (skip_ws t1) = Some (v, t2)" "skip_ws t2 = c3 # t3" for k t c1 t1 v t2 c3 t3
        using dec_body_length [OF that(1)] skip_ws_eq_length [OF that(2)] p_length(1) [OF that(3)]
          skip_ws_eq_length [OF that(4)] ws [of t1] ws [of t3] 2 Cons
        by (intro Suc.IH) simp
      show ?thesis
        by (subst (1 2) p_members.simps(2))
           (auto simp: Cons v m simp del: p_value.simps p_members.simps
              split: list.split option.split)
    qed simp
  next
    case 3
    have v: "p_value (Suc f) d s = p_value f d s" using 3 by (intro Suc.IH) simp
    have e: "p_elems (Suc f) d (skip_ws t3) = p_elems f d (skip_ws t3)"
      if "p_value f d s = Some (v, t2)" "skip_ws t2 = c3 # t3" for v t2 c3 t3
      using p_length(1) [OF that(1)] skip_ws_eq_length [OF that(2)] ws [of t3] 3
      by (intro Suc.IH) simp
    show ?case
      by (subst (1 2) p_elems.simps(2))
         (auto simp: v e simp del: p_value.simps p_elems.simps split: list.split option.split)
  }
qed simp_all

text \<open>More fuel than \<^const>\<open>parse_json\<close> gives changes nothing.\<close>

theorem p_fuel: "p_value (Suc (2 * length s) + k) d s = p_value (Suc (2 * length s)) d s"
  by (induction k) (simp_all add: p_fuel_Suc del: p_value.simps)

subsection \<open>Reading a struct back\<close>

text \<open>
  On exactly the names of the struct, decoding a rendered struct folds the setter over the
  fields in order.
\<close>

definition sets_fields :: "(string \<Rightarrow> json \<Rightarrow> 'r \<Rightarrow> 'r \<times> bool) \<Rightarrow> (string \<times> jfield) list \<Rightarrow> 'r \<times> bool \<Rightarrow> 'r \<times> bool" where
  "sets_fields setter ms a = foldl (\<lambda>(r, bad) (k, v).
     let (r', b) = setter k (field_json v) r in (r', bad \<or> b)) a ms"

lemma sets_fields_simps [simp]:
  "sets_fields setter [] a = a"
  "sets_fields setter ((k, v) # ms) (r, bad) =
     (case setter k (field_json v) r of (r', b) \<Rightarrow> sets_fields setter ms (r', bad \<or> b))"
  "sets_fields setter (ms @ ns) a = sets_fields setter ns (sets_fields setter ms a)"
  "sets_fields setter (if c then ms else ns) a = (if c then sets_fields setter ms a else sets_fields setter ns a)"
  by (simp_all add: sets_fields_def split: prod.split)

lemma set_struct_rendered:
  assumes "\<forall>(k, v) \<in> set ms. k \<in> set names"
  shows "set_struct names setter (field_json (FObj ms)) old = sets_fields setter ms (old, False)"
proof -
  have "foldl (set_member names setter) a (map (map_prod id field_json) ms) = sets_fields setter ms a" for a
    using assms by (induction ms arbitrary: a) (auto simp: sets_fields_def set_member_def field_of_def)
  then show ?thesis by simp
qed

lemma unmarshal_render_obj:
  assumes "\<forall>(k, v) \<in> set ms. k \<in> set names" and "plain_field (FObj ms) 10000"
  shows "unmarshal names setter zero (render_obj ms) =
    (let (r, bad) = sets_fields setter ms (zero, False) in if bad then None else Some r)"
  using set_struct_rendered [OF assms(1), of setter zero]
  by (simp add: unmarshal_def decode_struct_def parse_render_obj [OF assms(2)] del: field_json.simps)

lemma set_elems_rendered:
  assumes "\<forall>v \<in> set vs. setter (field_json v) zero = (g v, False)"
  shows "set_elems setter zero (map field_json vs) [] = (map g vs, False)"
  using assms by (induction vs) simp_all

lemma parse_uint_dec_u64 [simp]: "parse_uint (dec (unat (w :: u64))) = Some (unat w)"
  using unsigned_less [where ?'a = nat and w = w]
  by (simp add: parse_uint_dec)

end
