(* ===== verification/Go_Json_Stream.thy ===== *)
theory Go_Json_Stream
  imports Go_Json
begin

text \<open>
  Reading JSON off a stream: what the parser has accepted it accepts with anything after it,
  so an object has exactly one end, a rendered message is read back whole, and one that is
  cut short anywhere is not a message.
\<close>

subsection \<open>More input changes nothing\<close>

lemma rune_len_zero_more:
  assumes "rune_len (c # r) = 0" and "dquote \<in> set r"
  shows "rune_len (c # r @ t) = 0"
proof (rule ccontr)
  assume no: "rune_len (c # r @ t) \<noteq> 0"
  note [simp] = rune_len.simps(2)
  obtain n lo hi where n: "rune_need (byte c) = (n, lo, hi)" by (cases "rune_need (byte c)")
  have pos: "n \<noteq> 0"
  proof
    assume "n = 0"
    with n have "rune_len (c # r @ t) = 0" by simp
    with no show False by simp
  qed
  have "n \<noteq> 1" using assms(1) n by auto
  with pos rune_need_cases [OF n] have lo: "2 \<le> n" "128 \<le> lo" by auto
  have short: "length r < n - 1"
  proof (rule ccontr)
    assume "\<not> length r < n - 1"
    with lo obtain y r' where "r = y # r'" "n - 2 \<le> length r'" by (cases r) auto
    then have "hd (r @ t) = hd r" "take (n - 2) (tl (r @ t)) = take (n - 2) (tl r)"
      by simp_all
    with assms(1) no n \<open>\<not> length r < n - 1\<close> show False by (simp split: if_splits)
  qed
  have ok: "within lo hi (hd (r @ t))" "list_all (within 0x80 0xBF) (take (n - 2) (tl (r @ t)))"
    using no n lo by (auto simp: Let_def split: if_splits)
  from assms(2) have ne: "r \<noteq> []" by auto
  with ok(1) lo have h: "128 \<le> byte (hd r)" by (auto simp: within_def)
  have "take (n - 2) (tl (r @ t)) = tl r @ take (n - 2 - length (tl r)) t"
    using ne short by simp
  with ok(2) have "list_all (within 0x80 0xBF) (tl r)" by simp
  with h have "\<forall>x \<in> set (hd r # tl r). 128 \<le> byte x" by (auto simp: list_all_iff within_def)
  with ne assms(2) show False by auto
qed

lemma rune_len_more: "rune_len s \<noteq> 0 \<Longrightarrow> rune_len (s @ t) = rune_len s"
  using rune_len_append [of s "drop (rune_len s) s @ t"] by (simp flip: append_assoc)

lemma hex4_more: "hex4 s = Some (n, r) \<Longrightarrow> hex4 (s @ t) = Some (n, r @ t)"
  by (cases s rule: hex4.cases) (auto split: option.splits)

lemma hexval_dquote: "hexval dquote = None"
  by (simp add: hexval_def)

lemma hex4_more_None:
  assumes "hex4 s = None" and "dquote \<in> set s"
  shows "hex4 (s @ t) = None"
  using assms by (cases s rule: hex4.cases; cases t; cases "tl t"; cases "tl (tl t)")
    (auto simp: hexval_dquote split: option.splits)

lemma hex4_set: "hex4 s = Some (n, r) \<Longrightarrow> set r \<subseteq> set s"
  by (cases s rule: hex4.cases) (auto split: option.splits)

lemma dec_u_more:
  assumes run: "dec_u n s = (x, r)" and q: "dquote \<in> set r"
  shows "dec_u n (s @ t) = (x, r @ t)"
proof (cases "0xD800 \<le> n \<and> n < 0xE000")
  case True
  show ?thesis
  proof (cases s rule: list.exhaust [case_names Nil Cons])
    case Nil
    with run q True show ?thesis by (auto simp: dec_u_def)
  next
    case (Cons e s1)
    show ?thesis
    proof (cases s1)
      case Nil
      with run q True Cons show ?thesis by (cases t) (auto simp: dec_u_def)
    next
      case s1: (Cons u s2)
      show ?thesis
      proof (cases "hex4 s2")
        case None
        with run True Cons s1 have "r = s \<and> x = ufffd"
          by (auto simp: dec_u_def split: if_splits)
        moreover from this q Cons s1 have "e = bslash \<and> u = CHR ''u'' \<longrightarrow> hex4 (s2 @ t) = None"
          using hex4_more_None [OF None] by auto
        ultimately show ?thesis using True Cons s1 by (auto simp: dec_u_def)
      next
        case (Some y)
        obtain m s3 where y: "y = (m, s3)" by (cases y)
        with Some hex4_more [of s2 m s3 t] run True Cons s1 show ?thesis
          by (auto simp: dec_u_def split: if_splits)
      qed
    qed
  qed
qed (use run in \<open>auto simp: dec_u_def\<close>)

lemma dec_u_set: "dec_u n s = (x, r) \<Longrightarrow> set r \<subseteq> set s"
  by (auto simp: dec_u_def split: if_splits list.splits option.splits dest!: hex4_set)

lemma lit_step_Inl_more: "lit_step s = Some (Inl r) \<Longrightarrow> lit_step (s @ t) = Some (Inl (r @ t))"
  by (cases s) (auto simp: lit_step.simps(2) split: if_splits list.splits option.splits)

lemma lit_step_escape:
  "lit_step (bslash # e # s) =
     (case simple_escape e of
        Some x \<Rightarrow> Some (Inr ([x], s))
      | None \<Rightarrow> if e = CHR ''u'' then map_option (\<lambda>(n, r). Inr (dec_u n r)) (hex4 s) else None)"
  by (simp add: lit_step.simps(2))

lemma lit_step_no_escape:
  "c \<noteq> bslash \<Longrightarrow> lit_step (c # s) = Some (Inr (x, r)) \<longleftrightarrow>
     c \<noteq> dquote \<and> \<not> byte c < 32 \<and> (x, r) = (if rune_len (c # s) = 0 then (ufffd, s)
       else (take (rune_len (c # s)) (c # s), drop (rune_len (c # s)) (c # s)))"
  by (auto simp: lit_step.simps(2))

lemma lit_step_bslash: "lit_step (bslash # s) = Some y \<Longrightarrow> \<exists>e s'. s = e # s'"
  by (auto simp: lit_step.simps(2) split: list.splits)

lemma lit_step_set:
  assumes run: "lit_step s = Some (Inr (x, r))"
  shows "set r \<subseteq> set s"
proof (cases s)
  case (Cons c s')
  show ?thesis
  proof (cases "c = bslash")
    case True
    with run Cons obtain e s2 where s': "s' = e # s2" using lit_step_bslash by blast
    have "set r \<subseteq> set s2"
      using run unfolding Cons s' True lit_step_escape
      by (auto split: option.splits if_splits dest!: hex4_set dec_u_set)
    with Cons s' show ?thesis by auto
  next
    case False
    with run Cons have "r = s' \<or> r = drop (rune_len s) s"
      by (auto simp: lit_step_no_escape split: if_splits)
    with Cons show ?thesis using set_drop_subset [of "rune_len s" s] by auto
  qed
qed (use run in simp)

lemma lit_step_Inl_quote: "lit_step s = Some (Inl r) \<Longrightarrow> dquote \<in> set s"
  by (cases s) (auto simp: lit_step.simps(2) split: if_splits list.splits option.splits)

lemma lit_step_Inr_more:
  assumes run: "lit_step s = Some (Inr (x, r))" and q: "dquote \<in> set r"
  shows "lit_step (s @ t) = Some (Inr (x, r @ t))"
proof (cases s)
  case (Cons c s')
  show ?thesis
  proof (cases "c = bslash")
    case True
    with run Cons obtain e s2 where s': "s' = e # s2" using lit_step_bslash by blast
    have esc: "lit_step (bslash # e # s2) = Some (Inr (x, r))" using run Cons s' True by simp
    have "lit_step (bslash # e # s2 @ t) = Some (Inr (x, r @ t))"
    proof (cases "simple_escape e")
      case None
      with esc obtain n s3 where u: "e = CHR ''u''" "hex4 s2 = Some (n, s3)" "dec_u n s3 = (x, r)"
        by (auto simp: lit_step_escape split: if_splits)
      with None hex4_more [OF u(2), of t] dec_u_more [OF u(3) q, of t] show ?thesis
        by (simp add: lit_step_escape)
    next
      case (Some y)
      with esc show ?thesis by (simp add: lit_step_escape)
    qed
    with Cons s' True show ?thesis by simp
  next
    case False
    note no = run [unfolded Cons lit_step_no_escape [OF False]]
    show ?thesis
    proof (cases "rune_len s = 0")
      case True
      with no Cons have "x = ufffd" "r = s'" by auto
      with rune_len_zero_more [of c s' t] True no q False Cons show ?thesis
        by (simp add: lit_step_no_escape)
    next
      case nz: False
      have st: "s @ t = c # (s' @ t)" using Cons by simp
      have k: "rune_len (c # (s' @ t)) = rune_len s" "rune_len s \<le> length s"
        using rune_len_more [OF nz, of t] st Cons rune_len_le [of s] by simp_all
      have c: "c \<noteq> dquote \<and> \<not> byte c < 32" and x: "x = take (rune_len s) s" "r = drop (rune_len s) s"
        using no nz Cons by auto
      have "take (rune_len s) (c # (s' @ t)) = x" "drop (rune_len s) (c # (s' @ t)) = r @ t"
        unfolding st [symmetric] x using k(2) by simp_all
      then show ?thesis
        unfolding st lit_step_no_escape [OF False] k(1) using nz c by simp
    qed
  qed
qed (use run in simp)

lemma dec_body_quote: "dec_body s = Some (x, r) \<Longrightarrow> dquote \<in> set s"
proof (induction s arbitrary: x r rule: dec_body.induct)
  case (1 s)
  from "1.prems" show ?case
    by (subst (asm) dec_body.simps)
       (auto split: option.splits sum.splits prod.splits dest: lit_step_Inl_quote lit_step_set "1.IH")
qed

lemma dec_body_more: "dec_body s = Some (x, r) \<Longrightarrow> dec_body (s @ t) = Some (x, r @ t)"
proof (induction s arbitrary: x r rule: dec_body.induct)
  case (1 s)
  show ?case
  proof (cases "lit_step s")
    case None
    with "1.prems" show ?thesis by (subst (asm) dec_body.simps) simp
  next
    case (Some y)
    show ?thesis
    proof (cases y)
      case (Inl r')
      with Some "1.prems" lit_step_Inl_more [of s r' t] show ?thesis
        by (subst (asm) dec_body.simps, subst dec_body.simps) simp
    next
      case (Inr z)
      obtain u r' where z: "z = (u, r')" by (cases z)
      with Some Inr "1.prems" obtain y where y: "dec_body r' = Some (y, r)" "x = u @ y"
        by (subst (asm) (2) dec_body.simps) auto
      have "lit_step (s @ t) = Some (Inr (u, r' @ t))"
        using lit_step_Inr_more [of s u r' t] Some Inr z dec_body_quote [OF y(1)] by simp
      moreover have "dec_body (r' @ t) = Some (y, r @ t)"
        using "1.IH" Some Inr z y(1) by simp
      ultimately show ?thesis using y(2) by (subst dec_body.simps) simp
    qed
  qed
qed

subsection \<open>The parser\<close>

lemma digits_of_more: "digits_of s = Some (d, r) \<Longrightarrow> r \<noteq> [] \<Longrightarrow> digits_of (s @ t) = Some (d, r @ t)"
proof -
  assume a: "digits_of s = Some (d, r)" "r \<noteq> []"
  then have "d = takeWhile is_digit s" "r = dropWhile is_digit s" "d \<noteq> []"
    by (auto simp: digits_of_def Let_def split: if_splits)
  moreover from this a(2) have "takeWhile is_digit (s @ t) = takeWhile is_digit s"
    "dropWhile is_digit (s @ t) = dropWhile is_digit s @ t"
    using dropWhile_eq_Nil_conv [of is_digit s] by (auto simp: takeWhile_append dropWhile_append)
  ultimately show ?thesis by (simp add: digits_of_def)
qed

lemma digits_of_Cons_more:
  "digits_of (c # s) = Some (d, r) \<Longrightarrow> r \<noteq> [] \<Longrightarrow> digits_of (c # s @ t) = Some (d, r @ t)"
  using digits_of_more [of "c # s"] by simp

lemma p_int_more: "p_int s = Some (d, r) \<Longrightarrow> r \<noteq> [] \<Longrightarrow> p_int (s @ t) = Some (d, r @ t)"
  by (cases s) (auto simp: p_int_def digits_of_Cons_more split: if_splits)

lemma p_frac_more: "p_frac s = Some (d, r) \<Longrightarrow> r \<noteq> [] \<Longrightarrow> p_frac (s @ t) = Some (d, r @ t)"
  using digits_of_more by (cases s) (auto simp: p_frac_def split: if_splits)

lemma p_exp_more: "p_exp s = Some (d, r) \<Longrightarrow> r \<noteq> [] \<Longrightarrow> p_exp (s @ t) = Some (d, r @ t)"
  by (cases s; cases "tl s") (auto simp: p_exp_def digits_of_more digits_of_Cons_more split: if_splits)

lemma p_exp_rest: "p_exp s = Some (d, r) \<Longrightarrow> r \<noteq> [] \<Longrightarrow> s \<noteq> []"
  and p_frac_rest: "p_frac s = Some (d, r) \<Longrightarrow> r \<noteq> [] \<Longrightarrow> s \<noteq> []"
  by (auto simp: p_exp_def p_frac_def)

lemma p_num_more:
  assumes "p_num s = Some (j, r)" and r: "r \<noteq> []"
  shows "p_num (s @ t) = Some (j, r @ t)"
proof -
  obtain m s0 where m: "(case s of c # r \<Rightarrow> if c = CHR ''-'' then ([c], r) else ([], s) | [] \<Rightarrow> ([], [])) = (m, s0)"
    by fastforce
  obtain i s1 f s2 e where p: "p_int s0 = Some (i, s1)" "p_frac s1 = Some (f, s2)" "p_exp s2 = Some (e, r)"
      "j = JNum (m @ i @ f @ e)"
    using assms(1) m by (auto simp: p_num_def split: option.splits)
  note ne = p_exp_rest [OF p(3) r] p_frac_rest [OF p(2) p_exp_rest [OF p(3) r]]
  have "s \<noteq> []" using m p(1) by (auto simp: p_int_def)
  then have "(case s @ t of c # r \<Rightarrow> if c = CHR ''-'' then ([c], r) else ([], s @ t) | [] \<Rightarrow> ([], [])) = (m, s0 @ t)"
    using m by (cases s) (auto split: if_splits)
  with p_int_more [OF p(1) ne(2)] p_frac_more [OF p(2) ne(1)] p_exp_more [OF p(3) r] p(4)
  show ?thesis by (simp add: p_num_def)
qed

lemma p_lit_more: "p_lit x j s = Some (y, r) \<Longrightarrow> p_lit x j (s @ t) = Some (y, r @ t)"
proof -
  assume a: "p_lit x j s = Some (y, r)"
  then have "take (length x) s = x" "y = j" "r = drop (length x) s" by (auto simp: p_lit_def split: if_splits)
  moreover from this(1) have "length x \<le> length s" by (metis length_take min.cobounded1)
  ultimately show ?thesis by (simp add: p_lit_def)
qed

lemma skip_ws_more: "skip_ws s = c # r \<Longrightarrow> skip_ws (s @ t) = c # r @ t"
proof -
  assume a: "skip_ws s = c # r"
  then have "\<exists>x \<in> set s. \<not> is_ws x"
    using dropWhile_eq_Nil_conv [of is_ws s] by (auto simp: skip_ws_def)
  then have "skip_ws (s @ t) = skip_ws s @ t" by (auto simp: skip_ws_def dropWhile_append)
  with a show ?thesis by simp
qed

text \<open>A bracketed value ends where its bracket closes; any other where something follows.\<close>

definition bracketed :: "string \<Rightarrow> bool" where
  "bracketed s \<longleftrightarrow> s \<noteq> [] \<and> (hd s = CHR ''{'' \<or> hd s = CHR ''['')"

lemma p_value_Nil [simp]: "p_value f d [] = None"
  by (cases f) simp_all

lemma p_value_skip: "p_value f d (skip_ws s) = Some y \<Longrightarrow> skip_ws (s @ t) = skip_ws s @ t"
  using skip_ws_more [of s] by (cases "skip_ws s") auto

lemma p_more:
  shows "p_value f d s = Some (j, r) \<Longrightarrow> r \<noteq> [] \<or> bracketed s \<Longrightarrow> p_value f d (s @ t) = Some (j, r @ t)"
    and "p_members f d s = Some (ms, r) \<Longrightarrow> p_members f d (s @ t) = Some (ms, r @ t)"
    and "p_elems f d s = Some (es, r) \<Longrightarrow> p_elems f d (s @ t) = Some (es, r @ t)"
proof (induction f arbitrary: d s j r ms es)
  case (Suc f)
  {
    case 1
    then obtain c s' where s: "s = c # s'" by (cases s) auto
    show ?case
    proof (cases "c = CHR ''{'' \<or> c = CHR ''[''")
      case True
      with 1(1) s obtain c2 s2 where w: "skip_ws s' = c2 # s2"
        by (auto split: list.splits if_splits)
      have m: "p_members f (Suc d) (c2 # s2) = Some (ms, r) \<Longrightarrow> p_members f (Suc d) (c2 # s2 @ t) = Some (ms, r @ t)"
        and e: "p_elems f (Suc d) (c2 # s2) = Some (es, r) \<Longrightarrow> p_elems f (Suc d) (c2 # s2 @ t) = Some (es, r @ t)"
        for ms es using Suc.IH(2,3) [of "Suc d" "c2 # s2"] by auto
      show ?thesis
        using 1(1) True s w skip_ws_more [OF w, of t] m e
        by (auto split: if_splits)
    next
      case False
      with 1(2) s have r: "r \<noteq> []" by (auto simp: bracketed_def)
      with 1(1) s False dec_body_more [of s' _ r t] p_lit_more [of _ _ s j r t] p_num_more [of s j r t]
      show ?thesis by (auto split: if_splits)
    qed
  next
    case 2
    then obtain k u u1 v t2 c3 t3 where q: "s = dquote # tl s" "dec_body (tl s) = Some (k, u)"
        "skip_ws u = CHR '':'' # u1" "p_value f d (skip_ws u1) = Some (v, t2)" "skip_ws t2 = c3 # t3"
        "c3 = CHR ''}'' \<and> ms = [(k, v)] \<and> r = t3 \<or>
         c3 = CHR '','' \<and> (\<exists>ms'. ms = (k, v) # ms' \<and> p_members f d (skip_ws t3) = Some (ms', r))"
      by (cases s) (auto split: option.splits list.splits if_splits)
    have t2: "t2 \<noteq> []" using q(5) by auto
    have v: "p_value f d (skip_ws (u1 @ t)) = Some (v, t2 @ t)"
      using Suc.IH(1) [OF q(4)] t2 p_value_skip [OF q(4), of t] by simp
    have st: "s @ t = dquote # (tl s @ t)" using q(1) by (metis append_Cons)
    have ms: "p_members f d (skip_ws (t3 @ t)) = Some (ms', r @ t)"
      if "p_members f d (skip_ws t3) = Some (ms', r)" for ms'
    proof -
      have "skip_ws t3 \<noteq> []" using that by (cases f) auto
      then have "skip_ws (t3 @ t) = skip_ws t3 @ t"
        using skip_ws_more [of t3] by (cases "skip_ws t3") auto
      with Suc.IH(2) [OF that] show ?thesis by simp
    qed
    show ?case
      unfolding st
      using q(6) dec_body_more [OF q(2), of t] skip_ws_more [OF q(3), of t] v skip_ws_more [OF q(5), of t] ms
      by (auto simp del: p_value.simps)
  next
    case 3
    then obtain v t2 c3 t3 where q: "p_value f d s = Some (v, t2)" "skip_ws t2 = c3 # t3"
        "c3 = CHR '']'' \<and> es = [v] \<and> r = t3 \<or>
         c3 = CHR '','' \<and> (\<exists>es'. es = v # es' \<and> p_elems f d (skip_ws t3) = Some (es', r))"
      by (auto split: option.splits list.splits if_splits)
    have t2: "t2 \<noteq> []" using q(2) by auto
    have es: "p_elems f d (skip_ws (t3 @ t)) = Some (es', r @ t)"
      if "p_elems f d (skip_ws t3) = Some (es', r)" for es'
    proof -
      have "skip_ws t3 \<noteq> []" using that by (cases f) auto
      then have "skip_ws (t3 @ t) = skip_ws t3 @ t"
        using skip_ws_more [of t3] by (cases "skip_ws t3") auto
      with Suc.IH(3) [OF that] show ?thesis by simp
    qed
    show ?case
      using q(3) Suc.IH(1) [OF q(1)] t2 skip_ws_more [OF q(2), of t] es
      by (auto simp del: p_value.simps)
  }
qed simp_all

subsection \<open>Reading a rendered struct\<close>

lemma render_obj_bracketed: "bracketed (render_obj ms)" "skip_ws (render_obj ms @ t) = render_obj ms @ t"
  using skip_ws_field [of "FObj ms" t] by (simp_all add: bracketed_def render_obj_def)

lemma p_value_render_obj:
  assumes "plain_field (FObj ms) 10000" and "2 * length (render_obj ms) < f"
  shows "p_value f 0 (render_obj ms @ t) = Some (field_json (FObj ms), t)"
proof -
  have "p_value f 0 (render_field (FObj ms) @ []) = Some (field_json (FObj ms), [])"
    by (rule p_value_field [rule_format])
       (use assms in \<open>simp_all add: ends_number_def render_obj_def\<close>)
  then show ?thesis
    using p_more(1) [of f 0 "render_obj ms" _ "[]" t] render_obj_bracketed(1) [of ms]
    by (simp add: render_obj_def)
qed

lemma decode_stream_rendered:
  assumes "plain_field (FObj ms) 10000"
  shows "decode_stream (render_obj ms @ t) broken = Some (field_json (FObj ms))"
  using p_value_render_obj [OF assms, of "Suc (2 * length (render_obj ms @ t))" t]
  by (simp add: decode_stream_def render_obj_bracketed Let_def del: p_value.simps)

text \<open>A proper beginning of a rendered struct is not a JSON value.\<close>

lemma decode_stream_cut:
  assumes plain: "plain_field (FObj ms) 10000" and k: "k < length (render_obj ms)"
  shows "decode_stream (take k (render_obj ms)) broken = None"
proof (cases "k = 0")
  case True
  then show ?thesis by (simp add: decode_stream_def)
next
  case False
  let ?s = "render_obj ms" and ?q = "take k (render_obj ms)" and ?f = "Suc (2 * length (render_obj ms))"
  have b: "bracketed ?q" using False render_obj_bracketed(1) [of ms] by (cases ?s) (auto simp: bracketed_def take_Cons')
  have ws: "skip_ws ?q = ?q"
    using b by (cases ?q) (auto simp: bracketed_def skip_ws_def is_ws_def)
  have "p_value (Suc (2 * length ?q)) 0 ?q = p_value ?f 0 ?q"
    using p_fuel [of ?q "2 * length ?s - 2 * length ?q" 0] k by (simp del: p_value.simps)
  also have "\<dots> = None"
  proof (rule ccontr)
    assume "p_value ?f 0 ?q \<noteq> None"
    then obtain j r where "p_value ?f 0 ?q = Some (j, r)" by auto
    then have "p_value ?f 0 (?q @ drop k ?s) = Some (j, r @ drop k ?s)"
      using p_more(1) b by blast
    moreover have "p_value ?f 0 ?s = Some (field_json (FObj ms), [])"
      using p_value_render_obj [OF plain, of ?f "[]"] by simp
    ultimately show False using k by simp
  qed
  finally show ?thesis by (simp add: decode_stream_def ws del: p_value.simps)
qed

text \<open>
  A message: a struct with its field list, the names and the setter it is read back with,
  and what one trip through JSON makes of it.
\<close>

locale json_struct =
  fixes fields :: "'m \<Rightarrow> (string \<times> jfield) list"
    and names :: "string list"
    and setter :: "string \<Rightarrow> json \<Rightarrow> 'm \<Rightarrow> 'm \<times> bool"
    and zero :: 'm
    and norm :: "'m \<Rightarrow> 'm"
  assumes fields_names: "\<forall>(k, v) \<in> set (fields m). k \<in> set names"
    and fields_plain: "plain_field (FObj (fields m)) 10000"
    and sets_norm: "sets_fields setter (fields m) (zero, False) = (norm m, False)"
begin

lemma decode_value: "decode_struct names setter zero (field_json (FObj (fields m))) = Some (norm m)"
  unfolding decode_struct_def set_struct_rendered [OF fields_names] by (simp add: sets_norm)

lemma unmarshal_marshal: "unmarshal names setter zero (render_obj (fields m)) = Some (norm m)"
  using unmarshal_render_obj [OF fields_names fields_plain, of setter zero m] by (simp add: sets_norm)

lemma decode_whole: "decode_body names setter zero (render_obj (fields m) @ t) broken = Some (norm m)"
  unfolding decode_body_def decode_stream_rendered [OF fields_plain] by (simp add: decode_value del: field_json.simps)

lemma decode_prefix:
  "k < length (render_obj (fields m)) \<Longrightarrow> decode_body names setter zero (take k (render_obj (fields m))) broken = None"
  by (simp add: decode_body_def decode_stream_cut fields_plain del: plain_field.simps)

lemma decode_limit:
  "decode_limited limit names setter zero (render_obj (fields m)) =
     (if length (render_obj (fields m)) \<le> limit then Some (norm m) else None)"
  using decode_whole [of m "[]"] decode_prefix [of limit m] by (simp add: decode_limited_def)

end

end
