(* ===== verification/Go_Crc32.thy ===== *)
theory Go_Crc32
  imports Go_Utf8
begin

text \<open>
  \<^verbatim>\<open>crc32.ChecksumIEEE\<close> of \<^verbatim>\<open>hash/crc32\<close>, bit by bit (the package's tables hold
  the same eight steps per byte), and \<^verbatim>\<open>binary.BigEndian\<close> for 32-bit words. The result
  the write-ahead log relies on: changing any single byte of a text changes its checksum.
\<close>

unbundle bit_operations_syntax

definition crc_bit :: "u32 \<Rightarrow> u32" where
  "crc_bit c = (if bit c 0 then drop_bit 1 c XOR 0xEDB88320 else drop_bit 1 c)"

definition crc_byte :: "u32 \<Rightarrow> char \<Rightarrow> u32" where
  "crc_byte c x =
     crc_bit (crc_bit (crc_bit (crc_bit (crc_bit (crc_bit (crc_bit (crc_bit (c XOR of_char x))))))))"

definition crc32 :: "string \<Rightarrow> u32" where
  "crc32 s = NOT (foldl crc_byte (NOT 0) s)"

subsection \<open>Every step is injective\<close>

text \<open>The top bit of the result tells which branch a step took.\<close>

lemma crc_bit_top: "bit (crc_bit c) 31 = bit c 0"
proof -
  have "\<not> bit (drop_bit 1 c) 31"
    by (simp add: bit_drop_bit_eq bit_imp_le_length impossible_bit)
  moreover have "bit (0xEDB88320 :: u32) 31" by simp
  ultimately show ?thesis by (simp add: crc_bit_def bit_xor_iff)
qed

lemma xor_cancel_right: "(a XOR c = b XOR c) = (a = (b :: u32))"
proof
  assume "a XOR c = b XOR c"
  then have "(a XOR c) XOR c = (b XOR c) XOR c" by (simp only:)
  then show "a = b" by (simp only: xor.assoc xor_self_eq xor.right_neutral)
qed simp

lemma xor_cancel_left: "(c XOR a = c XOR b) = (a = (b :: u32))"
  using xor_cancel_right [of a c b] by (simp only: xor.commute)

lemma crc_bit_inj:
  assumes "crc_bit c = crc_bit d"
  shows "c = d"
proof -
  have b0: "bit c 0 = bit d 0" using assms crc_bit_top by metis
  have "drop_bit 1 c = drop_bit 1 d"
    using b0 assms by (cases "bit c 0") (simp_all add: crc_bit_def xor_cancel_right)
  then have "bit c (Suc n) = bit d (Suc n)" for n
    by (metis bit_drop_bit_eq comp_apply plus_1_eq_Suc)
  with b0 have "bit c n = bit d n" for n by (cases n) auto
  then show ?thesis by (simp add: bit_eq_iff)
qed

lemma crc_byte_inj_state: "crc_byte c x = crc_byte d x \<Longrightarrow> c = d"
  by (auto simp: crc_byte_def xor_cancel_right dest!: crc_bit_inj)

lemma of_char_word_inj: "(of_char x :: u32) = of_char y \<Longrightarrow> x = y"
proof -
  assume "(of_char x :: u32) = of_char y"
  then have "(of_nat (byte x) :: u32) = of_nat (byte y)" by (simp add: of_nat_of_char)
  then have "unat (of_nat (byte x) :: u32) = unat (of_nat (byte y) :: u32)" by simp
  then show "x = y" by (simp add: unat_of_nat order_less_trans [OF nat_of_char_less_256])
qed

lemma crc_byte_inj_byte: "crc_byte c x = crc_byte c y \<Longrightarrow> x = y"
  by (auto simp: crc_byte_def xor_cancel_left dest!: crc_bit_inj intro!: of_char_word_inj)

lemma foldl_crc_inj: "foldl crc_byte c s = foldl crc_byte d s \<Longrightarrow> c = d"
  by (induction s arbitrary: c d) (auto dest: crc_byte_inj_state)

theorem crc32_single_byte:
  assumes "x \<noteq> y"
  shows "crc32 (p @ x # q) \<noteq> crc32 (p @ y # q)"
proof
  assume "crc32 (p @ x # q) = crc32 (p @ y # q)"
  then have "foldl crc_byte (crc_byte (foldl crc_byte (NOT 0) p) x) q =
      foldl crc_byte (crc_byte (foldl crc_byte (NOT 0) p) y) q"
    by (simp add: crc32_def)
  then have "crc_byte (foldl crc_byte (NOT 0) p) x = crc_byte (foldl crc_byte (NOT 0) p) y"
    by (rule foldl_crc_inj)
  then have "x = y" by (rule crc_byte_inj_byte)
  with assms show False ..
qed

subsection \<open>Big-endian 32-bit words\<close>

definition put_u32 :: "u32 \<Rightarrow> string" where
  "put_u32 w = (let n = unat w in
     [char_of (n div 16777216), char_of (n div 65536), char_of (n div 256), char_of n])"

definition get_u32 :: "string \<Rightarrow> u32" where
  "get_u32 s = of_nat (foldl (\<lambda>a c. a * 256 + byte c) 0 (take 4 s))"

lemma length_put_u32 [simp]: "length (put_u32 w) = 4"
  by (simp add: put_u32_def Let_def)

lemma get_put_u32 [simp]: "get_u32 (put_u32 w @ s) = w"
proof -
  define n where "n = unat w"
  define m1 where "m1 = n div 256"
  define m2 where "m2 = m1 div 256"
  define m3 where "m3 = m2 div 256"
  have "n < 4294967296" using unsigned_less [where ?'a = nat and w = w] by (simp add: n_def)
  then have m3: "m3 mod 256 = m3" by (simp add: m1_def m2_def m3_def div_mult2_eq [symmetric])
  have "n div 65536 = m2" "n div 16777216 = m3"
    by (simp_all add: m1_def m2_def m3_def div_mult2_eq [symmetric])
  moreover have "m3 * 256 + m2 mod 256 = m2" "m2 * 256 + m1 mod 256 = m1" "m1 * 256 + n mod 256 = n"
    by (simp_all add: m1_def m2_def m3_def)
  moreover from calculation have q: "n div 16777216 mod 256 = n div 16777216" using m3 by simp
  ultimately have "((n div 16777216 mod 256 * 256 + n div 65536 mod 256) * 256 + n div 256 mod 256) * 256
      + n mod 256 = n"
    using m3 by (simp flip: m1_def)
  then have "foldl (\<lambda>a c. a * 256 + byte c) 0 (take 4 (put_u32 w @ s)) = n"
    by (simp add: put_u32_def Let_def q flip: n_def)
  then have "get_u32 (put_u32 w @ s) = of_nat n" by (simp only: get_u32_def)
  then show ?thesis by (simp add: n_def)
qed

lemma get_put_u32_Nil [simp]: "get_u32 (put_u32 w) = w"
  using get_put_u32 [of w "[]"] by simp

end
