(* ===== verification/Wal_Record.thy ===== *)
theory Wal_Record
  imports Go_Json_Stream Go_Crc32
begin

text \<open>
  \<^verbatim>\<open>src/internal/wal/record.go\<close>: the log record, and the frame it is written in
  (4 bytes length, 4 bytes CRC, JSON payload). The theorems say what decoding an encoded
  record returns, and which damage the checksum always finds.
\<close>

subsection \<open>Records\<close>

definition OpSet :: string where "OpSet = ''set''"
definition OpDelete :: string where "OpDelete = ''delete''"
definition OpNoop :: string where "OpNoop = ''noop''"

text \<open>\<^verbatim>\<open>Op\<close> is a Go string type: a record read from a file can hold any string there.\<close>

record Record =
  Term :: u64
  Index :: u64
  Op :: string
  Key :: string
  Value :: string

text \<open>The zero value of the struct.\<close>

definition zero_record :: Record where
  "zero_record = \<lparr>Term = 0, Index = 0, Op = [], Key = [], Value = []\<rparr>"

lemma record_eqI:
  "Term r = Term s \<Longrightarrow> Index r = Index s \<Longrightarrow> Op r = Op s \<Longrightarrow> Key r = Key s \<Longrightarrow>
   Value r = Value s \<Longrightarrow> r = (s :: Record)"
  by simp

subsection \<open>JSON\<close>

text \<open>The struct tags: \<^verbatim>\<open>term\<close>, \<^verbatim>\<open>index\<close> and \<^verbatim>\<open>value\<close> are \<^verbatim>\<open>omitempty\<close>.\<close>

definition record_fields :: "Record \<Rightarrow> (string \<times> jfield) list" where
  "record_fields r =
     (if Term r = 0 then [] else [(''term'', FNum (unat (Term r)))]) @
     (if Index r = 0 then [] else [(''index'', FNum (unat (Index r)))]) @
     [(''op'', FStr (Op r)), (''key'', FStr (Key r))] @
     (if Value r = [] then [] else [(''value'', FStr (Value r))])"

definition marshal_record :: "Record \<Rightarrow> string" where
  "marshal_record r = render_obj (record_fields r)"

definition record_names :: "string list" where
  "record_names = [''term'', ''index'', ''op'', ''key'', ''value'']"

definition set_record_field :: "string \<Rightarrow> json \<Rightarrow> Record \<Rightarrow> Record \<times> bool" where
  "set_record_field n j r =
     (if n = ''term'' then (let (v, b) = set_u64 j (Term r) in (r\<lparr>Term := v\<rparr>, b))
      else if n = ''index'' then (let (v, b) = set_u64 j (Index r) in (r\<lparr>Index := v\<rparr>, b))
      else if n = ''op'' then (let (v, b) = set_string j (Op r) in (r\<lparr>Op := v\<rparr>, b))
      else if n = ''key'' then (let (v, b) = set_string j (Key r) in (r\<lparr>Key := v\<rparr>, b))
      else (let (v, b) = set_string j (Value r) in (r\<lparr>Value := v\<rparr>, b)))"

definition unmarshal_record :: "string \<Rightarrow> Record option" where
  "unmarshal_record s = unmarshal record_names set_record_field zero_record s"

text \<open>What a record is after one trip through JSON.\<close>

definition sanitize_record :: "Record \<Rightarrow> Record" where
  "sanitize_record r =
     r\<lparr>Op := sanitize (Op r), Key := sanitize (Key r), Value := sanitize (Value r)\<rparr>"

definition utf8_record :: "Record \<Rightarrow> bool" where
  "utf8_record r \<longleftrightarrow> valid_utf8 (Op r) \<and> valid_utf8 (Key r) \<and> valid_utf8 (Value r)"

lemma sanitize_record_valid: "utf8_record r \<Longrightarrow> sanitize_record r = r"
  by (simp add: utf8_record_def sanitize_record_def sanitize_valid)

lemma sanitize_record_sel [simp]:
  "Term (sanitize_record r) = Term r" "Index (sanitize_record r) = Index r"
  "Op (sanitize_record r) = sanitize (Op r)" "Key (sanitize_record r) = sanitize (Key r)"
  "Value (sanitize_record r) = sanitize (Value r)"
  by (simp_all add: sanitize_record_def)

lemma record_fields_names: "\<forall>(k, v) \<in> set (record_fields r). k \<in> set record_names"
  by (auto simp: record_fields_def record_names_def)

lemma record_fields_plain: "0 < d \<Longrightarrow> plain_field (FObj (record_fields r)) d"
  by (auto simp: record_fields_def plain_key_def)

lemma set_rendered_record:
  "sets_fields set_record_field (record_fields r) (zero_record, False) = (sanitize_record r, False)"
  by (auto simp: record_fields_def set_record_field_def zero_record_def sanitize_record_def intro!: record_eqI)

interpretation record_json: json_struct record_fields record_names set_record_field zero_record sanitize_record
  by unfold_locales (rule record_fields_names, simp add: record_fields_plain del: plain_field.simps,
    rule set_rendered_record)

lemma unmarshal_marshal_record: "unmarshal_record (marshal_record r) = Some (sanitize_record r)"
  unfolding unmarshal_record_def marshal_record_def by (rule record_json.unmarshal_marshal)

subsection \<open>Frames\<close>

definition headerSize :: nat where "headerSize = 8"

datatype wal_error = ErrCorrupt | ErrUnmarshal | ErrMkdir | ErrOpen | ErrStat | ErrWrite
  | ErrSync | ErrOpenDir | ErrSyncDir | ErrTruncateSize | ErrTruncate | ErrReadHeader | ErrReadPayload | ErrClose

text \<open>
  \<^verbatim>\<open>json.Marshal\<close> of a struct of integers and strings never fails, so \<^verbatim>\<open>encode\<close> always
  returns a frame. The length field is a \<^verbatim>\<open>uint32\<close>: the conversion wraps.
\<close>

definition encode :: "Record \<Rightarrow> string" where
  "encode r = (let payload = marshal_record r in
     put_u32 (of_nat (length payload)) @ put_u32 (crc32 payload) @ payload)"

definition decodePayload :: "string \<Rightarrow> u32 \<Rightarrow> wal_error + Record" where
  "decodePayload payload wantCRC =
     (if crc32 payload \<noteq> wantCRC then Inl ErrCorrupt
      else case unmarshal_record payload of None \<Rightarrow> Inl ErrUnmarshal | Some r \<Rightarrow> Inr r)"

lemma length_encode: "length (encode r) = headerSize + length (marshal_record r)"
  by (simp add: encode_def headerSize_def Let_def)

lemma decodePayload_marshal:
  "decodePayload (marshal_record r) (crc32 (marshal_record r)) = Inr (sanitize_record r)"
  by (simp add: decodePayload_def unmarshal_marshal_record)

lemma decodePayload_damaged:
  "b \<noteq> p ! i \<Longrightarrow> i < length p \<Longrightarrow> decodePayload (p[i := b]) (crc32 p) = Inl ErrCorrupt"
proof -
  assume b: "b \<noteq> p ! i" and i: "i < length p"
  have "p[i := b] = take i p @ b # drop (Suc i) p" using i by (rule upd_conv_take_nth_drop)
  moreover have "p = take i p @ p ! i # drop (Suc i) p" using i by (rule id_take_nth_drop)
  ultimately have "crc32 (p[i := b]) \<noteq> crc32 p"
    using crc32_single_byte [OF b] by metis
  then show ?thesis by (simp add: decodePayload_def)
qed

end
