(* ===== verification/Raft_Rpc.thy ===== *)
theory Raft_Rpc
  imports Raft_Config Wal_Record
begin

text \<open>
  \<^verbatim>\<open>src/internal/raft/rpc.go\<close>: the messages the nodes exchange.
\<close>

record AppendEntriesRequest =
  aq_Term :: u64
  aq_LeaderID :: NodeID
  PrevLogIndex :: u64
  PrevLogTerm :: u64
  Entries :: "Record list"
  LeaderCommit :: u64

record AppendEntriesResponse =
  ar_Term :: u64
  Success :: bool
  ar_LastLogIndex :: u64

record RequestVoteRequest =
  vq_Term :: u64
  CandidateID :: NodeID
  vq_LastLogIndex :: u64
  vq_LastLogTerm :: u64

record RequestVoteResponse =
  vr_Term :: u64
  VoteGranted :: bool

record ReadIndexRequest =
  rq_Term :: u64
  FromNodeID :: NodeID

record ReadIndexResponse =
  rr_Term :: u64
  IsLeader_flag :: bool
  ReadIndex_value :: u64

record ForwardRequest =
  Command :: Record

record ForwardResponse =
  fr_Success :: bool
  fr_LeaderID :: NodeID
  fr_Error :: string

end
