(* ===== verification/Raft_Wire.thy ===== *)
theory Raft_Wire
  imports Raft_Rpc
begin

text \<open>
  The messages of \<^verbatim>\<open>src/internal/raft/rpc.go\<close> as JSON: their struct tags, and what each
  message is after one trip through \<^verbatim>\<open>encoding/json\<close>. Every message is an instance of the
  interface \<open>json_struct\<close>, so the round trips and the fate of cut messages are its lemmas.
\<close>

subsection \<open>AppendEntries\<close>

definition append_request_fields :: "AppendEntriesRequest \<Rightarrow> (string \<times> jfield) list" where
  "append_request_fields m =
     [(''term'', FNum (unat (aq_Term m))), (''leader_id'', FStr (aq_LeaderID m)),
      (''prev_log_index'', FNum (unat (PrevLogIndex m))), (''prev_log_term'', FNum (unat (PrevLogTerm m)))] @
     (if Entries m = [] then []
      else [(''entries'', FArr (map (\<lambda>r. FObj (record_fields r)) (Entries m)))]) @
     [(''leader_commit'', FNum (unat (LeaderCommit m)))]"

definition append_request_names :: "string list" where
  "append_request_names =
     [''term'', ''leader_id'', ''prev_log_index'', ''prev_log_term'', ''entries'', ''leader_commit'']"

definition set_append_request :: "string \<Rightarrow> json \<Rightarrow> AppendEntriesRequest \<Rightarrow> AppendEntriesRequest \<times> bool" where
  "set_append_request k j m =
     (if k = ''term'' then (let (v, b) = set_u64 j (aq_Term m) in (m\<lparr>aq_Term := v\<rparr>, b))
      else if k = ''leader_id'' then (let (v, b) = set_string j (aq_LeaderID m) in (m\<lparr>aq_LeaderID := v\<rparr>, b))
      else if k = ''prev_log_index'' then (let (v, b) = set_u64 j (PrevLogIndex m) in (m\<lparr>PrevLogIndex := v\<rparr>, b))
      else if k = ''prev_log_term'' then (let (v, b) = set_u64 j (PrevLogTerm m) in (m\<lparr>PrevLogTerm := v\<rparr>, b))
      else if k = ''entries'' then
        (let (v, b) = set_slice (set_struct record_names set_record_field) zero_record j (Entries m) in
         (m\<lparr>Entries := v\<rparr>, b))
      else (let (v, b) = set_u64 j (LeaderCommit m) in (m\<lparr>LeaderCommit := v\<rparr>, b)))"

definition zero_append_request :: AppendEntriesRequest where
  "zero_append_request = \<lparr>aq_Term = 0, aq_LeaderID = [], PrevLogIndex = 0, PrevLogTerm = 0, Entries = [],
     LeaderCommit = 0\<rparr>"

definition sanitize_append_request :: "AppendEntriesRequest \<Rightarrow> AppendEntriesRequest" where
  "sanitize_append_request m =
     m\<lparr>aq_LeaderID := sanitize (aq_LeaderID m), Entries := map sanitize_record (Entries m)\<rparr>"

lemma set_rendered_entries:
  "set_slice (set_struct record_names set_record_field) zero_record
     (field_json (FArr (map (\<lambda>r. FObj (record_fields r)) rs))) [] = (map sanitize_record rs, False)"
proof -
  have "set_struct record_names set_record_field (field_json (FObj (record_fields r))) zero_record =
      (sanitize_record r, False)" for r
    unfolding set_struct_rendered [OF record_fields_names] by (rule set_rendered_record)
  then have "set_elems (set_struct record_names set_record_field) zero_record
      (map (\<lambda>r. field_json (FObj (record_fields r))) rs) [] = (map sanitize_record rs, False)"
    by (induction rs) (simp_all del: field_json.simps(4))
  then show ?thesis by (simp add: o_def del: field_json.simps(4))
qed

interpretation append_request: json_struct append_request_fields append_request_names set_append_request
    zero_append_request sanitize_append_request
proof
  show "\<forall>(k, v) \<in> set (append_request_fields m). k \<in> set append_request_names" for m
    by (auto simp: append_request_fields_def append_request_names_def)
  show "plain_field (FObj (append_request_fields m)) 10000" for m
  proof -
    have "plain_field (FArr (map (\<lambda>r. FObj (record_fields r)) rs)) 9999" for rs
      using record_fields_plain [of 9998] by (simp add: list_all_iff del: plain_field.simps(4))
    then show ?thesis
      by (simp add: append_request_fields_def plain_key_def del: plain_field.simps(5))
  qed
  show "sets_fields set_append_request (append_request_fields m) (zero_append_request, False) =
      (sanitize_append_request m, False)" for m
    using set_rendered_entries [of "Entries m"]
    by (cases "Entries m = []")
      (simp_all add: append_request_fields_def set_append_request_def zero_append_request_def
        sanitize_append_request_def del: field_json.simps(5))
qed

definition append_response_fields :: "AppendEntriesResponse \<Rightarrow> (string \<times> jfield) list" where
  "append_response_fields m =
     [(''term'', FNum (unat (ar_Term m))), (''success'', FBool (Success m)),
      (''last_log_index'', FNum (unat (ar_LastLogIndex m)))]"

definition append_response_names :: "string list" where
  "append_response_names = [''term'', ''success'', ''last_log_index'']"

definition set_append_response :: "string \<Rightarrow> json \<Rightarrow> AppendEntriesResponse \<Rightarrow> AppendEntriesResponse \<times> bool" where
  "set_append_response k j m =
     (if k = ''term'' then (let (v, b) = set_u64 j (ar_Term m) in (m\<lparr>ar_Term := v\<rparr>, b))
      else if k = ''success'' then (let (v, b) = set_bool j (Success m) in (m\<lparr>Success := v\<rparr>, b))
      else (let (v, b) = set_u64 j (ar_LastLogIndex m) in (m\<lparr>ar_LastLogIndex := v\<rparr>, b)))"

definition zero_append_response :: AppendEntriesResponse where
  "zero_append_response = \<lparr>ar_Term = 0, Success = False, ar_LastLogIndex = 0\<rparr>"

interpretation append_response: json_struct append_response_fields append_response_names set_append_response
    zero_append_response "\<lambda>m. m"
  by unfold_locales (simp_all add: append_response_fields_def append_response_names_def plain_key_def
    set_append_response_def zero_append_response_def)

subsection \<open>RequestVote\<close>

definition vote_request_fields :: "RequestVoteRequest \<Rightarrow> (string \<times> jfield) list" where
  "vote_request_fields m =
     [(''term'', FNum (unat (vq_Term m))), (''candidate_id'', FStr (CandidateID m)),
      (''last_log_index'', FNum (unat (vq_LastLogIndex m))), (''last_log_term'', FNum (unat (vq_LastLogTerm m)))]"

definition vote_request_names :: "string list" where
  "vote_request_names = [''term'', ''candidate_id'', ''last_log_index'', ''last_log_term'']"

definition set_vote_request :: "string \<Rightarrow> json \<Rightarrow> RequestVoteRequest \<Rightarrow> RequestVoteRequest \<times> bool" where
  "set_vote_request k j m =
     (if k = ''term'' then (let (v, b) = set_u64 j (vq_Term m) in (m\<lparr>vq_Term := v\<rparr>, b))
      else if k = ''candidate_id'' then (let (v, b) = set_string j (CandidateID m) in (m\<lparr>CandidateID := v\<rparr>, b))
      else if k = ''last_log_index'' then (let (v, b) = set_u64 j (vq_LastLogIndex m) in (m\<lparr>vq_LastLogIndex := v\<rparr>, b))
      else (let (v, b) = set_u64 j (vq_LastLogTerm m) in (m\<lparr>vq_LastLogTerm := v\<rparr>, b)))"

definition zero_vote_request :: RequestVoteRequest where
  "zero_vote_request = \<lparr>vq_Term = 0, CandidateID = [], vq_LastLogIndex = 0, vq_LastLogTerm = 0\<rparr>"

definition sanitize_vote_request :: "RequestVoteRequest \<Rightarrow> RequestVoteRequest" where
  "sanitize_vote_request m = m\<lparr>CandidateID := sanitize (CandidateID m)\<rparr>"

interpretation vote_request: json_struct vote_request_fields vote_request_names set_vote_request
    zero_vote_request sanitize_vote_request
  by unfold_locales (simp_all add: vote_request_fields_def vote_request_names_def plain_key_def
    set_vote_request_def zero_vote_request_def sanitize_vote_request_def)

definition vote_response_fields :: "RequestVoteResponse \<Rightarrow> (string \<times> jfield) list" where
  "vote_response_fields m = [(''term'', FNum (unat (vr_Term m))), (''vote_granted'', FBool (VoteGranted m))]"

definition vote_response_names :: "string list" where
  "vote_response_names = [''term'', ''vote_granted'']"

definition set_vote_response :: "string \<Rightarrow> json \<Rightarrow> RequestVoteResponse \<Rightarrow> RequestVoteResponse \<times> bool" where
  "set_vote_response k j m =
     (if k = ''term'' then (let (v, b) = set_u64 j (vr_Term m) in (m\<lparr>vr_Term := v\<rparr>, b))
      else (let (v, b) = set_bool j (VoteGranted m) in (m\<lparr>VoteGranted := v\<rparr>, b)))"

definition zero_vote_response :: RequestVoteResponse where
  "zero_vote_response = \<lparr>vr_Term = 0, VoteGranted = False\<rparr>"

interpretation vote_response: json_struct vote_response_fields vote_response_names set_vote_response
    zero_vote_response "\<lambda>m. m"
  by unfold_locales (simp_all add: vote_response_fields_def vote_response_names_def plain_key_def
    set_vote_response_def zero_vote_response_def)

subsection \<open>ReadIndex\<close>

definition read_request_fields :: "ReadIndexRequest \<Rightarrow> (string \<times> jfield) list" where
  "read_request_fields m = [(''term'', FNum (unat (rq_Term m))), (''from_node_id'', FStr (FromNodeID m))]"

definition read_request_names :: "string list" where
  "read_request_names = [''term'', ''from_node_id'']"

definition set_read_request :: "string \<Rightarrow> json \<Rightarrow> ReadIndexRequest \<Rightarrow> ReadIndexRequest \<times> bool" where
  "set_read_request k j m =
     (if k = ''term'' then (let (v, b) = set_u64 j (rq_Term m) in (m\<lparr>rq_Term := v\<rparr>, b))
      else (let (v, b) = set_string j (FromNodeID m) in (m\<lparr>FromNodeID := v\<rparr>, b)))"

definition zero_read_request :: ReadIndexRequest where
  "zero_read_request = \<lparr>rq_Term = 0, FromNodeID = []\<rparr>"

definition sanitize_read_request :: "ReadIndexRequest \<Rightarrow> ReadIndexRequest" where
  "sanitize_read_request m = m\<lparr>FromNodeID := sanitize (FromNodeID m)\<rparr>"

interpretation read_request: json_struct read_request_fields read_request_names set_read_request
    zero_read_request sanitize_read_request
  by unfold_locales (simp_all add: read_request_fields_def read_request_names_def plain_key_def
    set_read_request_def zero_read_request_def sanitize_read_request_def)

definition read_response_fields :: "ReadIndexResponse \<Rightarrow> (string \<times> jfield) list" where
  "read_response_fields m =
     [(''term'', FNum (unat (rr_Term m))), (''is_leader'', FBool (IsLeader_flag m)),
      (''read_index'', FNum (unat (ReadIndex_value m)))]"

definition read_response_names :: "string list" where
  "read_response_names = [''term'', ''is_leader'', ''read_index'']"

definition set_read_response :: "string \<Rightarrow> json \<Rightarrow> ReadIndexResponse \<Rightarrow> ReadIndexResponse \<times> bool" where
  "set_read_response k j m =
     (if k = ''term'' then (let (v, b) = set_u64 j (rr_Term m) in (m\<lparr>rr_Term := v\<rparr>, b))
      else if k = ''is_leader'' then (let (v, b) = set_bool j (IsLeader_flag m) in (m\<lparr>IsLeader_flag := v\<rparr>, b))
      else (let (v, b) = set_u64 j (ReadIndex_value m) in (m\<lparr>ReadIndex_value := v\<rparr>, b)))"

definition zero_read_response :: ReadIndexResponse where
  "zero_read_response = \<lparr>rr_Term = 0, IsLeader_flag = False, ReadIndex_value = 0\<rparr>"

interpretation read_response: json_struct read_response_fields read_response_names set_read_response
    zero_read_response "\<lambda>m. m"
  by unfold_locales (simp_all add: read_response_fields_def read_response_names_def plain_key_def
    set_read_response_def zero_read_response_def)

subsection \<open>Forward\<close>

definition forward_request_fields :: "ForwardRequest \<Rightarrow> (string \<times> jfield) list" where
  "forward_request_fields m = [(''command'', FObj (record_fields (Command m)))]"

definition forward_request_names :: "string list" where
  "forward_request_names = [''command'']"

definition set_forward_request :: "string \<Rightarrow> json \<Rightarrow> ForwardRequest \<Rightarrow> ForwardRequest \<times> bool" where
  "set_forward_request k j m =
     (let (v, b) = set_struct record_names set_record_field j (Command m) in (m\<lparr>Command := v\<rparr>, b))"

definition zero_forward_request :: ForwardRequest where
  "zero_forward_request = \<lparr>Command = zero_record\<rparr>"

definition sanitize_forward_request :: "ForwardRequest \<Rightarrow> ForwardRequest" where
  "sanitize_forward_request m = m\<lparr>Command := sanitize_record (Command m)\<rparr>"

interpretation forward_request: json_struct forward_request_fields forward_request_names set_forward_request
    zero_forward_request sanitize_forward_request
proof
  show "\<forall>(k, v) \<in> set (forward_request_fields m). k \<in> set forward_request_names" for m
    by (simp add: forward_request_fields_def forward_request_names_def)
  show "plain_field (FObj (forward_request_fields m)) 10000" for m
    using record_fields_plain [of 9999] by (simp add: forward_request_fields_def plain_key_def)
  show "sets_fields set_forward_request (forward_request_fields m) (zero_forward_request, False) =
      (sanitize_forward_request m, False)" for m
    by (simp add: forward_request_fields_def set_forward_request_def zero_forward_request_def
        sanitize_forward_request_def set_struct_rendered [OF record_fields_names] set_rendered_record
        del: field_json.simps(4))
qed

definition forward_response_fields :: "ForwardResponse \<Rightarrow> (string \<times> jfield) list" where
  "forward_response_fields m =
     [(''success'', FBool (fr_Success m)), (''leader_id'', FStr (fr_LeaderID m))] @
     (if fr_Error m = [] then [] else [(''error'', FStr (fr_Error m))])"

definition forward_response_names :: "string list" where
  "forward_response_names = [''success'', ''leader_id'', ''error'']"

definition set_forward_response :: "string \<Rightarrow> json \<Rightarrow> ForwardResponse \<Rightarrow> ForwardResponse \<times> bool" where
  "set_forward_response k j m =
     (if k = ''success'' then (let (v, b) = set_bool j (fr_Success m) in (m\<lparr>fr_Success := v\<rparr>, b))
      else if k = ''leader_id'' then (let (v, b) = set_string j (fr_LeaderID m) in (m\<lparr>fr_LeaderID := v\<rparr>, b))
      else (let (v, b) = set_string j (fr_Error m) in (m\<lparr>fr_Error := v\<rparr>, b)))"

definition zero_forward_response :: ForwardResponse where
  "zero_forward_response = \<lparr>fr_Success = False, fr_LeaderID = [], fr_Error = []\<rparr>"

definition sanitize_forward_response :: "ForwardResponse \<Rightarrow> ForwardResponse" where
  "sanitize_forward_response m =
     m\<lparr>fr_LeaderID := sanitize (fr_LeaderID m), fr_Error := sanitize (fr_Error m)\<rparr>"

interpretation forward_response: json_struct forward_response_fields forward_response_names set_forward_response
    zero_forward_response sanitize_forward_response
  by unfold_locales (auto simp: forward_response_fields_def forward_response_names_def plain_key_def
    set_forward_response_def zero_forward_response_def sanitize_forward_response_def)

end
