(* ===== verification/Os_File.thy ===== *)
theory Os_File
  imports Kv_Prelude
begin

text \<open>
  The operating system's side of a file, as far as the sources depend on it: what a read
  returns now, what has been forced to the disk, and which system calls fail. Every call
  takes its outcome from a script, so quantifying over the script covers every fault
  the code may meet; an empty script is a disk that works.
\<close>

text \<open>
  \<open>IoFail k\<close> is a failure; for a write it happens after \<open>k\<close> bytes have reached the page
  cache, which is what POSIX allows a failing write to leave behind.
\<close>

datatype io = IoOk | IoFail nat

record os_file =
  cached :: string      \<comment> \<open>what reading the file returns\<close>
  durable :: string     \<comment> \<open>the content at the last successful fsync\<close>
  is_closed :: bool
  faults :: "io list"

definition next_io :: "os_file \<Rightarrow> io \<times> os_file" where
  "next_io f = (if is_closed f then (IoFail 0, f)
     else case faults f of [] \<Rightarrow> (IoOk, f) | x # xs \<Rightarrow> (x, f\<lparr>faults := xs\<rparr>))"

text \<open>Each call returns whether it failed. A write goes to the end: the files are opened with O_APPEND.\<close>

definition os_write :: "string \<Rightarrow> os_file \<Rightarrow> bool \<times> os_file" where
  "os_write bs f = (case next_io f of
     (IoOk, f) \<Rightarrow> (False, f\<lparr>cached := cached f @ bs\<rparr>)
   | (IoFail k, f) \<Rightarrow> (True, f\<lparr>cached := cached f @ take k bs\<rparr>))"

definition os_sync :: "os_file \<Rightarrow> bool \<times> os_file" where
  "os_sync f = (case next_io f of
     (IoOk, f) \<Rightarrow> (False, f\<lparr>durable := cached f\<rparr>)
   | (IoFail _, f) \<Rightarrow> (True, f))"

text \<open>Truncating past the end pads with zero bytes.\<close>

definition os_truncate :: "nat \<Rightarrow> os_file \<Rightarrow> bool \<times> os_file" where
  "os_truncate n f = (case next_io f of
     (IoOk, f) \<Rightarrow> (False, f\<lparr>cached := take n (cached f) @ replicate (n - length (cached f)) (CHR 0x00)\<rparr>)
   | (IoFail _, f) \<Rightarrow> (True, f))"

text \<open>A call that touches no content: opening, stat, fsync of a directory.\<close>

definition os_call :: "os_file \<Rightarrow> bool \<times> os_file" where
  "os_call f = (case next_io f of (IoOk, f) \<Rightarrow> (False, f) | (IoFail _, f) \<Rightarrow> (True, f))"

text \<open>
  What a power cut can leave: the synced content, or, of what was written or cut since,
  any part of it in file order.
\<close>

definition crash_content :: "os_file \<Rightarrow> string \<Rightarrow> bool" where
  "crash_content f c \<longleftrightarrow> c = durable f \<or>
     (\<exists>k \<ge> min (length (durable f)) (length (cached f)). c = take k (cached f))"

definition synced :: "os_file \<Rightarrow> bool" where
  "synced f \<longleftrightarrow> durable f = cached f"

lemma crash_synced: "synced f \<Longrightarrow> crash_content f c \<longleftrightarrow> c = cached f"
  by (auto simp: synced_def crash_content_def)

lemma os_write_cases:
  assumes "os_write bs f = (e, f')"
  obtains k where "cached f' = cached f @ take k bs" and "durable f' = durable f"
    and "\<not> e \<Longrightarrow> cached f' = cached f @ bs" and "is_closed f' = is_closed f"
proof (cases "fst (next_io f)")
  case IoOk
  with assms show ?thesis
    by (intro that [of "length bs"])
       (auto simp: os_write_def next_io_def split: prod.splits io.splits if_splits list.splits)
next
  case (IoFail k)
  with assms show ?thesis
    by (intro that [of k])
       (auto simp: os_write_def next_io_def split: prod.splits io.splits if_splits list.splits)
qed

lemma os_sync_cases:
  "os_sync f = (e, f') \<Longrightarrow> cached f' = cached f \<and> is_closed f' = is_closed f \<and>
     (if e then durable f' = durable f else durable f' = cached f)"
  by (auto simp: os_sync_def next_io_def split: prod.splits io.splits if_splits list.splits)

lemma os_truncate_cases:
  "os_truncate n f = (e, f') \<Longrightarrow> n \<le> length (cached f) \<Longrightarrow>
     durable f' = durable f \<and> is_closed f' = is_closed f \<and>
     (if e then cached f' = cached f else cached f' = take n (cached f))"
  by (auto simp: os_truncate_def next_io_def split: prod.splits io.splits if_splits list.splits)

lemma os_call_cases:
  "os_call f = (e, f') \<Longrightarrow> cached f' = cached f \<and> durable f' = durable f \<and> is_closed f' = is_closed f"
  by (auto simp: os_call_def next_io_def split: prod.splits io.splits if_splits list.splits)

lemma no_faults_io [simp]:
  assumes "faults f = []" and "\<not> is_closed f"
  shows "os_write bs f = (False, f\<lparr>cached := cached f @ bs\<rparr>)"
    and "os_sync f = (False, f\<lparr>durable := cached f\<rparr>)"
    and "os_call f = (False, f)"
  using assms by (simp_all add: os_write_def os_sync_def os_call_def next_io_def)

end
