(* ===== verification/Wal_Reader.thy ===== *)
theory Wal_Reader
  imports Wal_Record Os_File
begin

text \<open>
  \<^verbatim>\<open>src/internal/wal/reader.go\<close>: reading a log file back, stopping at the first frame
  that is torn or damaged, and cutting such a tail off.
\<close>

definition maxRecordSize :: nat where "maxRecordSize = 8388608"

record ReadResult =
  Records :: "Record list"
  Offsets :: "nat list"
  ValidBytes :: nat
  Truncated :: bool

definition empty_result :: ReadResult where
  "empty_result = \<lparr>Records = [], Offsets = [], ValidBytes = 0, Truncated = False\<rparr>"

text \<open>
  What the path names: nothing, a file that cannot be opened, or bytes that end at a clean
  end of file or (the flag) at an I/O error.
\<close>

datatype source = NoFile | OpenFails | Bytes string bool

text \<open>\<^verbatim>\<open>io.ReadFull\<close> of \<open>n\<close> bytes: the bytes and the rest, or how it failed.\<close>

datatype read_failure = EOF | UnexpectedEOF | OtherError

definition readFull :: "nat \<Rightarrow> string \<Rightarrow> bool \<Rightarrow> read_failure + string \<times> string" where
  "readFull n bs ioerr =
     (if n \<le> length bs then Inr (take n bs, drop n bs)
      else if ioerr then Inl OtherError
      else if bs = [] then Inl EOF else Inl UnexpectedEOF)"

text \<open>The result after one more intact record whose payload has the given length.\<close>

definition push_record :: "Record \<Rightarrow> nat \<Rightarrow> ReadResult \<Rightarrow> ReadResult" where
  "push_record r n res = res\<lparr>Records := Records res @ [r],
     Offsets := Offsets res @ [ValidBytes res],
     ValidBytes := ValidBytes res + (headerSize + n)\<rparr>"

function read_loop :: "string \<Rightarrow> bool \<Rightarrow> ReadResult \<Rightarrow> ReadResult \<times> wal_error option" where
  "read_loop bs ioerr res =
     (case readFull headerSize bs ioerr of
        Inl EOF \<Rightarrow> (res, None)
      | Inl UnexpectedEOF \<Rightarrow> (res\<lparr>Truncated := True\<rparr>, None)
      | Inl OtherError \<Rightarrow> (res, Some ErrReadHeader)
      | Inr (header, rest) \<Rightarrow>
          (let len = unat (get_u32 header); crc = get_u32 (drop 4 header) in
           if maxRecordSize < len then (res\<lparr>Truncated := True\<rparr>, None)
           else
             (case readFull len rest ioerr of
                Inl OtherError \<Rightarrow> (res, Some ErrReadPayload)
              | Inl _ \<Rightarrow> (res\<lparr>Truncated := True\<rparr>, None)
              | Inr (payload, rest') \<Rightarrow>
                  (case decodePayload payload crc of
                     Inl _ \<Rightarrow> (res\<lparr>Truncated := True\<rparr>, None)
                   | Inr rec \<Rightarrow> read_loop rest' ioerr (push_record rec len res)))))"
  by pat_completeness auto
termination
  by (relation "measure (\<lambda>(bs, ioerr, res). length bs)")
     (auto simp: readFull_def headerSize_def split: if_splits)

declare read_loop.simps [simp del]

definition ReadAll :: "source \<Rightarrow> ReadResult \<times> wal_error option" where
  "ReadAll src = (case src of
     NoFile \<Rightarrow> (empty_result, None)
   | OpenFails \<Rightarrow> (empty_result, Some ErrOpen)
   | Bytes bs ioerr \<Rightarrow> read_loop bs ioerr empty_result)"

text \<open>
  What reading a path gives, given whether it exists and its file: opening can fail, and so
  can a read after some bytes.
\<close>

definition source_of :: "bool \<Rightarrow> os_file \<Rightarrow> source \<times> os_file" where
  "source_of exists fl =
     (if \<not> exists then (NoFile, fl)
      else case next_io fl of
        (IoFail _, fl) \<Rightarrow> (OpenFails, fl)
      | (IoOk, fl) \<Rightarrow>
          (case next_io fl of
             (IoFail k, fl) \<Rightarrow> (Bytes (take k (cached fl)) True, fl)
           | (IoOk, fl) \<Rightarrow> (Bytes (cached fl) False, fl)))"

text \<open>\<^verbatim>\<open>syncDir\<close> opens the directory and syncs it; both can fail (\<^verbatim>\<open>wal.go\<close>).\<close>

definition syncDir :: "os_file \<Rightarrow> wal_error option \<times> os_file" where
  "syncDir f =
     (let (e, f) = os_call f in
      if e then (Some ErrOpenDir, f)
      else let (e, f) = os_call f in
        if e then (Some ErrSyncDir, f) else (None, f))"

definition SyncDir :: "os_file \<Rightarrow> wal_error option \<times> os_file" where
  "SyncDir f = syncDir f"

definition TruncateTo :: "os_file \<Rightarrow> nat \<Rightarrow> wal_error option \<times> os_file" where
  "TruncateTo f n =
     (let (e, f) = os_call f in
      if e then (Some ErrOpen, f)
      else let (e, f) = os_truncate n f in
        if e then (Some ErrTruncate, f)
        else let (e, f) = os_sync f in
          if e then (Some ErrSync, f) else syncDir f)"

subsection \<open>Reading frames\<close>

text \<open>
  A record fits when its payload is within the reader's bound. The writer does not check
  this.
\<close>

definition fits :: "Record \<Rightarrow> bool" where
  "fits r \<longleftrightarrow> length (marshal_record r) \<le> maxRecordSize"

lemma header_encode:
  "take 8 (encode r) = put_u32 (of_nat (length (marshal_record r))) @ put_u32 (crc32 (marshal_record r))"
  "drop 8 (encode r @ t) = marshal_record r @ t"
  by (simp_all add: encode_def Let_def)

lemma unat_len_fits: "fits r \<Longrightarrow> unat (of_nat (length (marshal_record r)) :: u32) = length (marshal_record r)"
  by (simp add: fits_def maxRecordSize_def unat_of_nat)

lemma readFull_take: "n \<le> length bs \<Longrightarrow> readFull n bs e = Inr (take n bs, drop n bs)"
  by (simp add: readFull_def)

lemma read_loop_frame:
  assumes "fits r"
  shows "read_loop (encode r @ t) e res =
    read_loop t e (push_record (sanitize_record r) (length (marshal_record r)) res)"
proof -
  let ?p = "marshal_record r"
  have h: "readFull headerSize (encode r @ t) e =
      Inr (put_u32 (of_nat (length ?p)) @ put_u32 (crc32 ?p), ?p @ t)"
    using header_encode [of r] by (simp add: readFull_def headerSize_def length_encode)
  have "\<not> maxRecordSize < length ?p" using assms by (simp add: fits_def)
  then show ?thesis
    by (subst read_loop.simps)
       (simp add: h Let_def readFull_take decodePayload_marshal unat_len_fits [OF assms])
qed

definition frames :: "Record list \<Rightarrow> string" where
  "frames rs = concat (map encode rs)"

definition frames_len :: "Record list \<Rightarrow> nat" where
  "frames_len rs = length (frames rs)"

lemma frames_simps [simp]:
  "frames [] = []" "frames (r # rs) = encode r @ frames rs" "frames (rs @ ss) = frames rs @ frames ss"
  by (simp_all add: frames_def)

lemma frames_len_simps [simp]:
  "frames_len [] = 0" "frames_len (r # rs) = length (encode r) + frames_len rs"
  "frames_len (rs @ ss) = frames_len rs + frames_len ss"
  by (simp_all add: frames_len_def)

text \<open>The offsets at which the records of a list start.\<close>

fun offsets_from :: "nat \<Rightarrow> Record list \<Rightarrow> nat list" where
  "offsets_from n [] = []"
| "offsets_from n (r # rs) = n # offsets_from (n + length (encode r)) rs"

lemma length_offsets_from [simp]: "length (offsets_from n rs) = length rs"
  by (induction rs arbitrary: n) auto

lemma nth_offsets_from:
  "i < length rs \<Longrightarrow> offsets_from n rs ! i = n + frames_len (take i rs)"
  by (induction rs arbitrary: n i) (auto simp: nth_Cons' take_Cons' split: nat.splits)

lemma offsets_from_snoc:
  "offsets_from n (rs @ [r]) = offsets_from n rs @ [n + frames_len rs]"
  by (induction rs arbitrary: n) (simp_all add: add.assoc)

definition push_all :: "Record list \<Rightarrow> ReadResult \<Rightarrow> ReadResult" where
  "push_all rs res = res\<lparr>Records := Records res @ map sanitize_record rs,
     Offsets := Offsets res @ offsets_from (ValidBytes res) rs,
     ValidBytes := ValidBytes res + frames_len rs\<rparr>"

lemma read_loop_frames:
  "\<forall>r \<in> set rs. fits r \<Longrightarrow> read_loop (frames rs @ t) e res = read_loop t e (push_all rs res)"
proof (induction rs arbitrary: res)
  case Nil
  show ?case by (simp add: push_all_def)
next
  case (Cons r rs)
  then show ?case
    by (simp add: read_loop_frame push_all_def push_record_def length_encode add.assoc)
qed

lemma read_loop_clean: "read_loop [] False res = (res, None)"
  by (subst read_loop.simps) (simp add: readFull_def headerSize_def)

text \<open>A proper prefix of a frame is recognised as torn wherever it was cut: no checksum is needed.\<close>

lemma read_loop_torn:
  assumes "fits r" and "k < length (encode r)"
  shows "read_loop (take k (encode r)) False res =
    (if k = 0 then res else res\<lparr>Truncated := True\<rparr>, None)"
proof (cases "k < headerSize")
  case True
  with assms show ?thesis
    by (subst read_loop.simps)
       (auto simp: readFull_def length_encode headerSize_def simp flip: length_0_conv)
next
  case False
  let ?p = "marshal_record r" and ?h = "put_u32 (of_nat (length (marshal_record r))) @ put_u32 (crc32 (marshal_record r))"
  have e: "encode r = ?h @ ?p" by (simp add: encode_def Let_def)
  have k: "k - 8 < length ?p" "8 \<le> k" using False assms(2) by (auto simp: headerSize_def length_encode)
  have "readFull headerSize (take k (encode r)) False = Inr (?h, take (k - 8) ?p)"
    using k by (simp add: readFull_def headerSize_def e)
  moreover have "unat (get_u32 ?h) = length ?p" using unat_len_fits [OF assms(1)] by simp
  moreover have "readFull (length ?p) (take (k - 8) ?p) False =
      Inl (if take (k - 8) ?p = [] then EOF else UnexpectedEOF)"
    using k by (simp add: readFull_def)
  ultimately show ?thesis using k assms(1)
    by (subst read_loop.simps) (simp add: Let_def fits_def)
qed

text \<open>A read that fails within a file of whole frames is reported, wherever it fails.\<close>

lemma read_loop_torn_error:
  assumes "fits r" and "k < length (encode r)"
  shows "snd (read_loop (take k (encode r)) True res) \<noteq> None"
proof (cases "k < headerSize")
  case True
  with assms show ?thesis
    by (subst read_loop.simps) (auto simp: readFull_def length_encode headerSize_def)
next
  case False
  let ?p = "marshal_record r" and ?h = "put_u32 (of_nat (length (marshal_record r))) @ put_u32 (crc32 (marshal_record r))"
  have e: "encode r = ?h @ ?p" by (simp add: encode_def Let_def)
  have k: "k - 8 < length ?p" "8 \<le> k" using False assms(2) by (auto simp: headerSize_def length_encode)
  have "readFull headerSize (take k (encode r)) True = Inr (?h, take (k - 8) ?p)"
    using k by (simp add: readFull_def headerSize_def e)
  moreover have "unat (get_u32 ?h) = length ?p" using unat_len_fits [OF assms(1)] by simp
  moreover have "readFull (length ?p) (take (k - 8) ?p) True = Inl OtherError"
    using k by (simp add: readFull_def)
  ultimately show ?thesis using assms(1)
    by (subst read_loop.simps) (simp add: Let_def fits_def)
qed

lemma read_loop_error:
  "\<forall>r \<in> set rs. fits r \<Longrightarrow> snd (read_loop (take k (frames rs)) True res) \<noteq> None"
proof (induction rs arbitrary: k res)
  case Nil
  show ?case by (simp, subst read_loop.simps) (simp add: readFull_def headerSize_def)
next
  case (Cons r rs)
  show ?case
  proof (cases "length (encode r) \<le> k")
    case True
    then have "take k (frames (r # rs)) = encode r @ take (k - length (encode r)) (frames rs)" by simp
    with Cons show ?thesis by (simp add: read_loop_frame)
  next
    case False
    with Cons.prems read_loop_torn_error [of r k res] show ?thesis by simp
  qed
qed

end
