(* ===== verification/Wal.thy ===== *)
theory Wal
  imports Wal_Reader
begin

text \<open>
  \<^verbatim>\<open>src/internal/wal/wal.go\<close>: the open log file and its two writes, append and truncate,
  each followed by an fsync. The theorems say what is on the disk after a success, what a
  crash leaves after a failure, that a repaired file reads back clean, and that the file
  mirrors the list of records its client appended.
\<close>

record WAL =
  f :: os_file
  size_of :: nat   \<comment> \<open>the field \<^verbatim>\<open>size\<close>: where the next record is expected to go\<close>

text \<open>
  \<^verbatim>\<open>Open\<close> of an existing or fresh file: create the directory, open, sync the directory,
  stat. The two error paths after the file is open close it again.
\<close>

definition WAL_Open :: "os_file \<Rightarrow> wal_error + WAL" where
  "WAL_Open fl =
     (let (e, fl) = os_call fl in
      if e then Inl ErrMkdir
      else let (e, fl) = os_call fl in
        if e then Inl ErrOpen
        else let (r, fl) = syncDir fl in
          case r of Some x \<Rightarrow> Inl x | None \<Rightarrow>
            (let (e, fl) = os_call fl in
             if e then Inl ErrStat
             else Inr \<lparr>f = fl, size_of = length (cached fl)\<rparr>))"

definition WAL_Append :: "WAL \<Rightarrow> Record \<Rightarrow> (wal_error + nat) \<times> WAL" where
  "WAL_Append w r =
     (let frame = encode r; offset = size_of w; (e, f1) = os_write frame (f w) in
      if e then (Inl ErrWrite, w\<lparr>f := f1\<rparr>)
      else let (e, f2) = os_sync f1 in
        if e then (Inl ErrSync, w\<lparr>f := f2\<rparr>)
        else (Inr offset, w\<lparr>f := f2, size_of := size_of w + length frame\<rparr>))"

definition WAL_Truncate :: "WAL \<Rightarrow> nat \<Rightarrow> wal_error option \<times> WAL" where
  "WAL_Truncate w n =
     (if size_of w < n then (Some ErrTruncateSize, w)
      else let (e, f1) = os_truncate n (f w) in
        if e then (Some ErrTruncate, w\<lparr>f := f1\<rparr>)
        else let (e, f2) = os_sync f1 in
          if e then (Some ErrSync, w\<lparr>f := f2\<rparr>)
          else let (r, f3) = syncDir f2 in
            case r of Some x \<Rightarrow> (Some x, w\<lparr>f := f3\<rparr>)
            | None \<Rightarrow> (None, w\<lparr>f := f3, size_of := n\<rparr>))"

definition WAL_Size :: "WAL \<Rightarrow> nat" where
  "WAL_Size w = size_of w"

definition WAL_Close :: "WAL \<Rightarrow> wal_error option \<times> WAL" where
  "WAL_Close w = (let (e, f1) = os_call (f w) in
     ((if e then Some ErrClose else None), w\<lparr>f := f1\<lparr>is_closed := True\<rparr>\<rparr>))"

subsection \<open>Reading a whole log\<close>

text \<open>What \<^const>\<open>ReadAll\<close> returns for a log that holds exactly the given records.\<close>

definition log_result :: "Record list \<Rightarrow> bool \<Rightarrow> ReadResult" where
  "log_result rs torn = \<lparr>Records = map sanitize_record rs, Offsets = offsets_from 0 rs,
     ValidBytes = frames_len rs, Truncated = torn\<rparr>"

lemma push_all_empty: "push_all rs empty_result = log_result rs False"
  by (simp add: push_all_def empty_result_def log_result_def)

lemma ReadAll_frames:
  "\<forall>r \<in> set rs. fits r \<Longrightarrow> ReadAll (Bytes (frames rs) False) = (log_result rs False, None)"
  using read_loop_frames [of rs "[]" False empty_result]
  by (simp add: ReadAll_def read_loop_clean push_all_empty)

lemma ReadAll_torn:
  assumes "\<forall>r \<in> set rs. fits r" and "fits r" and "k < length (encode r)"
  shows "ReadAll (Bytes (frames rs @ take k (encode r)) False) = (log_result rs (0 < k), None)"
  using read_loop_frames [OF assms(1), of "take k (encode r)" False empty_result]
  by (simp add: ReadAll_def read_loop_torn [OF assms(2,3)] push_all_empty)
     (simp add: log_result_def)

subsection \<open>Repairing any file\<close>

text \<open>
  The intact frame a byte sequence starts with, if any: its record and payload length. The
  reader's loop is "while there is one, take it".
\<close>

definition next_frame :: "string \<Rightarrow> (Record \<times> nat) option" where
  "next_frame bs =
     (let len = unat (get_u32 (take headerSize bs)); crc = get_u32 (drop 4 (take headerSize bs)) in
      if headerSize \<le> length bs \<and> len \<le> maxRecordSize \<and> headerSize + len \<le> length bs then
        (case decodePayload (take len (drop headerSize bs)) crc of
           Inl _ \<Rightarrow> None | Inr r \<Rightarrow> Some (r, len))
      else None)"

lemma next_frame_length: "next_frame bs = Some (r, n) \<Longrightarrow> headerSize + n \<le> length bs"
  by (auto simp: next_frame_def Let_def split: if_splits sum.splits)

lemma next_frame_Some:
  assumes "next_frame bs = Some (r, n)"
  shows "n = unat (get_u32 (take headerSize bs))" and "headerSize + n \<le> length bs" and "n \<le> maxRecordSize"
    and "decodePayload (take n (drop headerSize bs)) (get_u32 (drop 4 (take headerSize bs))) = Inr r"
  using assms by (auto simp: next_frame_def Let_def split: if_splits sum.splits)

lemma next_frame_take:
  assumes "next_frame bs = Some (r, n)" and "headerSize + n \<le> m"
  shows "next_frame (take m bs) = Some (r, n)"
proof -
  note nf = next_frame_Some [OF assms(1)]
  have h: "take headerSize (take m bs) = take headerSize bs"
    and p: "take n (drop headerSize (take m bs)) = take n (drop headerSize bs)"
    using assms(2) by (simp_all add: drop_take min_def)
  have "headerSize + n \<le> length (take m bs)" using nf(2) assms(2) by simp
  with nf show ?thesis unfolding next_frame_def Let_def h by (simp only: p nf(1) [symmetric]) simp
qed

lemma read_loop_next:
  assumes "next_frame bs = Some (r, n)"
  shows "read_loop bs e res = read_loop (drop (headerSize + n) bs) e (push_record r n res)"
proof -
  note nf = next_frame_Some [OF assms]
  have "readFull headerSize bs e = Inr (take headerSize bs, drop headerSize bs)"
    and "readFull n (drop headerSize bs) e =
      Inr (take n (drop headerSize bs), drop (headerSize + n) bs)"
    using nf(2) by (simp_all add: readFull_def add.commute)
  with nf(3,4) show ?thesis
    by (subst read_loop.simps) (simp only: nf(1) [symmetric] Let_def sum.case prod.case not_less if_False flip: not_less)
qed

lemma read_loop_stop:
  "next_frame bs = None \<Longrightarrow>
   read_loop bs False res = (if bs = [] then res else res\<lparr>Truncated := True\<rparr>, None)"
  by (subst read_loop.simps)
     (auto simp: next_frame_def Let_def readFull_def headerSize_def split: if_splits sum.splits)

text \<open>
  Reading, cutting the file at \<^verbatim>\<open>ValidBytes\<close> and reading again gives the same records at the
  same offsets, and this time a clean end: whatever the bytes were.
\<close>

lemma read_loop_repair:
  assumes "read_loop bs False res = (res', err)"
  shows "err = None \<and> ValidBytes res \<le> ValidBytes res' \<and>
    ValidBytes res' - ValidBytes res \<le> length bs \<and>
    read_loop (take (ValidBytes res' - ValidBytes res) bs) False res =
      (res'\<lparr>Truncated := Truncated res\<rparr>, None)"
  using assms
proof (induction bs arbitrary: res rule: length_induct)
  case (1 bs)
  show ?case
  proof (cases "next_frame bs")
    case None
    with "1.prems" show ?thesis
      by (auto simp: read_loop_stop read_loop_clean split: if_splits)
  next
    case (Some a)
    then obtain r n where nf: "next_frame bs = Some (r, n)" by (cases a) auto
    let ?k = "headerSize + n" and ?res = "push_record r n res"
    let ?d = "ValidBytes res' - ValidBytes ?res"
    have k: "?k \<le> length bs" "0 < ?k" using next_frame_length [OF nf] by (simp_all add: headerSize_def)
    have v: "ValidBytes ?res = ValidBytes res + ?k" by (simp add: push_record_def)
    have "read_loop (drop ?k bs) False ?res = (res', err)" using "1.prems" nf by (simp add: read_loop_next)
    with k "1.IH" have IH: "err = None" "ValidBytes ?res \<le> ValidBytes res'"
        "?d \<le> length (drop ?k bs)"
        "read_loop (take ?d (drop ?k bs)) False ?res = (res'\<lparr>Truncated := Truncated ?res\<rparr>, None)"
      by (metis diff_less length_drop less_le_trans)+
    have t: "ValidBytes res' - ValidBytes res = ?k + ?d" using IH(2) v by simp
    have "next_frame (take (?k + ?d) bs) = Some (r, n)" using nf by (rule next_frame_take) simp
    then have "read_loop (take (?k + ?d) bs) False res =
        read_loop (take ?d (drop ?k bs)) False ?res"
      by (simp add: read_loop_next drop_take)
    also have "\<dots> = (res'\<lparr>Truncated := Truncated res\<rparr>, None)"
      using IH(4) by (simp add: push_record_def)
    finally have "read_loop (take (ValidBytes res' - ValidBytes res) bs) False res =
        (res'\<lparr>Truncated := Truncated res\<rparr>, None)"
      by (simp only: t)
    moreover have "?d + ?k \<le> length bs" using IH(3) k by simp
    moreover have "ValidBytes res \<le> ValidBytes res'" using IH(2) v by linarith
    moreover have "ValidBytes res' - ValidBytes res \<le> length bs"
      using \<open>?d + ?k \<le> length bs\<close> t by linarith
    ultimately show ?thesis using IH(1) by blast
  qed
qed

lemma ReadAll_repair:
  assumes "ReadAll (Bytes bs False) = (res, err)"
  shows "err = None \<and> ValidBytes res \<le> length bs \<and>
    ReadAll (Bytes (take (ValidBytes res) bs) False) = (res\<lparr>Truncated := False\<rparr>, None)"
  using read_loop_repair [of bs empty_result res err] assms
  by (simp add: ReadAll_def empty_result_def)

text \<open>\<^const>\<open>TruncateTo\<close> on success has cut the file and made the cut durable.\<close>

lemma TruncateTo_ok:
  assumes "TruncateTo fl n = (None, fl')" and "n \<le> length (cached fl)"
  shows "cached fl' = take n (cached fl) \<and> synced fl'"
  using assms
  by (auto simp: TruncateTo_def syncDir_def synced_def split: prod.splits if_splits
        dest!: os_call_cases os_sync_cases os_truncate_cases)

subsection \<open>Appending and truncating\<close>

text \<open>
  \<open>wal_holds w rs\<close>: the file holds exactly the frames of \<open>rs\<close>, all of it on the disk, and
  \<open>size_of\<close> is its length. Every successful operation establishes it again.
\<close>

definition wal_holds :: "WAL \<Rightarrow> Record list \<Rightarrow> bool" where
  "wal_holds w rs \<longleftrightarrow> cached (f w) = frames rs \<and> synced (f w) \<and> size_of w = frames_len rs"

lemma wal_append_ok:
  assumes "wal_holds w rs" and "WAL_Append w r = (Inr off, w')"
  shows "wal_holds w' (rs @ [r]) \<and> off = frames_len rs"
  using assms
  by (auto simp: wal_holds_def WAL_Append_def Let_def synced_def split: prod.splits if_splits
        dest!: os_sync_cases elim!: os_write_cases)

lemma wal_truncate_ok:
  assumes "wal_holds w rs" and "WAL_Truncate w (frames_len (take k rs)) = (None, w')"
  shows "wal_holds w' (take k rs)"
proof -
  have le: "frames_len (take k rs) \<le> length (cached (f w))"
    using assms(1) unfolding wal_holds_def frames_len_def
    by (metis append_take_drop_id frames_simps(3) le_add1 length_append)
  have "take (frames_len (take k rs)) (frames rs) = frames (take k rs)"
    unfolding frames_len_def by (metis append_eq_conv_conj append_take_drop_id frames_simps(3))
  with assms le show ?thesis
    by (auto simp: wal_holds_def WAL_Truncate_def syncDir_def synced_def
          split: prod.splits if_splits option.splits
          dest!: os_call_cases os_sync_cases os_truncate_cases)
qed

lemma wal_append_no_faults:
  assumes "faults (f w) = []" and "\<not> is_closed (f w)"
  shows "\<exists>w'. WAL_Append w r = (Inr (size_of w), w')"
  using assms by (auto simp: WAL_Append_def Let_def)

text \<open>
  A failed append: the cached file has gained part of the frame, and a crash now leaves the
  old records, possibly followed by the new one or by a torn part of it.
\<close>

lemma wal_append_failed:
  assumes "wal_holds w rs" and "WAL_Append w r = (Inl e, w')"
  shows "\<exists>k. cached (f w') = frames rs @ take k (encode r) \<and> durable (f w') = frames rs \<and>
    size_of w' = frames_len rs"
proof -
  obtain e1 f1 where w1: "os_write (encode r) (f w) = (e1, f1)" by fastforce
  obtain k where k: "cached f1 = cached (f w) @ take k (encode r)" "durable f1 = durable (f w)"
      "\<not> e1 \<Longrightarrow> cached f1 = cached (f w) @ encode r"
    using os_write_cases [OF w1] by metis
  show ?thesis
  proof (cases e1)
    case True
    with assms w1 k show ?thesis by (auto simp: WAL_Append_def wal_holds_def synced_def Let_def)
  next
    case False
    with assms w1 k show ?thesis
      by (intro exI [of _ "length (encode r)"])
         (auto simp: WAL_Append_def wal_holds_def synced_def Let_def split: prod.splits if_splits
            dest!: os_sync_cases)
  qed
qed

lemma crash_after_prefix:
  assumes "cached fl = frames rs @ t" and "durable fl = frames rs" and "crash_content fl c"
  obtains k where "c = frames rs @ take k t"
proof -
  from assms consider "c = frames rs" | k where "length (frames rs) \<le> k" "c = take k (frames rs @ t)"
    by (auto simp: crash_content_def)
  then show thesis by cases (auto intro: that [of 0] that)
qed

text \<open>
  So a log survives a power cut at any point of an append: after the repair it holds the
  old records, or the old records and the new one, and the latter always if the append had
  succeeded.
\<close>

lemma wal_crash_append:
  assumes "wal_holds w rs" and "WAL_Append w r = (res, w')" and "crash_content (f w') c"
    and "\<forall>r \<in> set (rs @ [r]). fits r"
  shows "\<exists>rr. ReadAll (Bytes c False) = (rr, None) \<and>
    (Records rr = map sanitize_record rs \<or> Records rr = map sanitize_record (rs @ [r])) \<and>
    (\<forall>off. res = Inr off \<longrightarrow> Records rr = map sanitize_record (rs @ [r]) \<and> \<not> Truncated rr)"
proof (cases res)
  case (Inr off)
  with assms have "wal_holds w' (rs @ [r])" using wal_append_ok by blast
  with assms(3) have "c = frames (rs @ [r])" by (simp add: wal_holds_def crash_synced)
  with ReadAll_frames [OF assms(4)] show ?thesis by (simp add: log_result_def)
next
  case (Inl e)
  with wal_append_failed assms obtain k where k: "cached (f w') = frames rs @ take k (encode r)"
      "durable (f w') = frames rs" by blast
  then obtain m where c: "c = frames rs @ take m (take k (encode r))"
    using crash_after_prefix assms(3) by metis
  define n where "n = min m k"
  have c': "c = frames rs @ take n (encode r)" using c by (simp add: n_def min.commute)
  show ?thesis
  proof (cases "n < length (encode r)")
    case True
    with c' ReadAll_torn [of rs r n] assms(4) Inl show ?thesis by (simp add: log_result_def)
  next
    case False
    with c' have "c = frames (rs @ [r])" by simp
    with ReadAll_frames [OF assms(4)] Inl show ?thesis by (simp add: log_result_def)
  qed
qed

subsection \<open>A failed append that is not undone\<close>

text \<open>
  \<^const>\<open>WAL_Append\<close> leaves a partly written frame in the file when the write fails, and
  later appends go behind it. Recovery stops at the torn frame, so it drops records whose
  append succeeded.
\<close>

definition wal_fresh :: "io list \<Rightarrow> WAL" where
  "wal_fresh fs = \<lparr>f = \<lparr>cached = [], durable = [], is_closed = False, faults = fs\<rparr>, size_of = 0\<rparr>"

lemma wal_holds_fresh: "wal_holds (wal_fresh fs) []"
  by (simp add: wal_holds_def wal_fresh_def synced_def)

lemma marshal_record_nonempty: "0 < length (marshal_record r)"
  by (simp add: marshal_record_def render_obj_def)

lemma put_u32_small: "n < 256 \<Longrightarrow> put_u32 (of_nat n) = [CHR 0x00, CHR 0x00, CHR 0x00, char_of n]"
  by (simp add: put_u32_def Let_def unat_of_nat char_of_eq_iff)

lemma crc32_Nil: "crc32 [] = 0"
  by (simp add: crc32_def)

lemma byte_shift_bound: "x < m \<Longrightarrow> d < 256 \<Longrightarrow> x * 256 + d < m * (256 :: nat)"
  using mult_le_mono1 [of "Suc x" m 256] by simp

lemma be32_bound:
  "a < 256 \<Longrightarrow> b < 256 \<Longrightarrow> c < 256 \<Longrightarrow> d < (256 :: nat) \<Longrightarrow>
   ((a * 256 + b) * 256 + c) * 256 + d < 4294967296"
  using byte_shift_bound [OF byte_shift_bound [OF byte_shift_bound [of a 256 b], of c], of d]
  by simp

lemma get_u32_leading:
  assumes "c \<noteq> CHR 0x00"
  shows "get_u32 [c, x, y, z] \<noteq> 0"
proof
  let ?n = "((byte c * 256 + byte x) * 256 + byte y) * 256 + byte z"
  have "byte c \<noteq> byte (CHR 0x00)" using assms by (simp only: of_char_eq_iff not_False_eq_True)
  then have pos: "0 < ?n" by simp
  have "?n < 4294967296"
    by (rule be32_bound) simp_all
  moreover assume "get_u32 [c, x, y, z] = 0"
  then have "unat (of_nat ?n :: u32) = 0" by (simp add: get_u32_def)
  ultimately show False using pos by (simp add: unat_of_nat del: of_nat_add of_nat_mult)
qed

lemma wal_partial_write_loses_record:
  assumes "length (marshal_record r1) < 256" and "length (marshal_record r2) < 256"
  defines "w1 \<equiv> snd (WAL_Append (wal_fresh [IoFail 1]) r1)"
  shows "fst (WAL_Append (wal_fresh [IoFail 1]) r1) = Inl ErrWrite \<and>
    fst (WAL_Append w1 r2) = Inr 0 \<and>
    ReadAll (Bytes (durable (f (snd (WAL_Append w1 r2)))) False) =
      (empty_result\<lparr>Truncated := True\<rparr>, None)"
proof -
  let ?n = "length (marshal_record r2)"
  obtain c3 c2 c1 c0 where crc: "put_u32 (crc32 (marshal_record r2)) = [c3, c2, c1, c0]"
    by (simp add: put_u32_def Let_def)
  have enc2: "encode r2 = [CHR 0x00, CHR 0x00, CHR 0x00, char_of ?n, c3, c2, c1, c0] @ marshal_record r2"
    using assms(2) by (simp add: encode_def Let_def put_u32_small crc)
  have enc1: "take 1 (encode r1) = [CHR 0x00]"
    using assms(1) by (simp add: encode_def Let_def put_u32_small)
  have "char_of ?n \<noteq> CHR 0x00"
    using assms(2) marshal_record_nonempty [of r2]
    by (simp add: char_of_eq_iff take_bit_eq_mod)
  then have bad: "get_u32 [char_of ?n, c3, c2, c1] \<noteq> 0" by (rule get_u32_leading)
  have "read_loop ([CHR 0x00] @ encode r2) False res = (res\<lparr>Truncated := True\<rparr>, None)" for res
    using bad by (subst read_loop_stop)
      (simp_all add: next_frame_def enc2 headerSize_def Let_def get_u32_def decodePayload_def crc32_Nil)
  then show ?thesis
    using enc1 unfolding w1_def
    by (simp add: WAL_Append_def wal_fresh_def os_write_def os_sync_def next_io_def Let_def ReadAll_def)
qed

subsection \<open>The contract the Raft log relies on\<close>

text \<open>
  A client that keeps the appended records in memory, with a dummy first entry and the
  offset each append returned, needs two laws of the file: what a successful append and a
  successful truncation to one of these offsets make it hold.
\<close>

definition mirrors :: "('w \<Rightarrow> Record list \<Rightarrow> bool) \<Rightarrow> (Record list \<Rightarrow> nat) \<Rightarrow> 'w \<Rightarrow> Record list \<Rightarrow> nat list \<Rightarrow> bool" where
  "mirrors holds pos w es offs \<longleftrightarrow> es \<noteq> [] \<and> length offs = length es \<and> holds w (tl es) \<and>
     (\<forall>i. 0 < i \<and> i < length es \<longrightarrow> offs ! i = pos (take (i - 1) (tl es)))"

locale record_file =
  fixes app :: "'w \<Rightarrow> Record \<Rightarrow> ('e + nat) \<times> 'w"
    and trunc :: "'w \<Rightarrow> nat \<Rightarrow> 'e option \<times> 'w"
    and holds :: "'w \<Rightarrow> Record list \<Rightarrow> bool"
    and pos :: "Record list \<Rightarrow> nat"
  assumes app_ok: "holds w rs \<Longrightarrow> app w r = (Inr off, w') \<Longrightarrow> holds w' (rs @ [r]) \<and> off = pos rs"
    and trunc_ok: "holds w rs \<Longrightarrow> trunc w (pos (take k rs)) = (None, w') \<Longrightarrow> holds w' (take k rs)"
begin

lemma mirrors_store:
  assumes "mirrors holds pos w es offs" and "app w r = (Inr off, w')"
  shows "mirrors holds pos w' (es @ [r]) (offs @ [off])"
proof -
  from assms(1) have m: "es \<noteq> []" "length offs = length es" "holds w (tl es)"
      "\<And>i. 0 < i \<Longrightarrow> i < length es \<Longrightarrow> offs ! i = pos (take (i - 1) (tl es))"
    by (auto simp: mirrors_def)
  have h: "holds w' (tl es @ [r])" "off = pos (tl es)" using app_ok [OF m(3) assms(2)] by auto
  have "(offs @ [off]) ! i = pos (take (i - 1) (tl es @ [r]))" if "0 < i" "i < length es + 1" for i
    using that m(2,4) h(2) by (cases "i = length es") (auto simp: nth_append)
  with m h show ?thesis by (simp add: mirrors_def)
qed

lemma mirrors_truncate:
  assumes "mirrors holds pos w es offs" and "0 < k" and "k < length es"
    and "trunc w (offs ! k) = (None, w')"
  shows "mirrors holds pos w' (take k es) (take k offs)"
proof -
  from assms have m: "es \<noteq> []" "length offs = length es" "holds w (tl es)"
      "\<And>i. 0 < i \<Longrightarrow> i < length es \<Longrightarrow> offs ! i = pos (take (i - 1) (tl es))"
    by (auto simp: mirrors_def)
  have tl: "tl (take k es) = take (k - 1) (tl es)" by (simp add: tl_take)
  have "holds w' (take (k - 1) (tl es))"
    using trunc_ok [OF m(3)] assms m(4) by simp
  with m assms(2,3) show ?thesis
    by (auto simp: mirrors_def tl min_absorb1 min_absorb2)
qed

end

interpretation wal: record_file WAL_Append WAL_Truncate wal_holds frames_len
  by unfold_locales (blast dest: wal_append_ok intro: wal_truncate_ok)+

end
