(* ===== verification/Raft_Log.thy ===== *)
theory Raft_Log
  imports Wal
begin

text \<open>
  \<^verbatim>\<open>src/internal/raft/log.go\<close>: the replicated log of one node, in memory and (when it
  has a file) on disk. The theorems: well-formedness (entry \<open>i\<close> has index \<open>i\<close>), the
  functional behaviour of the follower's conflict repair against a specification on plain
  lists, the consequences Raft needs from it (matching prefixes stay, duplicates change
  nothing), and that memory and file stay the same list, so that a restart recovers it.
\<close>

record Log =
  entries :: "Record list"
  offsets :: "nat list"
  w :: "WAL option"      \<comment> \<open>\<^verbatim>\<open>nil\<close> for an in-memory log\<close>

definition sentinel :: Record where
  "sentinel = zero_record"

definition NewLog :: Log where
  "NewLog = \<lparr>entries = [sentinel], offsets = [0], w = None\<rparr>"

datatype log_error = ErrReadLog wal_error | ErrRepairLog wal_error | ErrOpenLog wal_error
  | ErrBadIndex u64 u64 | ErrPersist u64 wal_error | ErrTruncateAt u64 wal_error

text \<open>The loop of \<^verbatim>\<open>OpenLog\<close>: the stored index must be the position.\<close>

fun load_records :: "nat \<Rightarrow> Record list \<Rightarrow> nat list \<Rightarrow> Log \<Rightarrow> log_error + Log" where
  "load_records i [] offs l = Inr l"
| "load_records i (r # rs) offs l =
     (if Index r \<noteq> of_nat (i + 1) then Inl (ErrBadIndex (of_nat (i + 1)) (Index r))
      else load_records (i + 1) rs offs
        (l\<lparr>entries := entries l @ [r], offsets := offsets l @ [offs ! i]\<rparr>))"

definition OpenLog :: "bool \<Rightarrow> os_file \<Rightarrow> log_error + Log" where
  "OpenLog exists fl =
     (let (src, fl) = source_of exists fl; (res, err) = ReadAll src in
      case err of Some e \<Rightarrow> Inl (ErrReadLog e) | None \<Rightarrow>
        (let (rep, fl) = (if Truncated res then TruncateTo fl (ValidBytes res) else (None, fl)) in
         case rep of Some e \<Rightarrow> Inl (ErrRepairLog e) | None \<Rightarrow>
           (case WAL_Open fl of Inl e \<Rightarrow> Inl (ErrOpenLog e) | Inr wl \<Rightarrow>
              load_records 0 (Records res) (Offsets res)
                \<lparr>entries = [sentinel], offsets = [0], w = Some wl\<rparr>)))"

definition Log_Close :: "Log \<Rightarrow> wal_error option \<times> Log" where
  "Log_Close l = (case w l of
     None \<Rightarrow> (None, l)
   | Some wl \<Rightarrow> (let (e, wl') = WAL_Close wl in (e, l\<lparr>w := Some wl'\<rparr>)))"

definition LastIndex :: "Log \<Rightarrow> u64" where
  "LastIndex l = Index (last (entries l))"

definition LastTerm :: "Log \<Rightarrow> u64" where
  "LastTerm l = Term (last (entries l))"

text \<open>\<^verbatim>\<open>uint64(len(l.entries))\<close>.\<close>

definition len64 :: "Log \<Rightarrow> u64" where
  "len64 l = of_nat (length (entries l))"

definition At :: "Log \<Rightarrow> u64 \<Rightarrow> Record option" where
  "At l i = (if i = 0 \<or> len64 l \<le> i then None else Some (entries l ! unat i))"

text \<open>Disk first, then memory.\<close>

definition storeLocked :: "Log \<Rightarrow> Record \<Rightarrow> log_error option \<times> Log" where
  "storeLocked l e = (case w l of
     None \<Rightarrow> (None, l\<lparr>entries := entries l @ [e], offsets := offsets l @ [0]\<rparr>)
   | Some wl \<Rightarrow>
       (case WAL_Append wl e of
          (Inl x, wl') \<Rightarrow> (Some (ErrPersist (Index e) x), l\<lparr>w := Some wl'\<rparr>)
        | (Inr off, wl') \<Rightarrow>
            (None, l\<lparr>entries := entries l @ [e], offsets := offsets l @ [off], w := Some wl'\<rparr>)))"

definition truncateLocked :: "Log \<Rightarrow> u64 \<Rightarrow> log_error option \<times> Log" where
  "truncateLocked l i = (case w l of
     None \<Rightarrow> (None, l\<lparr>entries := take (unat i) (entries l), offsets := take (unat i) (offsets l)\<rparr>)
   | Some wl \<Rightarrow>
       (case WAL_Truncate wl (offsets l ! unat i) of
          (Some x, wl') \<Rightarrow> (Some (ErrTruncateAt i x), l\<lparr>w := Some wl'\<rparr>)
        | (None, wl') \<Rightarrow>
            (None, l\<lparr>entries := take (unat i) (entries l), offsets := take (unat i) (offsets l),
                     w := Some wl'\<rparr>)))"

text \<open>The leader's append: the entries stored so far, the error that stopped it if any.\<close>

fun Log_Append :: "Log \<Rightarrow> u64 \<Rightarrow> Record list \<Rightarrow> Record list \<times> log_error option \<times> Log" where
  "Log_Append l t [] = ([], None, l)"
| "Log_Append l t (c # cs) =
     (let c' = c\<lparr>Term := t, Index := LastIndex l + 1\<rparr> in
      case storeLocked l c' of
        (Some e, l') \<Rightarrow> ([], Some e, l')
      | (None, l') \<Rightarrow> (let (stored, e, l'') = Log_Append l' t cs in (c' # stored, e, l'')))"

definition EntriesFrom :: "Log \<Rightarrow> u64 \<Rightarrow> Record list" where
  "EntriesFrom l i =
     (let i = (if i = 0 then 1 else i) in
      if len64 l \<le> i then [] else drop (unat i) (entries l))"

definition Match :: "Log \<Rightarrow> u64 \<Rightarrow> u64 \<Rightarrow> bool" where
  "Match l prevIndex prevTerm \<longleftrightarrow>
     \<not> len64 l \<le> prevIndex \<and> Term (entries l ! unat prevIndex) = prevTerm"

text \<open>The loop of \<^verbatim>\<open>AppendAfter\<close> from its \<open>i\<close>-th round on.\<close>

fun append_loop :: "Log \<Rightarrow> u64 \<Rightarrow> nat \<Rightarrow> Record list \<Rightarrow> (log_error + bool) \<times> Log" where
  "append_loop l prevIndex i [] = (Inr True, l)"
| "append_loop l prevIndex i (e # es) =
     (let idx = prevIndex + 1 + of_nat i in
      if idx < len64 l \<and> Term (entries l ! unat idx) = Term e
      then append_loop l prevIndex (i + 1) es
      else
        (case (if idx < len64 l then truncateLocked l idx else (None, l)) of
           (Some x, l1) \<Rightarrow> (Inl x, l1)
         | (None, l1) \<Rightarrow>
             (case storeLocked l1 e of
                (Some x, l2) \<Rightarrow> (Inl x, l2)
              | (None, l2) \<Rightarrow> append_loop l2 prevIndex (i + 1) es)))"

definition AppendAfter :: "Log \<Rightarrow> u64 \<Rightarrow> u64 \<Rightarrow> Record list \<Rightarrow> (log_error + bool) \<times> Log" where
  "AppendAfter l prevIndex prevTerm es =
     (if \<not> Match l prevIndex prevTerm then (Inr False, l)
      else append_loop l prevIndex 0 es)"

definition Log_Len :: "Log \<Rightarrow> nat" where
  "Log_Len l = length (entries l) - 1"

subsection \<open>Well-formed logs\<close>

text \<open>
  Entry \<open>i\<close> has index \<open>i\<close>, the first is the sentinel, and the length is one a Go slice can
  have, so positions fit in 64 bits.
\<close>

definition slice_max :: nat where
  "slice_max = 2 ^ 63"

definition indexed :: "Record list \<Rightarrow> bool" where
  "indexed es \<longleftrightarrow> es \<noteq> [] \<and> es ! 0 = sentinel \<and> length es < slice_max \<and>
     (\<forall>i < length es. Index (es ! i) = of_nat i)"

definition log_wf :: "Log \<Rightarrow> bool" where
  "log_wf l \<longleftrightarrow> indexed (entries l) \<and> length (offsets l) = length (entries l)"

lemma slice_max_u64: "n < slice_max \<Longrightarrow> n < 2 ^ 64"
  by (simp add: slice_max_def)

lemma indexed_length: "indexed es \<Longrightarrow> length es < 2 ^ 64"
  by (simp add: indexed_def slice_max_def)

lemma indexed_nonempty: "indexed es \<Longrightarrow> 0 < length es"
  by (simp add: indexed_def)

lemma indexed_snoc:
  "indexed es \<Longrightarrow> Suc (length es) < slice_max \<Longrightarrow> Index e = of_nat (length es) \<Longrightarrow> indexed (es @ [e])"
  by (auto simp: indexed_def nth_append less_Suc_eq)

lemma indexed_take: "indexed es \<Longrightarrow> 0 < k \<Longrightarrow> indexed (take k es)"
  by (auto simp: indexed_def min_def)

lemma indexed_last: "indexed es \<Longrightarrow> Index (last es) = of_nat (length es - 1)"
  by (simp add: indexed_def last_conv_nth)

lemma log_wf_NewLog: "log_wf NewLog"
  by (simp add: slice_max_def log_wf_def indexed_def NewLog_def sentinel_def zero_record_def)

lemma LastIndex_wf: "log_wf l \<Longrightarrow> LastIndex l + 1 = of_nat (length (entries l))"
  using indexed_nonempty [of "entries l"]
  by (simp add: log_wf_def LastIndex_def indexed_last of_nat_Suc_u64 del: of_nat_Suc)

lemma LastIndex_Log_Len: "log_wf l \<Longrightarrow> unat (LastIndex l) = Log_Len l"
proof -
  assume "log_wf l"
  then have "indexed (entries l)" by (simp add: log_wf_def)
  then have "length (entries l) - 1 < 2 ^ 64" and "Index (last (entries l)) = of_nat (length (entries l) - 1)"
    using indexed_length indexed_last by (fastforce, blast)
  then show ?thesis by (simp only: LastIndex_def Log_Len_def unat_of_nat_u64)
qed

lemma At_wf:
  assumes "log_wf l"
  shows "At l i = (if 0 < unat i \<and> unat i < length (entries l) then Some (entries l ! unat i) else None)"
  using indexed_length [of "entries l"] assms
  by (auto simp: At_def len64_def log_wf_def of_nat_le_u64 unat_gt_0)

lemma At_index: "log_wf l \<Longrightarrow> At l i = Some e \<Longrightarrow> Index e = i"
  by (auto simp: At_wf log_wf_def indexed_def split: if_splits)

lemma Match_wf:
  "log_wf l \<Longrightarrow>
   Match l p t \<longleftrightarrow> unat p < length (entries l) \<and> Term (entries l ! unat p) = t"
  using indexed_length [of "entries l"]
  by (auto simp: Match_def len64_def log_wf_def of_nat_le_u64)

lemma Match_sentinel: "log_wf l \<Longrightarrow> Match l 0 0"
  by (auto simp: Match_wf log_wf_def indexed_def sentinel_def zero_record_def)

lemma EntriesFrom_wf:
  "log_wf l \<Longrightarrow> EntriesFrom l i = drop (max 1 (unat i)) (entries l)"
  using indexed_length [of "entries l"]
  by (auto simp: EntriesFrom_def Let_def len64_def log_wf_def of_nat_le_u64 max_def
        Suc_le_eq unat_gt_0)

subsection \<open>Appending\<close>

text \<open>A log without a file, or one whose file meets no fault, never fails to store.\<close>

lemma storeLocked_cases:
  assumes "storeLocked l e = (r, l')"
  shows "(r = None \<and> entries l' = entries l @ [e] \<and> length (offsets l') = Suc (length (offsets l))) \<or>
    (r \<noteq> None \<and> entries l' = entries l \<and> offsets l' = offsets l)"
  using assms
  by (auto simp: storeLocked_def split: option.splits prod.splits sum.splits)

lemma truncateLocked_cases:
  assumes "truncateLocked l i = (r, l')"
  shows "(r = None \<and> entries l' = take (unat i) (entries l) \<and> offsets l' = take (unat i) (offsets l)) \<or>
    (r \<noteq> None \<and> entries l' = entries l \<and> offsets l' = offsets l)"
  using assms
  by (auto simp: truncateLocked_def split: option.splits prod.splits)

lemma storeLocked_wf:
  assumes "log_wf l" and "storeLocked l e = (r, l')"
    and "Index e = of_nat (length (entries l))" and "Suc (length (entries l)) < slice_max"
  shows "log_wf l'"
  using storeLocked_cases [OF assms(2)] assms by (auto simp: log_wf_def intro: indexed_snoc)

lemma truncateLocked_wf:
  "log_wf l \<Longrightarrow> truncateLocked l i = (r, l') \<Longrightarrow> 0 < unat i \<Longrightarrow> log_wf l'"
  using truncateLocked_cases [of l i r l'] by (auto simp: log_wf_def intro: indexed_take)

text \<open>The stamped copies of the commands: the term given, consecutive indices from \<open>n\<close> on.\<close>

fun stamp :: "u64 \<Rightarrow> nat \<Rightarrow> Record list \<Rightarrow> Record list" where
  "stamp trm n [] = []"
| "stamp trm n (c # cs) = c\<lparr>Term := trm, Index := of_nat n\<rparr> # stamp trm (Suc n) cs"

lemma Log_Append_spec:
  assumes "log_wf l" and "Log_Append l trm cs = (stored, e, l')"
    and "length (entries l) + length cs < slice_max"
  shows "log_wf l' \<and> entries l' = entries l @ stored \<and>
    stored = take (length stored) (stamp trm (length (entries l)) cs) \<and>
    (e = None \<longrightarrow> stored = stamp trm (length (entries l)) cs)"
  using assms
proof (induction l trm cs arbitrary: stored e l' rule: Log_Append.induct)
  case (2 l trm c cs)
  let ?c = "c\<lparr>Term := trm, Index := LastIndex l + 1\<rparr>"
  have idx: "LastIndex l + 1 = of_nat (length (entries l))" using "2.prems"(1) by (rule LastIndex_wf)
  obtain r l1 where s: "storeLocked l ?c = (r, l1)" by fastforce
  note sc = storeLocked_cases [OF s]
  have wf: "log_wf l1" using storeLocked_wf [OF "2.prems"(1) s] idx "2.prems"(3) by simp
  show ?case
  proof (cases r)
    case (Some x)
    with s "2.prems"(2) have "stored = []" "e = Some x" "l' = l1" by auto
    with Some sc wf show ?thesis by auto
  next
    case None
    obtain st e1 l2 where a: "Log_Append l1 trm cs = (st, e1, l2)" by (metis prod_cases3)
    have e1: "entries l1 = entries l @ [?c]" using sc None by simp
    have "log_wf l2 \<and> entries l2 = entries l1 @ st \<and>
        st = take (length st) (stamp trm (length (entries l1)) cs) \<and>
        (e1 = None \<longrightarrow> st = stamp trm (length (entries l1)) cs)"
      using "2.IH" [OF refl s [unfolded None, symmetric] refl wf a] e1 "2.prems"(3) None s by auto
    moreover have "stored = ?c # st" "e = e1" "l' = l2" using "2.prems"(2) s None a by (auto simp: Let_def)
    ultimately show ?thesis using e1 idx by simp
  qed
qed simp

subsection \<open>The follower's repair\<close>

text \<open>
  What \<^const>\<open>AppendAfter\<close> does, on plain lists: compare the new entries with ours from
  position \<open>k\<close> on; at the first term that differs drop ours from there; append what is
  left of the new ones.
\<close>

fun repair :: "nat \<Rightarrow> Record list \<Rightarrow> Record list \<Rightarrow> Record list" where
  "repair k es [] = es"
| "repair k es (e # new) =
     (if k < length es then
        (if Term (es ! k) = Term e then repair (Suc k) es new else take k es @ e # new)
      else es @ e # new)"

lemma repair_at_end: "k = length es \<Longrightarrow> repair k es new = es @ new"
  by (cases new) auto

lemma repair_take: "k \<le> length es \<Longrightarrow> take k (repair k es new) = take k es"
proof (induction k es new rule: repair.induct)
  case (2 k es e new)
  show ?case
  proof (cases "k < length es \<and> Term (es ! k) = Term e")
    case True
    with 2 have "take (Suc k) (repair (Suc k) es new) = take (Suc k) es" by simp
    then have "take k (take (Suc k) (repair (Suc k) es new)) = take k (take (Suc k) es)" by simp
    with True show ?thesis by (simp add: min_def)
  qed (use 2 in \<open>auto simp: min_def\<close>)
qed simp

lemma repair_length: "k \<le> length es \<Longrightarrow> k + length new \<le> length (repair k es new)"
  by (induction k es new rule: repair.induct) auto

lemma unat_idx:
  "unat p + 1 + i < 2 ^ 64 \<Longrightarrow> unat ((p :: u64) + 1 + of_nat i) = unat p + 1 + i"
proof -
  assume a: "unat p + 1 + i < 2 ^ 64"
  have "p + 1 + of_nat i = of_nat (unat p + 1 + i)" by simp
  then show ?thesis using unat_of_nat_u64 [OF a] by presburger
qed

text \<open>
  What a loop that started with \<open>es\<close> and should end with \<open>rep\<close> has left: on success \<open>rep\<close>,
  on an error still \<open>es\<close>, or a prefix of \<open>rep\<close>.
\<close>

definition loop_result :: "log_error + bool \<Rightarrow> Record list \<Rightarrow> Record list \<Rightarrow> Record list \<Rightarrow> bool" where
  "loop_result res es es' rep \<longleftrightarrow> (case res of Inr b \<Rightarrow> b \<and> es' = rep
     | Inl x \<Rightarrow> es' = es \<or> (\<exists>m. es' = take m rep))"

lemma loop_result_later:
  "loop_result res es2 es' rep \<Longrightarrow> es2 = take m rep \<Longrightarrow> loop_result res es es' rep"
  by (auto simp: loop_result_def split: sum.splits)

lemma append_loop_spec:
  assumes "log_wf l" and "append_loop l p i new = (res, l')"
    and "unat p + 1 + i \<le> length (entries l)"
    and "unat p + 1 + i + length new < slice_max"
    and "\<forall>j < length new. Index (new ! j) = of_nat (unat p + 1 + i + j)"
  shows "log_wf l' \<and> take (unat p + 1 + i) (entries l') = take (unat p + 1 + i) (entries l) \<and>
    loop_result res (entries l) (entries l') (repair (unat p + 1 + i) (entries l) new)"
  using assms
proof (induction l p i new arbitrary: res l' rule: append_loop.induct)
  case (1 l p i)
  then show ?case by (auto simp: loop_result_def)
next
  case (2 l p i e es)
  let ?k = "unat p + 1 + i" and ?idx = "p + 1 + of_nat i"
  have k64: "?k < 2 ^ 64" using "2.prems"(4) by (simp add: slice_max_def)
  have idx: "unat ?idx = ?k" by (rule unat_idx [OF k64])
  have len: "length (entries l) < 2 ^ 64" using "2.prems"(1) by (intro indexed_length) (simp add: log_wf_def)
  have lt: "?idx < len64 l \<longleftrightarrow> ?k < length (entries l)"
    using u64_less_of_nat [OF len, of ?idx] idx by (simp add: len64_def)
  have ix1: "Index e = of_nat ?k" using "2.prems"(5) [rule_format, of 0] by simp
  have ix2: "\<forall>j < length es. Index (es ! j) = of_nat (unat p + 1 + (i + 1) + j)"
    using "2.prems"(5) [rule_format, of "Suc j" for j] by simp
  have sl: "Suc ?k + length es < slice_max" using "2.prems"(4) by simp
  show ?case
  proof (cases "?k < length (entries l) \<and> Term (entries l ! ?k) = Term e")
    case True
    with "2.prems"(2) lt idx have run: "append_loop l p (i + 1) es = (res, l')" by (simp add: Let_def)
    have "log_wf l' \<and> take (unat p + 1 + (i + 1)) (entries l') = take (unat p + 1 + (i + 1)) (entries l) \<and>
      loop_result res (entries l) (entries l') (repair (unat p + 1 + (i + 1)) (entries l) es)"
      using True lt idx sl ix2 by (intro "2.IH"(1) [OF refl _ "2.prems"(1) run]) auto
    moreover from this have "take ?k (entries l') = take ?k (entries l)"
      by (auto intro: take_eq_mono)
    moreover have "repair ?k (entries l) (e # es) = repair (Suc ?k) (entries l) es" using True by simp
    ultimately show ?thesis by (simp del: repair.simps)
  next
    case False
    obtain r1 l1 where t: "(if ?idx < len64 l then truncateLocked l ?idx else (None, l)) = (r1, l1)" by fastforce
    have kle: "?k \<le> length (entries l)" using "2.prems"(3) .
    have l1: "log_wf l1 \<and> take ?k (entries l1) = take ?k (entries l) \<and>
        (r1 = None \<longrightarrow> entries l1 = take ?k (entries l)) \<and> (r1 \<noteq> None \<longrightarrow> entries l1 = entries l)"
      using t truncateLocked_cases [of l ?idx r1 l1] truncateLocked_wf [of l ?idx r1 l1] lt idx "2.prems"(1) kle
      by (auto split: if_splits)
    show ?thesis
    proof (cases r1)
      case (Some x)
      with "2.prems"(2) t False lt idx have "res = Inl x" "l' = l1" by (auto simp: Let_def)
      with l1 Some show ?thesis by (simp add: loop_result_def del: repair.simps)
    next
      case None
      obtain r2 l2 where st: "storeLocked l1 e = (r2, l2)" by fastforce
      have e1: "entries l1 = take ?k (entries l)" using l1 None by simp
      have len1: "length (entries l1) = ?k" using e1 kle by simp
      have wf2: "log_wf l2" using storeLocked_wf [of l1 e r2 l2] l1 st len1 ix1 sl by simp
      show ?thesis
      proof (cases r2)
        case (Some x)
        with "2.prems"(2) t None False lt idx st have "res = Inl x" "l' = l2" by (auto simp: Let_def)
        moreover have "entries l2 = take ?k (repair ?k (entries l) (e # es))"
          using storeLocked_cases [OF st] Some e1 kle by (simp only: repair_take) simp
        then have "\<exists>m. entries l2 = take m (repair ?k (entries l) (e # es))" by blast
        moreover have "take ?k (entries l2) = take ?k (entries l)"
          using storeLocked_cases [OF st] Some e1 by simp
        ultimately show ?thesis using wf2 by (simp add: loop_result_def del: repair.simps)
      next
        case N2: None
        with "2.prems"(2) t None False lt idx st have run: "append_loop l2 p (i + 1) es = (res, l')"
          by (auto simp: Let_def)
        have e2: "entries l2 = take ?k (entries l) @ [e]" using storeLocked_cases [OF st] N2 e1 by simp
        have len2: "length (entries l2) = Suc ?k" using e2 kle by simp
        have ih: "log_wf l' \<and> take (unat p + 1 + (i + 1)) (entries l') = take (unat p + 1 + (i + 1)) (entries l2) \<and>
          loop_result res (entries l2) (entries l') (repair (unat p + 1 + (i + 1)) (entries l2) es)"
          using False lt idx sl ix2 len2
          by (intro "2.IH"(2) [OF refl _ t [symmetric] None st [symmetric] N2 wf2 run]) auto
        then have "take ?k (entries l') = take ?k (entries l2)" by (auto intro: take_eq_mono)
        then have tk: "take ?k (entries l') = take ?k (entries l)" using e2 kle by (simp add: min_def)
        have "repair ?k (entries l) (e # es) = take ?k (entries l) @ e # es"
          using False kle by auto
        moreover have "repair (Suc ?k) (entries l2) es = entries l2 @ es" using len2 by (simp add: repair_at_end)
        ultimately have rep: "repair (Suc ?k) (entries l2) es = repair ?k (entries l) (e # es)"
          using e2 by simp
        have "entries l2 = take (Suc ?k) (repair ?k (entries l) (e # es))"
          using len2 unfolding rep [symmetric] by (simp add: repair_at_end)
        with ih have "loop_result res (entries l) (entries l') (repair ?k (entries l) (e # es))"
          unfolding rep [symmetric] by (auto intro: loop_result_later)
        with ih tk show ?thesis by blast
      qed
    qed
  qed
qed

text \<open>The whole handler call, given entries numbered the way a leader numbers them.\<close>

definition numbered_from :: "u64 \<Rightarrow> Record list \<Rightarrow> bool" where
  "numbered_from p new \<longleftrightarrow> (\<forall>j < length new. Index (new ! j) = of_nat (unat p + 1 + j))"

lemma AppendAfter_spec:
  assumes "log_wf l" and "AppendAfter l p t new = (res, l')"
    and "unat p + 1 + length new < slice_max" and "numbered_from p new"
  shows "log_wf l' \<and>
    (if Match l p t then take (unat p + 1) (entries l') = take (unat p + 1) (entries l) \<and>
       loop_result res (entries l) (entries l') (repair (unat p + 1) (entries l) new)
     else res = Inr False \<and> l' = l)"
proof (cases "Match l p t")
  case True
  with assms(1) have "unat p + 1 + 0 \<le> length (entries l)" by (simp add: Match_wf)
  moreover have "append_loop l p 0 new = (res, l')" using True assms(2) by (simp add: AppendAfter_def)
  moreover have "\<forall>j < length new. Index (new ! j) = of_nat (unat p + 1 + 0 + j)"
    using assms(4) by (simp add: numbered_from_def)
  ultimately show ?thesis using append_loop_spec [of l p 0 new res l'] assms(1,3) True
    by (simp only: add_0_right if_True)
next
  case False
  with assms show ?thesis by (simp add: AppendAfter_def)
qed

text \<open>
  A part of our log that the new entries do not contradict is still there after the call, also
  after one that failed half way.
\<close>

lemma append_loop_keeps:
  assumes "append_loop l p i new = (res, l')" and "q \<le> length (entries l)"
    and "unat p + 1 + i + length new < slice_max" and "length (entries l) < slice_max"
    and "\<forall>j < length new. unat p + 1 + i + j < q \<longrightarrow> Term (entries l ! (unat p + 1 + i + j)) = Term (new ! j)"
  shows "take q (entries l') = take q (entries l)"
  using assms
proof (induction l p i new arbitrary: res l' rule: append_loop.induct)
  case (2 l p i e es)
  let ?k = "unat p + 1 + i" and ?idx = "p + 1 + of_nat i"
  have "?k < slice_max" using "2.prems"(3) by simp
  then have idx: "unat ?idx = ?k" by (intro unat_idx slice_max_u64)
  have lt: "?idx < len64 l \<longleftrightarrow> ?k < length (entries l)"
    using u64_less_of_nat [OF slice_max_u64 [OF "2.prems"(4)], of ?idx] idx by (simp add: len64_def)
  have sl: "unat p + 1 + (i + 1) + length es < slice_max" using "2.prems"(3) by simp
  have agree: "\<forall>j < length es. unat p + 1 + (i + 1) + j < q \<longrightarrow>
      Term (entries l ! (unat p + 1 + (i + 1) + j)) = Term (es ! j)"
    using "2.prems"(5) by (auto dest: spec [of _ "Suc j" for j])
  show ?case
  proof (cases "?k < length (entries l) \<and> Term (entries l ! ?k) = Term e")
    case True
    with "2.prems"(1) lt idx have run: "append_loop l p (i + 1) es = (res, l')" by (simp add: Let_def)
    show ?thesis
      using True lt idx by (intro "2.IH"(1) [OF refl _ run "2.prems"(2) sl "2.prems"(4) agree]) auto
  next
    case False
    have q: "q \<le> ?k" using False "2.prems"(2) "2.prems"(5) [rule_format, of 0] by fastforce
    obtain r1 l1 where t: "(if ?idx < len64 l then truncateLocked l ?idx else (None, l)) = (r1, l1)" by fastforce
    have l1: "take q (entries l1) = take q (entries l) \<and> q \<le> length (entries l1) \<and> length (entries l1) < slice_max"
      using t truncateLocked_cases [of l ?idx r1 l1] idx q "2.prems"(2,4)
      by (cases r1; auto split: if_splits simp: min_def)
    have len1: "r1 = None \<Longrightarrow> length (entries l1) \<le> ?k"
      using t truncateLocked_cases [of l ?idx r1 l1] idx lt by (auto split: if_splits)
    show ?thesis
    proof (cases r1)
      case (Some x)
      with "2.prems"(1) t False lt idx have "l' = l1" by (auto simp: Let_def)
      with l1 show ?thesis by simp
    next
      case None
      obtain r2 l2 where st: "storeLocked l1 e = (r2, l2)" by fastforce
      note sc = storeLocked_cases [OF st]
      show ?thesis
      proof (cases r2)
        case (Some x)
        with "2.prems"(1) t None False lt idx st have "l' = l2" by (auto simp: Let_def)
        with sc Some l1 show ?thesis by simp
      next
        case N2: None
        with "2.prems"(1) t None False lt idx st have run: "append_loop l2 p (i + 1) es = (res, l')"
          by (auto simp: Let_def)
        have e2: "entries l2 = entries l1 @ [e]" using sc N2 by simp
        have len2: "length (entries l2) < slice_max" using e2 len1 [OF None] sl by simp
        have "take q (entries l') = take q (entries l2)"
          using False lt idx l1 e2 q
          by (intro "2.IH"(2) [OF refl _ t [symmetric] None st [symmetric] N2 run _ sl len2]) auto
        with e2 l1 show ?thesis by simp
      qed
    qed
  qed
qed simp

lemma AppendAfter_keeps:
  assumes "log_wf l" and "AppendAfter l p t new = (res, l')" and "unat p + 1 + length new < slice_max"
    and "q \<le> length (entries l)"
    and "\<forall>j < length new. unat p + 1 + j < q \<longrightarrow> Term (entries l ! (unat p + 1 + j)) = Term (new ! j)"
  shows "take q (entries l') = take q (entries l)"
proof (cases "Match l p t")
  case True
  with assms(2) have "append_loop l p 0 new = (res, l')" by (simp add: AppendAfter_def)
  from append_loop_keeps [OF this assms(4)] assms(1,3,5) show ?thesis by (simp add: log_wf_def indexed_def)
next
  case False
  with assms(2) show ?thesis by (simp add: AppendAfter_def)
qed

subsection \<open>What the repair guarantees\<close>

text \<open>Entries the follower already has, by term, change nothing; nor does a repeated call.\<close>

lemma repair_known:
  "k + length new \<le> length es \<Longrightarrow> \<forall>j < length new. Term (es ! (k + j)) = Term (new ! j) \<Longrightarrow>
   repair k es new = es"
proof (induction k es new rule: repair.induct)
  case (2 k es e new)
  then have "Term (es ! k) = Term e" and "\<forall>j < length new. Term (es ! (Suc k + j)) = Term (new ! j)"
    by (metis add_0_right nth_Cons_0 length_Cons zero_less_Suc, metis Suc_less_eq add_Suc_shift length_Cons nth_Cons_Suc)
  with 2 show ?case by simp
qed simp

lemma repair_terms:
  "k \<le> length es \<Longrightarrow> j < length new \<Longrightarrow> Term (repair k es new ! (k + j)) = Term (new ! j)"
proof (induction k es new arbitrary: j rule: repair.induct)
  case (2 k es e new)
  show ?case
  proof (cases "k < length es \<and> Term (es ! k) = Term e")
    case True
    have "take (Suc k) (repair (Suc k) es new) = take (Suc k) es" using True by (simp add: repair_take)
    then have "repair (Suc k) es new ! k = es ! k" by (metis lessI nth_take)
    then have "Term (repair (Suc k) es new ! (k + j)) = Term ((e # new) ! j)"
      using True 2 by (cases j) auto
    with True show ?thesis by simp
  qed (use 2 in \<open>auto simp: nth_append\<close>)
qed simp

lemma repair_twice: "k \<le> length es \<Longrightarrow> repair k (repair k es new) new = repair k es new"
  by (rule repair_known) (auto simp: repair_terms repair_length)

text \<open>
  The Log Matching Property of two logs: entries of the same index and term carry the same
  history. A follower that repairs its log from a matching leader's log keeps it, towards
  that leader and towards every other log that matched both.
\<close>

definition matching :: "Record list \<Rightarrow> Record list \<Rightarrow> bool" where
  "matching es fs \<longleftrightarrow>
     (\<forall>i < min (length es) (length fs). Term (es ! i) = Term (fs ! i) \<longrightarrow> take (Suc i) es = take (Suc i) fs)"

lemma matching_sym: "matching es fs \<Longrightarrow> matching fs es"
  by (simp add: matching_def min.commute)

lemma matching_refl [simp]: "matching es es"
  by (simp add: matching_def)

lemma matching_take:
  assumes "matching es fs"
  shows "matching es (take m fs)"
  unfolding matching_def
proof (intro allI impI)
  fix i assume "i < min (length es) (length (take m fs))" and "Term (es ! i) = Term (take m fs ! i)"
  then show "take (Suc i) es = take (Suc i) (take m fs)"
    using assms by (auto simp: matching_def min_def split: if_splits)
qed

lemma repair_from_leader:
  assumes "matching lead es" and "take k es = take k lead" and "k \<le> length es" and "k \<le> length lead"
    and "new = take n (drop k lead)"
  shows "take (k + length new) (repair k es new) = take (k + length new) lead \<and>
    (repair k es new = es \<or> repair k es new = take (k + length new) lead)"
  using assms(2-4) unfolding assms(5)
proof (induction n arbitrary: k)
  case 0
  then show ?case by simp
next
  case (Suc n)
  show ?case
  proof (cases "k < length lead")
    case False
    with Suc.prems show ?thesis by simp
  next
    case True
    then have new: "take (Suc n) (drop k lead) = lead ! k # take n (drop (Suc k) lead)"
      by (simp add: Cons_nth_drop_Suc [symmetric])
    show ?thesis
    proof (cases "k < length es \<and> Term (es ! k) = Term (lead ! k)")
      case t: True
      then have "take (Suc k) es = take (Suc k) lead"
        using assms(1) True by (auto simp: matching_def)
      with t True Suc.IH [of "Suc k"] show ?thesis by (simp add: new)
    next
      case f: False
      have "repair k es (lead ! k # take n (drop (Suc k) lead)) = take k es @ lead ! k # take n (drop (Suc k) lead)"
        using f Suc.prems by auto
      also have "\<dots> = take k lead @ take (Suc n) (drop k lead)" using Suc.prems new by simp
      also have "\<dots> = take (k + Suc n) lead" by (simp only: take_add)
      finally have "repair k es (take (Suc n) (drop k lead)) = take (k + Suc n) lead" by (simp only: new)
      moreover have "take (k + length (take (Suc n) (drop k lead))) lead = take (k + Suc n) lead"
        using True by (auto simp: min_def)
      ultimately show ?thesis by simp
    qed
  qed
qed

lemma AppendAfter_from_leader:
  assumes wf: "log_wf l" and run: "AppendAfter l p t new = (res, l')"
    and lead: "indexed lead" and p: "unat p < length lead" and t: "t = Term (lead ! unat p)"
    and new: "new = take n (drop (unat p + 1) lead)" and m: "matching lead (entries l)"
  shows "log_wf l' \<and>
    (res = Inr True \<longrightarrow> take (unat p + 1 + length new) (entries l') = take (unat p + 1 + length new) lead) \<and>
    (\<forall>g. matching g lead \<and> matching g (entries l) \<longrightarrow> matching g (entries l'))"
proof -
  have sz: "unat p + 1 + length new < slice_max" using lead p new by (auto simp: indexed_def)
  have num: "numbered_from p new" using lead p new by (auto simp: numbered_from_def indexed_def)
  note spec = AppendAfter_spec [OF wf run sz num]
  show ?thesis
  proof (cases "Match l p t")
    case False
    with spec show ?thesis by auto
  next
    case True
    with wf have lt: "unat p < length (entries l)" "Term (entries l ! unat p) = Term (lead ! unat p)"
      using t by (auto simp: Match_wf)
    then have "take (unat p + 1) (entries l) = take (unat p + 1) lead"
      using m p by (auto simp: matching_def)
    then have r: "take (unat p + 1 + length new) (repair (unat p + 1) (entries l) new) =
          take (unat p + 1 + length new) lead"
        "repair (unat p + 1) (entries l) new = entries l \<or>
         repair (unat p + 1) (entries l) new = take (unat p + 1 + length new) lead"
      using repair_from_leader [OF m, of "unat p + 1" new n] lt p new by auto
    have "matching g (entries l')" if "matching g lead" "matching g (entries l)" for g
    proof -
      have "matching g (repair (unat p + 1) (entries l) new)" using r(2) that matching_take by metis
      moreover have "entries l' = entries l \<or> (\<exists>m. entries l' = take m (repair (unat p + 1) (entries l) new)) \<or>
          entries l' = repair (unat p + 1) (entries l) new"
        using spec True by (auto simp: loop_result_def split: sum.splits)
      ultimately show ?thesis using that matching_take by metis
    qed
    with r spec True show ?thesis by (auto simp: loop_result_def)
  qed
qed

subsection \<open>Memory and disk hold the same list\<close>

text \<open>
  \<open>on_disk l\<close>: the log's file holds exactly its entries (all but the sentinel), synced, at
  the offsets kept in memory. A log without a file has nothing to lose.
\<close>

definition on_disk :: "Log \<Rightarrow> bool" where
  "on_disk l \<longleftrightarrow> (case w l of None \<Rightarrow> True
     | Some wl \<Rightarrow> mirrors wal_holds frames_len wl (entries l) (offsets l))"

lemma on_disk_NewLog: "on_disk NewLog"
  by (simp add: on_disk_def NewLog_def)

lemma storeLocked_on_disk:
  "on_disk l \<Longrightarrow> storeLocked l e = (None, l') \<Longrightarrow> on_disk l'"
  by (auto simp: on_disk_def storeLocked_def split: option.splits prod.splits sum.splits
        intro: wal.mirrors_store)

lemma truncateLocked_on_disk:
  "on_disk l \<Longrightarrow> truncateLocked l i = (None, l') \<Longrightarrow> 0 < unat i \<Longrightarrow> unat i < length (entries l) \<Longrightarrow>
   on_disk l'"
  by (auto simp: on_disk_def truncateLocked_def split: option.splits prod.splits
        intro: wal.mirrors_truncate)

lemma Log_Append_on_disk:
  "on_disk l \<Longrightarrow> Log_Append l trm cs = (stored, None, l') \<Longrightarrow> on_disk l'"
proof (induction cs arbitrary: l stored)
  case (Cons c cs)
  let ?c = "c\<lparr>Term := trm, Index := LastIndex l + 1\<rparr>"
  obtain r l1 where s: "storeLocked l ?c = (r, l1)" by fastforce
  obtain st e l2 where a: "Log_Append l1 trm cs = (st, e, l2)" by (metis prod_cases3)
  have "r = None" "e = None" "l2 = l'"
    using Cons.prems(2) by (cases r; simp add: s a)+
  with s a Cons storeLocked_on_disk show ?case by blast
qed simp

text \<open>One round of the loop, with positions as natural numbers.\<close>

lemma append_loop_round:
  assumes run: "append_loop l p i (e # es) = (Inr b, l')" and wf: "log_wf l"
    and k: "k = unat p + 1 + i" and sz: "k < slice_max"
  obtains (known) "k < length (entries l)" and "append_loop l p (i + 1) es = (Inr b, l')"
  | (stored) l1 l2 where "(k < length (entries l) \<and> truncateLocked l (of_nat k) = (None, l1)) \<or>
        (length (entries l) \<le> k \<and> l1 = l)"
      and "storeLocked l1 e = (None, l2)" and "append_loop l2 p (i + 1) es = (Inr b, l')"
proof -
  have k64: "k < 2 ^ 64" using sz by (rule slice_max_u64)
  have idx: "p + 1 + of_nat i = of_nat k" using k by simp
  have un: "unat (of_nat k :: u64) = k" using k64 by (rule unat_of_nat_u64)
  have len: "length (entries l) < 2 ^ 64" using wf by (intro indexed_length) (simp add: log_wf_def)
  have lt: "of_nat k < len64 l \<longleftrightarrow> k < length (entries l)"
    using u64_less_of_nat [OF len, of "of_nat k"] un by (simp add: len64_def)
  obtain r1 l1 where t: "(if k < length (entries l) then truncateLocked l (of_nat k) else (None, l)) = (r1, l1)" by fastforce
  obtain r2 l2 where st: "storeLocked l1 e = (r2, l2)" by fastforce
  show thesis
  proof (cases "k < length (entries l) \<and> Term (entries l ! k) = Term e")
    case True
    with run have "append_loop l p (i + 1) es = (Inr b, l')"
      unfolding append_loop.simps idx Let_def lt un by simp
    with True known show thesis by blast
  next
    case False
    with run have "(case r1 of Some x \<Rightarrow> (Inl x, l1) | None \<Rightarrow>
        (case r2 of Some x \<Rightarrow> (Inl x, l2) | None \<Rightarrow> append_loop l2 p (i + 1) es)) = (Inr b, l')"
      unfolding append_loop.simps idx Let_def lt un t by (cases r1) (simp_all add: st)
    then have "r1 = None" "r2 = None" "append_loop l2 p (i + 1) es = (Inr b, l')"
      by (auto split: option.splits)
    with t st stored show thesis by (auto split: if_splits)
  qed
qed

lemma append_loop_on_disk:
  assumes "on_disk l" and "append_loop l p i new = (Inr b, l')" and "log_wf l"
    and "unat p + 1 + i \<le> length (entries l)"
    and "unat p + 1 + i + length new < slice_max"
    and "\<forall>j < length new. Index (new ! j) = of_nat (unat p + 1 + i + j)"
  shows "on_disk l'"
  using assms
proof (induction new arbitrary: l i l')
  case Nil
  then show ?case by simp
next
  case (Cons e es)
  define k where "k = unat p + 1 + i"
  have ix: "Index e = of_nat k" "\<forall>j < length es. Index (es ! j) = of_nat (unat p + 1 + (i + 1) + j)"
    using Cons.prems(6) [rule_format, of 0] Cons.prems(6) [rule_format, of "Suc j" for j]
    by (simp_all add: k_def)
  have sz: "k < slice_max" "unat p + 1 + (i + 1) + length es < slice_max"
    using Cons.prems(5) by (simp_all add: k_def)
  have un: "unat (of_nat k :: u64) = k" by (rule unat_of_nat_u64 [OF slice_max_u64 [OF sz(1)]])
  from Cons.prems(2,3) k_def sz(1) show ?case
  proof (cases rule: append_loop_round)
    case known
    with Cons.prems Cons.IH [of l "i + 1" l'] ix(2) sz(2) show ?thesis by (simp add: k_def)
  next
    case (stored l1 l2)
    have "on_disk l1 \<and> log_wf l1 \<and> entries l1 = take k (entries l)"
      using stored(1)
    proof
      assume t: "k < length (entries l) \<and> truncateLocked l (of_nat k) = (None, l1)"
      then have "on_disk l1" "log_wf l1"
        using Cons.prems un by (auto simp: k_def intro: truncateLocked_on_disk truncateLocked_wf)
      with t truncateLocked_cases [of l "of_nat k" None l1] un show ?thesis by auto
    next
      assume "length (entries l) \<le> k \<and> l1 = l"
      with Cons.prems show ?thesis by (simp add: k_def)
    qed
    then have l1: "on_disk l1" "log_wf l1" "length (entries l1) = k" using Cons.prems(4) by (auto simp: k_def)
    have "on_disk l2" using l1(1) stored(2) by (rule storeLocked_on_disk)
    moreover have "log_wf l2"
      using storeLocked_wf [OF l1(2) stored(2)] l1(3) ix(1) sz(2) by (simp add: k_def)
    moreover have "length (entries l2) = Suc k" using storeLocked_cases [OF stored(2)] l1(3) by simp
    ultimately show ?thesis
      using Cons.IH [of l2 "i + 1" l'] stored(3) ix(2) sz(2) by (simp add: k_def)
  qed
qed

lemma AppendAfter_on_disk:
  assumes "on_disk l" and "AppendAfter l p t new = (Inr b, l')" and "log_wf l"
    and "unat p + 1 + length new < slice_max" and "numbered_from p new"
  shows "on_disk l'"
proof (cases "Match l p t")
  case True
  with assms show ?thesis
    by (intro append_loop_on_disk [of l p 0 new b l'])
       (auto simp: AppendAfter_def Match_wf numbered_from_def)
next
  case False
  with assms show ?thesis by (simp add: AppendAfter_def)
qed

subsection \<open>Recovery\<close>

lemma load_records_spec:
  assumes "load_records i rs offs l = Inr l'" and "i + length rs \<le> length offs"
  shows "entries l' = entries l @ rs \<and> offsets l' = offsets l @ take (length rs) (drop i offs) \<and> w l' = w l \<and>
    (\<forall>j < length rs. Index (rs ! j) = of_nat (i + 1 + j))"
  using assms
proof (induction i rs offs l rule: load_records.induct)
  case (2 i r rs offs l)
  let ?l = "l\<lparr>entries := entries l @ [r], offsets := offsets l @ [offs ! i]\<rparr>"
  have r: "Index r = of_nat (i + 1)" and run: "load_records (i + 1) rs offs ?l = Inr l'"
    using "2.prems"(1) by (auto split: if_splits)
  have offs: "take (length (r # rs)) (drop i offs) = offs ! i # take (length rs) (drop (i + 1) offs)"
    using "2.prems"(2) by (simp add: Cons_nth_drop_Suc [symmetric])
  have ih: "entries l' = entries ?l @ rs \<and> offsets l' = offsets ?l @ take (length rs) (drop (i + 1) offs) \<and>
      w l' = w ?l \<and> (\<forall>j < length rs. Index (rs ! j) = of_nat (i + 1 + 1 + j))"
    using "2.prems"(2) r run by (intro "2.IH") auto
  have "Index ((r # rs) ! j) = of_nat (i + 1 + j)" if "j < length (r # rs)" for j
    using that ih r by (cases j) (auto simp: algebra_simps)
  with ih offs show ?case by simp
qed simp

lemma load_records_ok:
  assumes "\<forall>j < length rs. Index (rs ! j) = of_nat (i + 1 + j)"
  shows "\<exists>l'. load_records i rs offs l = Inr l'"
  using assms
proof (induction i rs offs l rule: load_records.induct)
  case (2 i r rs offs l)
  have "Index r = of_nat (i + 1)" using "2.prems" [rule_format, of 0] by simp
  moreover have "\<forall>j < length rs. Index (rs ! j) = of_nat ((i + 1) + 1 + j)"
    using "2.prems" [rule_format, of "Suc j" for j] by simp
  ultimately show ?case using "2.IH" by simp
qed simp

lemma read_loop_stops:
  assumes nf: "next_frame bs = None"
  shows "\<exists>t err. read_loop bs e res = (res\<lparr>Truncated := t\<rparr>, err)"
proof -
  have same [simp]: "\<exists>t. res = res\<lparr>Truncated := t\<rparr>" by (rule exI [of _ "Truncated res"]) simp
  have torn [simp]: "\<exists>t. res\<lparr>Truncated := True\<rparr> = res\<lparr>Truncated := t\<rparr>" by blast
  show ?thesis
  proof (cases "readFull headerSize bs e")
    case (Inl x)
    then show ?thesis by (subst read_loop.simps) (cases x; simp)
  next
    case (Inr hr)
    then have hr: "hr = (take headerSize bs, drop headerSize bs)" and h: "headerSize \<le> length bs"
      by (auto simp: readFull_def split: if_splits)
    let ?len = "unat (get_u32 (take headerSize bs))" and ?crc = "get_u32 (drop 4 (take headerSize bs))"
    show ?thesis
    proof (cases "maxRecordSize < ?len")
      case True
      then show ?thesis by (subst read_loop.simps) (auto simp: Inr hr Let_def)
    next
      case ok: False
      show ?thesis
      proof (cases "readFull ?len (drop headerSize bs) e")
        case (Inl x)
        then show ?thesis
          by (subst read_loop.simps) (cases x; simp add: Inr [unfolded hr] Let_def ok)
      next
        case p: (Inr pr)
        then have pr: "pr = (take ?len (drop headerSize bs), drop ?len (drop headerSize bs))"
          and l: "?len \<le> length (drop headerSize bs)"
          by (auto simp: readFull_def split: if_splits)
        have "headerSize + ?len \<le> length bs" using h l by simp
        then obtain y where "decodePayload (take ?len (drop headerSize bs)) ?crc = Inl y"
          using nf h ok by (auto simp: next_frame_def Let_def split: sum.splits)
        then show ?thesis
          by (subst read_loop.simps) (auto simp: Inr [unfolded hr] p [unfolded pr] Let_def ok)
      qed
    qed
  qed
qed

lemma read_loop_offsets:
  assumes "read_loop bs e res = (res', err)" and "length (Offsets res) = length (Records res)"
  shows "length (Offsets res') = length (Records res')"
  using assms
proof (induction bs arbitrary: res rule: length_induct)
  case (1 bs)
  show ?case
  proof (cases "next_frame bs")
    case None
    with 1 read_loop_stops [OF None, of e res] show ?thesis by auto
  next
    case (Some a)
    then obtain r n where nf: "next_frame bs = Some (r, n)" by (cases a) auto
    with next_frame_length [OF nf] have "length (drop (headerSize + n) bs) < length bs"
      by (simp add: headerSize_def)
    moreover have "read_loop (drop (headerSize + n) bs) e (push_record r n res) = (res', err)"
      using "1.prems"(1) nf by (simp add: read_loop_next)
    moreover have "length (Offsets (push_record r n res)) = length (Records (push_record r n res))"
      using "1.prems"(2) by (simp add: push_record_def)
    ultimately show ?thesis using "1.IH" by blast
  qed
qed

text \<open>Whatever \<^const>\<open>OpenLog\<close> accepts is a well-formed log; it refuses records out of place.\<close>

lemma OpenLog_Inr:
  assumes "OpenLog ex fl = Inr l"
  obtains src fl1 res fl2 wl where "source_of ex fl = (src, fl1)" and "ReadAll src = (res, None)"
    and "(if Truncated res then TruncateTo fl1 (ValidBytes res) else (None, fl1)) = (None, fl2)"
    and "WAL_Open fl2 = Inr wl"
    and "load_records 0 (Records res) (Offsets res) \<lparr>entries = [sentinel], offsets = [0], w = Some wl\<rparr> = Inr l"
proof -
  obtain src fl1 where so: "source_of ex fl = (src, fl1)" by fastforce
  obtain res err where rd: "ReadAll src = (res, err)" by fastforce
  obtain rep fl2 where tr: "(if Truncated res then TruncateTo fl1 (ValidBytes res) else (None, fl1)) = (rep, fl2)"
    by fastforce
  let ?l0 = "\<lambda>wl. \<lparr>entries = [sentinel], offsets = [0], w = Some wl\<rparr>"
  have "(case err of Some e \<Rightarrow> Inl (ErrReadLog e) | None \<Rightarrow>
      (case rep of Some e \<Rightarrow> Inl (ErrRepairLog e) | None \<Rightarrow>
        (case WAL_Open fl2 of Inl e \<Rightarrow> Inl (ErrOpenLog e) | Inr wl \<Rightarrow>
           load_records 0 (Records res) (Offsets res) (?l0 wl)))) = Inr l"
    using assms unfolding OpenLog_def so rd tr Let_def prod.case .
  then obtain wl where e: "err = None" "rep = None" and wl: "WAL_Open fl2 = Inr wl"
    and ld: "load_records 0 (Records res) (Offsets res) (?l0 wl) = Inr l"
    by (cases err; cases rep; cases "WAL_Open fl2") (simp_all only: option.case sum.case, blast+)
  show thesis using that [OF so rd [unfolded e] tr [unfolded e] wl ld] .
qed

lemma OpenLog_wf:
  assumes "OpenLog ex fl = Inr l" and "length (entries l) < slice_max"
  shows "log_wf l"
proof -
  from assms(1) obtain src fl1 res fl2 wl
    where rd: "ReadAll src = (res, None)" and so: "source_of ex fl = (src, fl1 :: os_file)"
    and tr: "(if Truncated res then TruncateTo fl1 (ValidBytes res) else (None, fl1)) = (None, fl2 :: os_file)"
    and ld: "load_records 0 (Records res) (Offsets res) \<lparr>entries = [sentinel], offsets = [0], w = Some wl\<rparr> = Inr l"
    by (rule OpenLog_Inr)
  have empty: "length (Offsets empty_result) = length (Records empty_result)" by (simp add: empty_result_def)
  have len: "length (Offsets res) = length (Records res)"
  proof (cases src)
    case (Bytes bs e)
    with rd have "read_loop bs e empty_result = (res, None)" by (simp add: ReadAll_def)
    then show ?thesis using empty by (rule read_loop_offsets)
  qed (use rd empty in \<open>simp_all add: ReadAll_def\<close>)
  then have l: "entries l = sentinel # Records res" "offsets l = 0 # Offsets res"
      "\<forall>j < length (Records res). Index (Records res ! j) = of_nat (1 + j)"
    using load_records_spec [OF ld] by simp_all
  have "Index (entries l ! i) = of_nat i" if "i < length (entries l)" for i
    using that l(3) unfolding l(1) by (cases i) (auto simp: sentinel_def zero_record_def)
  then show ?thesis using len assms(2) l(1,2) by (simp add: log_wf_def indexed_def)
qed

text \<open>
  A restart: the file holds what was synced. Opening it brings the entries back, byte for
  byte when their strings are UTF-8, and the reopened log mirrors its file again.
\<close>

definition reopen :: "WAL \<Rightarrow> os_file" where
  "reopen wl = \<lparr>cached = durable (f wl), durable = durable (f wl), is_closed = False, faults = []\<rparr>"

lemma WAL_Open_reopen: "WAL_Open (reopen wl) = Inr \<lparr>f = reopen wl, size_of = length (durable (f wl))\<rparr>"
  by (simp add: WAL_Open_def syncDir_def reopen_def)

lemma source_of_reopen: "source_of True (reopen wl) = (Bytes (durable (f wl)) False, reopen wl)"
  by (simp add: source_of_def next_io_def reopen_def)

lemma indexed_tl: "indexed es \<Longrightarrow> es = sentinel # tl es"
  by (cases es) (auto simp: indexed_def)

lemma mirrors_offsets:
  assumes "holds wl rs" and "pos = frames_len"
  shows "mirrors holds pos wl (s # rs) (0 # offsets_from 0 rs)"
  using assms by (auto simp: mirrors_def nth_offsets_from nth_Cons')

lemma OpenLog_recovers:
  assumes wf: "log_wf l" and dur: "on_disk l" and wl: "w l = Some wl"
    and fits: "\<forall>r \<in> set (tl (entries l)). fits r"
  shows "\<exists>l'. OpenLog True (reopen wl) = Inr l' \<and>
    entries l' = sentinel # map sanitize_record (tl (entries l)) \<and>
    ((\<forall>r \<in> set (tl (entries l)). utf8_record r) \<longrightarrow> entries l' = entries l \<and> on_disk l')"
proof -
  let ?rs = "tl (entries l)"
  have holds: "wal_holds wl ?rs" using dur wl by (simp add: on_disk_def mirrors_def)
  then have d: "durable (f wl) = frames ?rs" by (simp add: wal_holds_def synced_def)
  let ?wl = "\<lparr>f = reopen wl, size_of = frames_len ?rs\<rparr>"
  have "Index (?rs ! j) = of_nat (1 + j)" if "j < length ?rs" for j
    using wf that by (simp add: log_wf_def indexed_def nth_tl)
  then have "\<forall>j < length (map sanitize_record ?rs). Index (map sanitize_record ?rs ! j) = of_nat (0 + 1 + j)"
    by simp
  then obtain l' where ld: "load_records 0 (map sanitize_record ?rs) (offsets_from 0 ?rs)
      \<lparr>entries = [sentinel], offsets = [0], w = Some ?wl\<rparr> = Inr l'"
    using load_records_ok by blast
  have l': "entries l' = sentinel # map sanitize_record ?rs" "offsets l' = 0 # offsets_from 0 ?rs" "w l' = Some ?wl"
    using load_records_spec [OF ld] by simp_all
  have "OpenLog True (reopen wl) = Inr l'"
    using ld ReadAll_frames [OF fits]
    by (simp add: OpenLog_def source_of_reopen WAL_Open_reopen d log_result_def frames_len_def)
  moreover have "entries l' = entries l \<and> on_disk l'" if u: "\<forall>r \<in> set ?rs. utf8_record r"
  proof -
    have s: "map sanitize_record ?rs = ?rs" using u by (intro map_idI) (simp add: sanitize_record_valid)
    have "wal_holds ?wl ?rs" by (simp add: wal_holds_def reopen_def d synced_def)
    then have "on_disk l'" unfolding on_disk_def l' s by (simp add: mirrors_offsets)
    with l'(1) s wf indexed_tl show ?thesis by (simp add: log_wf_def)
  qed
  ultimately show ?thesis using l'(1) by blast
qed

text \<open>
  Whatever faults the opening meets: if it succeeds on a file of whole frames, it has all of them.
\<close>

lemma OpenLog_frames:
  assumes op: "OpenLog True fl = Inr l" and c: "cached fl = frames rs" and fits: "\<forall>r \<in> set rs. fits r"
  shows "entries l = sentinel # map sanitize_record rs"
proof -
  obtain src fl1 res fl2 wl where so: "source_of True fl = (src, fl1)" and rd: "ReadAll src = (res, None)"
    and ld: "load_records 0 (Records res) (Offsets res) \<lparr>entries = [sentinel], offsets = [0], w = Some wl\<rparr> = Inr l"
    using op by (rule OpenLog_Inr)
  have "src = OpenFails \<or> (\<exists>k. src = Bytes (take k (cached fl)) True) \<or> src = Bytes (cached fl) False"
    using so by (auto simp: source_of_def next_io_def split: if_splits list.splits io.splits)
  then have "res = push_all rs empty_result"
  proof (elim disjE exE)
    show "src = OpenFails \<Longrightarrow> ?thesis" using rd by (simp add: ReadAll_def)
    show "src = Bytes (take k (cached fl)) True \<Longrightarrow> ?thesis" for k
      using rd read_loop_error [OF fits, of k empty_result] by (simp add: ReadAll_def c)
    show "src = Bytes (cached fl) False \<Longrightarrow> ?thesis"
      using rd read_loop_frames [OF fits, of "[]" False empty_result] by (simp add: ReadAll_def c read_loop_clean)
  qed
  then show ?thesis using load_records_spec [OF ld] by (simp add: push_all_def empty_result_def)
qed

subsection \<open>Logs whose file works\<close>

definition healthy :: "Log \<Rightarrow> bool" where
  "healthy l \<longleftrightarrow> log_wf l \<and> on_disk l \<and>
     (case w l of None \<Rightarrow> True | Some wl \<Rightarrow> faults (f wl) = [] \<and> \<not> is_closed (f wl))"

lemma healthy_NewLog: "healthy NewLog"
  by (simp add: healthy_def log_wf_NewLog on_disk_NewLog) (simp add: NewLog_def)

lemma WAL_Append_healthy:
  "faults (f wl) = [] \<Longrightarrow> \<not> is_closed (f wl) \<Longrightarrow>
   \<exists>off wl'. WAL_Append wl r = (Inr off, wl') \<and> faults (f wl') = [] \<and> \<not> is_closed (f wl')"
  by (auto simp: WAL_Append_def Let_def)

lemma WAL_Truncate_healthy:
  "faults (f wl) = [] \<Longrightarrow> \<not> is_closed (f wl) \<Longrightarrow> n \<le> size_of wl \<Longrightarrow>
   \<exists>wl'. WAL_Truncate wl n = (None, wl') \<and> faults (f wl') = [] \<and> \<not> is_closed (f wl')"
  by (auto simp: WAL_Truncate_def Let_def os_truncate_def next_io_def syncDir_def)

lemma mirrors_offset_bound:
  assumes "mirrors wal_holds frames_len wl es offs" and "0 < i" and "i < length es"
  shows "offs ! i \<le> size_of wl"
proof -
  from assms have o: "offs ! i = frames_len (take (i - 1) (tl es))" and s: "size_of wl = frames_len (tl es)"
    by (auto simp: mirrors_def wal_holds_def)
  have "frames_len (tl es) = frames_len (take (i - 1) (tl es)) + frames_len (drop (i - 1) (tl es))"
    by (metis append_take_drop_id frames_len_simps(3))
  with o s show ?thesis by simp
qed

lemma storeLocked_healthy:
  assumes h: "healthy l" and ix: "Index e = of_nat (length (entries l))" and sz: "Suc (length (entries l)) < slice_max"
  shows "\<exists>l'. storeLocked l e = (None, l') \<and> healthy l'"
proof -
  obtain r l' where s: "storeLocked l e = (r, l')" by fastforce
  have r: "r = None \<and> (case w l' of None \<Rightarrow> True | Some wl \<Rightarrow> faults (f wl) = [] \<and> \<not> is_closed (f wl))"
  proof (cases "w l")
    case None
    with s show ?thesis by (auto simp: storeLocked_def)
  next
    case (Some wl)
    with h obtain off wl' where "WAL_Append wl e = (Inr off, wl')" "faults (f wl') = []" "\<not> is_closed (f wl')"
      using WAL_Append_healthy [of wl e] by (auto simp: healthy_def)
    with s Some show ?thesis by (auto simp: storeLocked_def)
  qed
  have "log_wf l'" using storeLocked_wf [OF _ s ix sz] h by (simp add: healthy_def)
  moreover have "on_disk l'" using storeLocked_on_disk [of l e l'] s r h by (simp add: healthy_def)
  ultimately show ?thesis using s r by (simp add: healthy_def)
qed

lemma truncateLocked_healthy:
  assumes h: "healthy l" and i: "0 < unat i" "unat i < length (entries l)"
  shows "\<exists>l'. truncateLocked l i = (None, l') \<and> healthy l'"
proof -
  obtain r l' where s: "truncateLocked l i = (r, l')" by fastforce
  have r: "r = None \<and> (case w l' of None \<Rightarrow> True | Some wl \<Rightarrow> faults (f wl) = [] \<and> \<not> is_closed (f wl))"
  proof (cases "w l")
    case None
    with s show ?thesis by (auto simp: truncateLocked_def)
  next
    case (Some wl)
    then have "mirrors wal_holds frames_len wl (entries l) (offsets l)" "faults (f wl) = []" "\<not> is_closed (f wl)"
      using h by (auto simp: healthy_def on_disk_def)
    with mirrors_offset_bound [OF _ i] obtain wl' where
      "WAL_Truncate wl (offsets l ! unat i) = (None, wl')" "faults (f wl') = []" "\<not> is_closed (f wl')"
      using WAL_Truncate_healthy by blast
    with s Some show ?thesis by (auto simp: truncateLocked_def)
  qed
  have "log_wf l'" using truncateLocked_wf [OF _ s i(1)] h by (simp add: healthy_def)
  moreover have "on_disk l'" using truncateLocked_on_disk [of l i l'] s r h i by (simp add: healthy_def)
  ultimately show ?thesis using s r by (simp add: healthy_def)
qed

lemma append_loop_healthy:
  assumes "healthy l" and "unat p + 1 + i \<le> length (entries l)"
    and "unat p + 1 + i + length new < slice_max"
    and "\<forall>j < length new. Index (new ! j) = of_nat (unat p + 1 + i + j)"
  shows "\<exists>l'. append_loop l p i new = (Inr True, l') \<and> healthy l'"
  using assms
proof (induction new arbitrary: l i)
  case Nil
  then show ?case by simp
next
  case (Cons e es)
  define k where "k = unat p + 1 + i"
  have ix: "Index e = of_nat k" "\<forall>j < length es. Index (es ! j) = of_nat (unat p + 1 + (i + 1) + j)"
    using Cons.prems(4) [rule_format, of 0] Cons.prems(4) [rule_format, of "Suc j" for j]
    by (simp_all add: k_def)
  have sz: "k < slice_max" "unat p + 1 + (i + 1) + length es < slice_max"
    using Cons.prems(3) by (simp_all add: k_def)
  have idx: "p + 1 + of_nat i = of_nat k" by (simp add: k_def)
  have un: "unat (of_nat k :: u64) = k" by (rule unat_of_nat_u64 [OF slice_max_u64 [OF sz(1)]])
  have len: "length (entries l) < 2 ^ 64"
    using Cons.prems(1) by (intro indexed_length) (simp add: log_wf_def healthy_def)
  have lt: "of_nat k < len64 l \<longleftrightarrow> k < length (entries l)"
    using u64_less_of_nat [OF len, of "of_nat k"] un by (simp add: len64_def)
  have kle: "k \<le> length (entries l)" using Cons.prems(2) by (simp add: k_def)
  show ?case
  proof (cases "k < length (entries l) \<and> Term (entries l ! k) = Term e")
    case True
    then have "append_loop l p i (e # es) = append_loop l p (i + 1) es"
      unfolding append_loop.simps idx Let_def lt un by simp
    then show ?thesis using Cons.IH [OF Cons.prems(1), of "i + 1"] True ix(2) sz(2) by (simp add: k_def)
  next
    case False
    obtain l1 where l1: "(if k < length (entries l) then truncateLocked l (of_nat k) else (None, l)) = (None, l1)"
        "healthy l1" "length (entries l1) = k"
    proof (cases "k < length (entries l)")
      case True
      obtain l1 where t: "truncateLocked l (of_nat k) = (None, l1)" "healthy l1"
        using truncateLocked_healthy [OF Cons.prems(1), of "of_nat k"] True un by (auto simp: k_def)
      moreover have "length (entries l1) = k" using truncateLocked_cases [OF t(1)] un kle by simp
      ultimately show ?thesis using True that by simp
    next
      case False
      with kle Cons.prems(1) show ?thesis by (intro that [of l]) simp_all
    qed
    obtain l2 where l2: "storeLocked l1 e = (None, l2)" "healthy l2"
      using storeLocked_healthy [OF l1(2), of e] l1(3) ix(1) sz(2) by (auto simp: k_def)
    have len2: "length (entries l2) = Suc k" using storeLocked_cases [OF l2(1)] l1(3) by simp
    have "append_loop l p i (e # es) = append_loop l2 p (i + 1) es"
      using False unfolding append_loop.simps idx Let_def lt un l1(1) by (auto simp: l2(1))
    then show ?thesis using Cons.IH [OF l2(2), of "i + 1"] len2 ix(2) sz(2) by (simp add: k_def)
  qed
qed

lemma AppendAfter_healthy:
  assumes "healthy l" and "unat p + 1 + length new < slice_max" and "numbered_from p new"
  shows "\<exists>l'. AppendAfter l p t new = (Inr (Match l p t), l') \<and> healthy l' \<and> (\<not> Match l p t \<longrightarrow> l' = l)"
proof (cases "Match l p t")
  case True
  then have "unat p + 1 + 0 \<le> length (entries l)" using assms(1) by (simp add: Match_wf healthy_def)
  from append_loop_healthy [OF assms(1) this, of new] assms(2,3) True show ?thesis
    by (auto simp: AppendAfter_def numbered_from_def)
next
  case False
  with assms(1) show ?thesis by (simp add: AppendAfter_def)
qed

end
