(* ===== verification/Raft_State.thy ===== *)
theory Raft_State
  imports Wal_Reader
begin

text \<open>
  \<^verbatim>\<open>src/internal/raft/state.go\<close>: the current term and vote on stable storage, written to a
  temporary file that is then renamed over the old one. The theorems say that a power cut
  at any point leaves the complete old state or the complete new one, and the new one
  once \<^verbatim>\<open>Save\<close> has reported success.
\<close>

record PersistentState =
  CurrentTerm :: u64
  VotedFor :: string

definition zero_state :: PersistentState where
  "zero_state = \<lparr>CurrentTerm = 0, VotedFor = []\<rparr>"

definition state_fields :: "PersistentState \<Rightarrow> (string \<times> jfield) list" where
  "state_fields st = [(''current_term'', FNum (unat (CurrentTerm st))), (''voted_for'', FStr (VotedFor st))]"

definition marshal_state :: "PersistentState \<Rightarrow> string" where
  "marshal_state st = render_obj (state_fields st)"

definition set_state_field :: "string \<Rightarrow> json \<Rightarrow> PersistentState \<Rightarrow> PersistentState \<times> bool" where
  "set_state_field n j st =
     (if n = ''current_term'' then (let (v, b) = set_u64 j (CurrentTerm st) in (st\<lparr>CurrentTerm := v\<rparr>, b))
      else (let (v, b) = set_string j (VotedFor st) in (st\<lparr>VotedFor := v\<rparr>, b)))"

definition state_names :: "string list" where
  "state_names = [''current_term'', ''voted_for'']"

definition unmarshal_state :: "string \<Rightarrow> PersistentState option" where
  "unmarshal_state s = unmarshal state_names set_state_field zero_state s"

definition sanitize_state :: "PersistentState \<Rightarrow> PersistentState" where
  "sanitize_state st = st\<lparr>VotedFor := sanitize (VotedFor st)\<rparr>"

interpretation state_json: json_struct state_fields state_names set_state_field zero_state sanitize_state
  by unfold_locales (simp_all add: state_fields_def state_names_def plain_key_def set_state_field_def
    zero_state_def sanitize_state_def)

lemma unmarshal_marshal_state: "unmarshal_state (marshal_state st) = Some (sanitize_state st)"
  unfolding unmarshal_state_def marshal_state_def by (rule state_json.unmarshal_marshal)

subsection \<open>The directory\<close>

text \<open>
  The directory as the code uses it: the file \<^verbatim>\<open>state.json\<close> names now, the ones it has
  named since the directory was last synced (a power cut may bring back any of them),
  and the file \<^verbatim>\<open>state.json.tmp\<close> names. The script of faults is that of the directory's
  own file.
\<close>

record StateStore =
  entry :: "os_file option"
  unsynced :: "os_file option list"
  tmp :: "os_file option"
  dir :: os_file

datatype state_error = ErrEncodeState | ErrReadState | ErrParseState | ErrCreateTemp | ErrWriteTemp | ErrSyncTemp
  | ErrCloseTemp | ErrRename | ErrSyncStateDir wal_error

definition OpenStateStore :: "StateStore \<Rightarrow> state_error + StateStore \<times> PersistentState" where
  "OpenStateStore s =
     (case entry s of
        None \<Rightarrow> Inr (s, zero_state)
      | Some i \<Rightarrow>
          (case source_of True (i\<lparr>is_closed := False, faults := faults (dir s)\<rparr>) of
             (Bytes data False, i') \<Rightarrow>
               (case unmarshal_state data of
                  None \<Rightarrow> Inl ErrParseState
                | Some st \<Rightarrow> Inr (s\<lparr>dir := (dir s)\<lparr>faults := faults i'\<rparr>\<rparr>, st))
           | _ \<Rightarrow> Inl ErrReadState))"

text \<open>
  Opening the temporary file empties an existing one; what of its old bytes is on the disk
  stays there until the next sync.
\<close>

definition fresh_tmp :: "StateStore \<Rightarrow> os_file" where
  "fresh_tmp s = \<lparr>cached = [], durable = (case tmp s of None \<Rightarrow> [] | Some i \<Rightarrow> durable i),
     is_closed = False, faults = faults (dir s)\<rparr>"

definition keep_tmp :: "os_file \<Rightarrow> StateStore \<Rightarrow> StateStore" where
  "keep_tmp i s = s\<lparr>tmp := Some i, dir := (dir s)\<lparr>faults := faults i\<rparr>\<rparr>"

lemma keep_tmp_sel [simp]: "entry (keep_tmp i s) = entry s" "unsynced (keep_tmp i s) = unsynced s"
  by (simp_all add: keep_tmp_def)

definition Save :: "StateStore \<Rightarrow> PersistentState \<Rightarrow> state_error option \<times> StateStore" where
  "Save s st =
     (let data = marshal_state st; (e, d) = os_call (dir s); s = s\<lparr>dir := d\<rparr> in
      if e then (Some ErrCreateTemp, s)
      else let (e, i) = os_write data (fresh_tmp s) in
        if e then (Some ErrWriteTemp, keep_tmp i s)
        else let (e, i) = os_sync i in
          if e then (Some ErrSyncTemp, keep_tmp i s)
          else let (e, i) = os_call i in
            if e then (Some ErrCloseTemp, keep_tmp i s)
            else let s = keep_tmp i s; (e, d) = os_call (dir s); s = s\<lparr>dir := d\<rparr> in
              if e then (Some ErrRename, s)
              else let s = s\<lparr>entry := Some i, tmp := None, unsynced := entry s # unsynced s\<rparr>;
                       (r, d) = SyncDir (dir s); s = s\<lparr>dir := d\<rparr> in
                case r of Some x \<Rightarrow> (Some (ErrSyncStateDir x), s)
                | None \<Rightarrow> (None, s\<lparr>unsynced := []\<rparr>))"

subsection \<open>Power cuts\<close>

definition crash_entry :: "os_file option \<Rightarrow> os_file option \<Rightarrow> bool" where
  "crash_entry e e' \<longleftrightarrow> (case (e, e') of
     (None, None) \<Rightarrow> True
   | (Some i, Some i') \<Rightarrow> crash_content i (cached i') \<and> synced i'
   | _ \<Rightarrow> False)"

text \<open>What a restarted node may find: it opens a directory that is as it is on the disk.\<close>

definition crash_dir :: "StateStore \<Rightarrow> StateStore \<Rightarrow> bool" where
  "crash_dir s s' \<longleftrightarrow> faults (dir s') = [] \<and> \<not> is_closed (dir s') \<and> unsynced s' = [] \<and>
     (\<exists>e \<in> set (entry s # unsynced s). crash_entry e (entry s'))"

text \<open>
  \<open>may_hold s S\<close>: whatever survives a power cut now reads back as a state of \<open>S\<close>.
\<close>

definition entry_holds :: "PersistentState set \<Rightarrow> os_file option \<Rightarrow> bool" where
  "entry_holds S e \<longleftrightarrow> (case e of None \<Rightarrow> zero_state \<in> S
     | Some i \<Rightarrow> synced i \<and> (\<exists>st. cached i = marshal_state st \<and> sanitize_state st \<in> S))"

definition may_hold :: "StateStore \<Rightarrow> PersistentState set \<Rightarrow> bool" where
  "may_hold s S \<longleftrightarrow> (\<forall>e \<in> set (entry s # unsynced s). entry_holds S e)"

lemma entry_holds_mono: "entry_holds S e \<Longrightarrow> S \<subseteq> T \<Longrightarrow> entry_holds T e"
  by (auto simp: entry_holds_def split: option.splits)

lemma may_hold_mono: "may_hold s S \<Longrightarrow> S \<subseteq> T \<Longrightarrow> may_hold s T"
  by (auto simp: may_hold_def intro: entry_holds_mono)

lemma OpenStateStore_after_crash:
  assumes "may_hold s S" and "crash_dir s s'"
  shows "\<exists>st \<in> S. OpenStateStore s' = Inr (s', st)"
proof -
  from assms(2) obtain e where e: "e \<in> set (entry s # unsynced s)" "crash_entry e (entry s')"
    and nf: "faults (dir s') = []" by (auto simp: crash_dir_def)
  from assms(1) e(1) have h: "entry_holds S e" by (auto simp: may_hold_def)
  show ?thesis
  proof (cases e)
    case None
    with e h show ?thesis by (cases "entry s'") (auto simp: crash_entry_def entry_holds_def OpenStateStore_def)
  next
    case (Some i)
    with e(2) obtain i' where i': "entry s' = Some i'" "crash_content i (cached i')"
      by (cases "entry s'") (auto simp: crash_entry_def)
    from h Some obtain st where st: "cached i' = marshal_state st" "sanitize_state st \<in> S"
      using i'(2) by (auto simp: entry_holds_def crash_synced)
    with i'(1) nf show ?thesis
      by (auto simp: OpenStateStore_def source_of_def next_io_def unmarshal_marshal_state)
  qed
qed

subsection \<open>Save\<close>

text \<open>
  Every return of \<^const>\<open>Save\<close>: before the rename the directory entry is untouched; after it
  the entry is a synced file with the new state, and a success has synced the entry too.
\<close>

lemma fresh_tmp_written:
  assumes "os_write (marshal_state st) (fresh_tmp s) = (False, i1)" and "os_sync i1 = (False, i2)"
    and "os_call i2 = (e, i3)"
  shows "cached i3 = marshal_state st \<and> synced i3"
proof -
  obtain k where "\<not> False \<Longrightarrow> cached i1 = cached (fresh_tmp s) @ marshal_state st"
    using os_write_cases [OF assms(1)] by metis
  then have "cached i1 = marshal_state st" by (simp add: fresh_tmp_def)
  then show ?thesis
    using os_sync_cases [OF assms(2)] os_call_cases [OF assms(3)] by (simp add: synced_def)
qed

lemma Save_cases:
  assumes "Save s st = (r, s')"
  obtains (untouched) "r \<noteq> None" and "entry s' = entry s" and "unsynced s' = unsynced s"
  | (renamed) i where "r \<noteq> None" and "cached i = marshal_state st" and "synced i"
      and "entry s' = Some i" and "unsynced s' = entry s # unsynced s"
  | (saved) i where "r = None" and "cached i = marshal_state st" and "synced i"
      and "entry s' = Some i" and "unsynced s' = []"
proof -
  obtain e0 d0 where c0: "os_call (dir s) = (e0, d0)" by fastforce
  let ?s = "s\<lparr>dir := d0\<rparr>"
  obtain e1 i1 where c1: "os_write (marshal_state st) (fresh_tmp ?s) = (e1, i1)" by fastforce
  obtain e2 i2 where c2: "os_sync i1 = (e2, i2)" by fastforce
  obtain e3 i3 where c3: "os_call i2 = (e3, i3)" by fastforce
  obtain e4 d4 where c4: "os_call (dir (keep_tmp i3 ?s)) = (e4, d4)" by fastforce
  obtain e5 d5 where c5: "SyncDir d4 = (e5, d5)" by fastforce
  have run: "(r, s') =
      (if e0 then (Some ErrCreateTemp, ?s)
       else if e1 then (Some ErrWriteTemp, keep_tmp i1 ?s)
       else if e2 then (Some ErrSyncTemp, keep_tmp i2 ?s)
       else if e3 then (Some ErrCloseTemp, keep_tmp i3 ?s)
       else if e4 then (Some ErrRename, (keep_tmp i3 ?s)\<lparr>dir := d4\<rparr>)
       else case e5 of
         Some x \<Rightarrow> (Some (ErrSyncStateDir x),
           (keep_tmp i3 ?s)\<lparr>entry := Some i3, tmp := None, unsynced := entry s # unsynced s, dir := d5\<rparr>)
       | None \<Rightarrow> (None, (keep_tmp i3 ?s)\<lparr>entry := Some i3, tmp := None, dir := d5, unsynced := []\<rparr>))"
    using assms
    by (cases e0; cases e1; cases e2; cases e3; cases e4; cases e5;
        simp add: Save_def Let_def c0 c1 c2 c3 c4 c5)
  show thesis
  proof (cases "e0 \<or> e1 \<or> e2 \<or> e3 \<or> e4")
    case True
    with run show thesis by (intro untouched) (auto simp: keep_tmp_def split: if_splits)
  next
    case False
    then have i3: "cached i3 = marshal_state st" "synced i3"
      using fresh_tmp_written [OF _ _ c3] c1 c2 by auto
    from False run show thesis
      by (cases e5) (auto intro: renamed [OF _ i3] saved [OF _ i3])
  qed
qed

text \<open>In a directory where nothing fails \<^verbatim>\<open>Save\<close> succeeds.\<close>

lemma Save_no_faults:
  assumes "faults (dir s) = []" and "\<not> is_closed (dir s)"
  shows "Save s st = (None, s\<lparr>entry := Some \<lparr>cached = marshal_state st, durable = marshal_state st,
    is_closed = False, faults = []\<rparr>, tmp := None, unsynced := []\<rparr>)"
  using assms by (cases s; cases "dir s") (simp add: Save_def fresh_tmp_def keep_tmp_def Let_def SyncDir_def syncDir_def)

lemma Save_ok:
  assumes "Save s st = (None, s')"
  shows "may_hold s' {sanitize_state st}"
  using assms by (rule Save_cases) (auto simp: may_hold_def entry_holds_def)

lemma Save_failed:
  assumes "may_hold s S" and "Save s st = (r, s')"
  shows "may_hold s' (insert (sanitize_state st) S)"
  using assms(2)
proof (rule Save_cases)
  fix i assume "cached i = marshal_state st" "synced i" "entry s' = Some i" "unsynced s' = entry s # unsynced s"
  moreover have "may_hold s (insert (sanitize_state st) S)" using assms(1) by (rule may_hold_mono) auto
  ultimately show ?thesis by (auto simp: may_hold_def entry_holds_def)
next
  assume "entry s' = entry s" "unsynced s' = unsynced s"
  then show ?thesis using may_hold_mono [OF assms(1), of "insert (sanitize_state st) S"] by (auto simp: may_hold_def)
qed (simp add: may_hold_def entry_holds_def, blast)

subsection \<open>The contract the node relies on\<close>

text \<open>
  A store of a value that survives crashes: \<open>survivors s\<close> are the values a restart now may find.
  After a successful save it finds that value, after a failed one that value or one
  it could find before. (That a restart finds something at all is \<open>OpenStateStore_after_crash\<close>.)
\<close>

locale stable_storage =
  fixes save :: "'s \<Rightarrow> 'v \<Rightarrow> 'e option \<times> 's"
    and survivors :: "'s \<Rightarrow> 'v set"
    and norm :: "'v \<Rightarrow> 'v"
  assumes save_ok: "save s v = (None, s') \<Longrightarrow> survivors s' \<subseteq> {norm v}"
    and save_err: "save s v = (r, s') \<Longrightarrow> survivors s' \<subseteq> insert (norm v) (survivors s)"
begin

text \<open>
  What a sequence of saves, some of which failed, leaves behind: one of the values saved
  since the last success, or a value the store could bring back before it.
\<close>

primrec saves :: "'s \<Rightarrow> 'v list \<Rightarrow> 's" where
  "saves s [] = s" |
  "saves s (v # vs) = saves (snd (save s v)) vs"

lemma back_saves: "survivors (saves s vs) \<subseteq> norm ` set vs \<union> survivors s"
proof (induction vs arbitrary: s)
  case (Cons v vs)
  have "survivors (snd (save s v)) \<subseteq> insert (norm v) (survivors s)"
    using save_err prod.collapse by metis
  with Cons [of "snd (save s v)"] show ?case by auto
qed simp

lemma back_after_success:
  assumes "save s v = (None, s')"
  shows "survivors (saves s' vs) \<subseteq> norm ` set (v # vs)"
  using back_saves [of s' vs] save_ok [OF assms] by auto

text \<open>So a measure that only grows from save to save never falls below the last acknowledged value.\<close>

lemma never_below:
  fixes m :: "'v \<Rightarrow> 'n :: order"
  assumes "save s v = (None, s')" and "\<And>x. m (norm x) = m x" and "\<forall>x \<in> set vs. m v \<le> m x"
    and "x \<in> survivors (saves s' vs)"
  shows "m v \<le> m x"
  using back_after_success [OF assms(1), of vs] assms by auto

end

definition state_back :: "StateStore \<Rightarrow> PersistentState set" where
  "state_back s = {st. \<exists>s'. crash_dir s s' \<and> OpenStateStore s' = Inr (s', st)}"

lemma state_back_bound: "may_hold s S \<Longrightarrow> state_back s \<subseteq> S"
  using OpenStateStore_after_crash by (fastforce simp: state_back_def)

lemma state_back_entries:
  assumes "set (entry s' # unsynced s') \<subseteq> insert (Some i) (set (entry s # unsynced s))"
    and "cached i = marshal_state st" and "synced i"
  shows "state_back s' \<subseteq> insert (sanitize_state st) (state_back s)"
proof
  fix v assume "v \<in> state_back s'"
  then obtain d e where d: "faults (dir d) = []" "e \<in> set (entry s' # unsynced s')" "crash_entry e (entry d)"
      "OpenStateStore d = Inr (d, v)" "\<not> is_closed (dir d)" "unsynced d = []"
    by (auto simp: state_back_def crash_dir_def)
  show "v \<in> insert (sanitize_state st) (state_back s)"
  proof (cases "e \<in> set (entry s # unsynced s)")
    case True
    with d show ?thesis by (auto simp: state_back_def crash_dir_def)
  next
    case False
    with d(2) assms(1) have "e = Some i" by blast
    with d(3) assms(2,3) obtain i' where "entry d = Some i'" "cached i' = marshal_state st"
      by (cases "entry d") (auto simp: crash_entry_def crash_synced)
    with d(1,4) show ?thesis
      by (auto simp: OpenStateStore_def source_of_def next_io_def unmarshal_marshal_state)
  qed
qed

text \<open>The node that opened the directory runs on it; what faults it will meet is open again.\<close>

definition with_faults :: "io list \<Rightarrow> StateStore \<Rightarrow> StateStore" where
  "with_faults fs s = s\<lparr>dir := (dir s)\<lparr>faults := fs\<rparr>\<rparr>"

lemma OpenStateStore_cached:
  assumes "crash_entry (entry s) (entry s')" and "case entry s of None \<Rightarrow> True | Some i \<Rightarrow> synced i"
    and "OpenStateStore s = Inr (t, st)" and "OpenStateStore s' = Inr (t', st')"
    and "faults (dir s) = []" and "faults (dir s') = []"
  shows "st' = st"
proof (cases "entry s")
  case None
  with assms show ?thesis by (cases "entry s'") (auto simp: crash_entry_def OpenStateStore_def)
next
  case (Some i)
  with assms obtain i' where "entry s' = Some i'" "cached i' = cached i"
    by (cases "entry s'") (auto simp: crash_entry_def crash_synced)
  with Some assms show ?thesis
    by (auto simp: OpenStateStore_def source_of_def next_io_def split: option.splits)
qed

lemma restart_back:
  assumes c: "crash_dir s s'" and o: "OpenStateStore s' = Inr (s'', st)"
  shows "st \<in> state_back s" and "state_back (with_faults fs s') \<subseteq> {st}"
proof -
  have s'': "s'' = s'" using o c
    by (auto simp: OpenStateStore_def source_of_def next_io_def crash_dir_def split: option.splits)
  with c o show "st \<in> state_back s" by (auto simp: state_back_def)
  have syn: "case entry s' of None \<Rightarrow> True | Some i \<Rightarrow> synced i"
    using c by (auto simp: crash_dir_def crash_entry_def split: option.splits)
  show "state_back (with_faults fs s') \<subseteq> {st}"
  proof
    fix v assume "v \<in> state_back (with_faults fs s')"
    then obtain d where d: "crash_dir (with_faults fs s') d" "OpenStateStore d = Inr (d, v)"
      by (auto simp: state_back_def)
    then have "crash_entry (entry s') (entry d)" "faults (dir d) = []"
      using c by (auto simp: crash_dir_def with_faults_def)
    with OpenStateStore_cached [OF _ syn o d(2)] c show "v \<in> {st}" by (simp add: crash_dir_def)
  qed
qed

interpretation state_file: stable_storage Save state_back sanitize_state
proof unfold_locales
  show "state_back s' \<subseteq> {sanitize_state v}" if "Save s v = (None, s')" for s v s'
    using Save_ok [OF that] by (rule state_back_bound)
  show "state_back s' \<subseteq> insert (sanitize_state v) (state_back s)" if "Save s v = (r, s')" for s v r s'
    using that
  proof (rule Save_cases)
    assume "entry s' = entry s" "unsynced s' = unsynced s"
    then have "state_back s' = state_back s" by (simp add: state_back_def crash_dir_def)
    then show ?thesis by blast
  next
    fix i assume "cached i = marshal_state v" "synced i" "entry s' = Some i" "unsynced s' = entry s # unsynced s"
    then show ?thesis by (intro state_back_entries [of s' i s]) auto
  next
    fix i assume "cached i = marshal_state v" "synced i" "entry s' = Some i" "unsynced s' = []"
    then show ?thesis by (intro state_back_entries [of s' i s]) auto
  qed
qed

text \<open>A new node's directory: no state file, so term 0 and no vote come back.\<close>

definition new_dir :: "io list \<Rightarrow> StateStore" where
  "new_dir fs = \<lparr>entry = None, unsynced = [], tmp = None,
     dir = \<lparr>cached = [], durable = [], is_closed = False, faults = fs\<rparr>\<rparr>"

lemma may_hold_new_dir: "may_hold (new_dir fs) {zero_state}"
  by (simp add: may_hold_def entry_holds_def new_dir_def)

end
