(* ===== verification/Raft_Node.thy ===== *)
theory Raft_Node
  imports Raft_Rpc Raft_Log Raft_State
begin

text \<open>
  \<^verbatim>\<open>src/internal/raft/node.go\<close>: one member of the cluster. Every function below is a
  critical section of the code (what it does while it holds \<^verbatim>\<open>n.mu\<close> or \<^verbatim>\<open>n.applyMu\<close>), or
  a composition of such sections the way the code composes them, with what happens in
  between left to a parameter.
\<close>

datatype Role = Follower | Candidate | Leader

text \<open>The constants are numbered by \<^verbatim>\<open>iota\<close>: a role is an integer, and ordered as one.\<close>

fun role_number :: "Role \<Rightarrow> nat" where
  "role_number Follower = 0"
| "role_number Candidate = 1"
| "role_number Leader = 2"

instantiation Role :: linorder
begin

definition less_eq_Role :: "Role \<Rightarrow> Role \<Rightarrow> bool" where
  "less_eq_Role r s \<longleftrightarrow> role_number r \<le> role_number s"

definition less_Role :: "Role \<Rightarrow> Role \<Rightarrow> bool" where
  "less_Role r s \<longleftrightarrow> role_number r < role_number s"

instance
proof
  fix r s :: Role
  show "r \<le> s \<Longrightarrow> s \<le> r \<Longrightarrow> r = s"
    by (cases r; cases s) (simp_all add: less_eq_Role_def)
qed (auto simp: less_eq_Role_def less_Role_def)

end

lemma Follower_least [simp]: "Follower \<le> r"
  by (simp add: less_eq_Role_def)

definition Role_String :: "Role \<Rightarrow> string" where
  "Role_String r = (case r of Leader \<Rightarrow> ''leader'' | Candidate \<Rightarrow> ''candidate'' | Follower \<Rightarrow> ''follower'')"

definition maxWalkbackAttempts :: nat where "maxWalkbackAttempts = 64"

text \<open>
  \<open>machine\<close> is the state behind the \<^verbatim>\<open>apply\<close> callback; \<open>applyWait\<close> counts how often the
  channel of that name was closed and replaced. Times and durations are nanoseconds.
  Batches of reads waiting for a leadership confirmation are named by numbers, of
  which \<open>confirmSeq\<close> is the next unused one.
\<close>

record 's Node =
  cfg :: Config
  nlog :: Log
  apply_fn :: "'s \<Rightarrow> Record \<Rightarrow> 's"
  machine :: 's
  nstate :: "StateStore option"
  currentTerm :: u64
  votedFor :: NodeID
  role :: Role
  leaderID :: NodeID
  lastHeard :: int
  heartbeatInterval :: int
  electionTimeoutMin :: int
  electionTimeoutMax :: int
  noReadBatching :: bool
  confirmNext :: "nat option"
  confirmRunning :: bool
  confirmSeq :: nat
  commitIndex :: u64
  lastApplied :: u64
  applyWait :: nat
  nextIndex :: "NodeID \<rightharpoonup> u64"
  matchIndex :: "NodeID \<rightharpoonup> u64"

datatype node_error = ErrNotLeader | ErrNoLeader | ErrLeadershipLost
  | ErrLeaderAppend log_error | ErrShort u64 nat nat nat | ErrDeadline u64 | ErrNotCommitted u64
  | ErrState state_error | ErrPersistVote state_error | ErrPersistTerm state_error | ErrFollowerAppend log_error
  | ErrWaitApplied u64 | ErrReadIndexFrom NodeID | ErrForwardTo NodeID | ErrRefused NodeID string

text \<open>Reading a Go map: the zero value for a missing key.\<close>

definition at0 :: "(NodeID \<rightharpoonup> u64) \<Rightarrow> NodeID \<Rightarrow> u64" where
  "at0 m k = (case m k of None \<Rightarrow> 0 | Some v \<Rightarrow> v)"

subsection \<open>Construction\<close>

definition defaultHeartbeatInterval :: int where "defaultHeartbeatInterval = 50000000"
definition defaultElectionTimeoutMin :: int where "defaultElectionTimeoutMin = 150000000"
definition defaultElectionTimeoutMax :: int where "defaultElectionTimeoutMax = 300000000"

record 's Options =
  o_Config :: Config
  o_Log :: Log
  o_State :: "StateStore option"
  o_Apply :: "('s \<Rightarrow> Record \<Rightarrow> 's) option"
  o_DisableReadBatching :: bool
  o_HeartbeatInterval :: int
  o_ElectionTimeoutMin :: int
  o_ElectionTimeoutMax :: int

definition orDefault :: "int \<Rightarrow> int \<Rightarrow> int" where
  "orDefault v fallback = (if v \<le> 0 then fallback else v)"

datatype new_error = ErrConfig config_error | ErrTimeouts int int

definition NewNode :: "'s Options \<Rightarrow> PersistentState \<Rightarrow> 's \<Rightarrow> int \<Rightarrow> new_error + 's Node" where
  "NewNode opts restored m now =
     (case Validate (o_Config opts) of
        Some e \<Rightarrow> Inl (ErrConfig e)
      | None \<Rightarrow>
          (let n = \<lparr>cfg = o_Config opts, nlog = o_Log opts,
                 apply_fn = (case o_Apply opts of None \<Rightarrow> (\<lambda>m r. m) | Some a \<Rightarrow> a), machine = m,
                 nstate = o_State opts, currentTerm = CurrentTerm restored, votedFor = VotedFor restored,
                 role = Follower, leaderID = [], lastHeard = now,
                 heartbeatInterval = orDefault (o_HeartbeatInterval opts) defaultHeartbeatInterval,
                 electionTimeoutMin = orDefault (o_ElectionTimeoutMin opts) defaultElectionTimeoutMin,
                 electionTimeoutMax = orDefault (o_ElectionTimeoutMax opts) defaultElectionTimeoutMax,
                 noReadBatching = o_DisableReadBatching opts, confirmNext = None, confirmRunning = False,
                 confirmSeq = 0, commitIndex = 0, lastApplied = 0, applyWait = 0,
                 nextIndex = Map.empty, matchIndex = Map.empty\<rparr> in
           if electionTimeoutMax n \<le> electionTimeoutMin n
           then Inl (ErrTimeouts (electionTimeoutMax n) (electionTimeoutMin n))
           else Inr n))"

subsection \<open>Terms and votes\<close>

definition persistLocked :: "'s Node \<Rightarrow> state_error option \<times> 's Node" where
  "persistLocked n = (case nstate n of
     None \<Rightarrow> (None, n)
   | Some s \<Rightarrow>
       (let (e, s') = Save s \<lparr>CurrentTerm = currentTerm n, VotedFor = votedFor n\<rparr>
        in (e, n\<lparr>nstate := Some s'\<rparr>)))"

definition setTermLocked :: "'s Node \<Rightarrow> u64 \<Rightarrow> state_error option \<times> 's Node" where
  "setTermLocked n t =
     persistLocked (n\<lparr>currentTerm := t, votedFor := [], leaderID := [], role := Follower\<rparr>)"

definition logUpToDateLocked :: "'s Node \<Rightarrow> u64 \<Rightarrow> u64 \<Rightarrow> bool" where
  "logUpToDateLocked n lastIndex lastTerm =
     (let ourIndex = LastIndex (nlog n); ourTerm = LastTerm (nlog n) in
      if lastTerm \<noteq> ourTerm then lastTerm > ourTerm else lastIndex \<ge> ourIndex)"

definition noteContactLocked :: "'s Node \<Rightarrow> int \<Rightarrow> 's Node" where
  "noteContactLocked n now = n\<lparr>lastHeard := now\<rparr>"

definition HandleRequestVote ::
  "'s Node \<Rightarrow> RequestVoteRequest \<Rightarrow> int \<Rightarrow> (node_error + RequestVoteResponse) \<times> 's Node" where
  "HandleRequestVote n req now =
     (let deny = (\<lambda>n. \<lparr>vr_Term = currentTerm n, VoteGranted = False\<rparr>) in
      if vq_Term req < currentTerm n then (Inr (deny n), n)
      else
        let (e, n) = (if vq_Term req > currentTerm n then setTermLocked n (vq_Term req) else (None, n)) in
        case e of
          Some x \<Rightarrow> (Inl (ErrState x), n)
        | None \<Rightarrow>
            if votedFor n \<noteq> [] \<and> votedFor n \<noteq> CandidateID req then (Inr (deny n), n)
            else if \<not> logUpToDateLocked n (vq_LastLogIndex req) (vq_LastLogTerm req) then (Inr (deny n), n)
            else
              (case persistLocked (n\<lparr>votedFor := CandidateID req\<rparr>) of
                 (Some x, n) \<Rightarrow> (Inl (ErrPersistVote x), n)
               | (None, n) \<Rightarrow>
                   (let n = noteContactLocked n now in
                    (Inr \<lparr>vr_Term = currentTerm n, VoteGranted = True\<rparr>, n))))"

definition ID_of :: "'s Node \<Rightarrow> NodeID" where "ID_of n = cfg_ID (cfg n)"
definition IsLeader :: "'s Node \<Rightarrow> bool" where "IsLeader n \<longleftrightarrow> role n = Leader"

subsection \<open>Leadership\<close>

definition becomeLeaderLocked :: "'s Node \<Rightarrow> 's Node" where
  "becomeLeaderLocked n =
     foldl (\<lambda>n p. n\<lparr>nextIndex := (nextIndex n)(peer_ID p \<mapsto> LastIndex (nlog n) + 1),
                    matchIndex := (matchIndex n)(peer_ID p \<mapsto> 0)\<rparr>)
       (n\<lparr>role := Leader, leaderID := cfg_ID (cfg n)\<rparr>) (cfg_Peers (cfg n))"

definition BecomeLeader :: "'s Node \<Rightarrow> 's Node" where
  "BecomeLeader n =
     becomeLeaderLocked (snd (persistLocked (n\<lparr>currentTerm := currentTerm n + 1, votedFor := cfg_ID (cfg n)\<rparr>)))"

subsection \<open>Committing and applying\<close>

text \<open>The loop of \<^verbatim>\<open>advanceCommit\<close> at \<open>N\<close>: the new commit index.\<close>

definition replicas :: "'s Node \<Rightarrow> u64 \<Rightarrow> nat" where
  "replicas n N = 1 + length (filter (\<lambda>p. N \<le> at0 (matchIndex n) (peer_ID p)) (cfg_Peers (cfg n)))"

lemma unat_pred_u64: "(N :: u64) \<noteq> 0 \<Longrightarrow> unat (N - 1) = unat N - 1"
  by (metis unat_minus_one)

function commit_loop :: "'s Node \<Rightarrow> u64 \<Rightarrow> u64" where
  "commit_loop n N =
     (if N \<le> commitIndex n then commitIndex n
      else case At (nlog n) N of
        None \<Rightarrow> commit_loop n (N - 1)
      | Some e \<Rightarrow>
          if Term e \<noteq> currentTerm n then commitIndex n
          else if Majority (cfg n) \<le> replicas n N then N
          else commit_loop n (N - 1))"
  by pat_completeness auto

termination
proof (relation "measure (\<lambda>(n, N). unat N)")
  have "unat (N - 1) < unat N" if "\<not> N \<le> c" for N c :: u64
  proof -
    have "N \<noteq> 0" using that by auto
    then show ?thesis using unat_pred_u64 [of N] by (simp add: unat_gt_0)
  qed
  then show "((n, N - 1), n, N) \<in> measure (\<lambda>(n, N). unat N)"
    if "\<not> N \<le> commitIndex n" for n :: "'s Node" and N
    using that by simp
  then show "((n, N - 1), n, N) \<in> measure (\<lambda>(n, N). unat N)"
    if "\<not> N \<le> commitIndex n" for n :: "'s Node" and N
    using that by simp
qed auto

declare commit_loop.simps [simp del]

definition advanceCommit :: "'s Node \<Rightarrow> 's Node" where
  "advanceCommit n =
     (if role n \<noteq> Leader then n else n\<lparr>commitIndex := commit_loop n (LastIndex (nlog n))\<rparr>)"

text \<open>
  One round of the loop of \<^verbatim>\<open>applyCommitted\<close>: the entry to apply next, if the loop goes on,
  and the node after it was applied.
\<close>

definition apply_next :: "'s Node \<Rightarrow> Record option" where
  "apply_next n =
     (let next = lastApplied n + 1 in if commitIndex n < next then None else At (nlog n) next)"

definition apply_one :: "'s Node \<Rightarrow> Record \<Rightarrow> 's Node" where
  "apply_one n e = n\<lparr>machine := apply_fn n (machine n) e, lastApplied := lastApplied n + 1,
     applyWait := applyWait n + 1\<rparr>"

lemma apply_next_Some:
  assumes "apply_next n = Some e"
  shows "unat (lastApplied n + 1) = Suc (unat (lastApplied n)) \<and> unat (lastApplied n) < unat (commitIndex n) \<and>
    At (nlog n) (lastApplied n + 1) = Some e"
proof -
  from assms have le: "lastApplied n + 1 \<le> commitIndex n" and at: "At (nlog n) (lastApplied n + 1) = Some e"
    by (auto simp: apply_next_def Let_def split: if_splits)
  from at have "lastApplied n + 1 \<noteq> 0" by (auto simp: At_def)
  then have "lastApplied n \<noteq> - 1" by auto
  then have "unat (lastApplied n + 1) = Suc (unat (lastApplied n))" by (rule unat_succ_u64_max)
  with le at show ?thesis by (simp add: word_le_nat_alt)
qed

function applyCommitted :: "'s Node \<Rightarrow> 's Node" where
  "applyCommitted n = (case apply_next n of None \<Rightarrow> n | Some e \<Rightarrow> applyCommitted (apply_one n e))"
  by pat_completeness auto

termination
  by (relation "measure (\<lambda>n. unat (commitIndex n) - unat (lastApplied n))")
     (auto simp: apply_one_def dest!: apply_next_Some)

declare applyCommitted.simps [simp del]

subsection \<open>The follower's side\<close>

definition replyLocked :: "'s Node \<Rightarrow> bool \<Rightarrow> AppendEntriesResponse" where
  "replyLocked n success =
     \<lparr>ar_Term = currentTerm n, Success = success, ar_LastLogIndex = LastIndex (nlog n)\<rparr>"

definition handleAppendEntries ::
  "'s Node \<Rightarrow> AppendEntriesRequest \<Rightarrow> int \<Rightarrow> (node_error + AppendEntriesResponse) \<times> 's Node" where
  "handleAppendEntries n req now =
     (if aq_Term req < currentTerm n then (Inr (replyLocked n False), n)
      else
        let (e, n) = (if aq_Term req > currentTerm n then setTermLocked n (aq_Term req) else (None, n)) in
        case e of
          Some x \<Rightarrow> (Inl (ErrPersistTerm x), n)
        | None \<Rightarrow>
            (let n = noteContactLocked (n\<lparr>role := Follower, leaderID := aq_LeaderID req\<rparr>) now;
                 (r, l) = AppendAfter (nlog n) (PrevLogIndex req) (PrevLogTerm req) (Entries req);
                 n = n\<lparr>nlog := l\<rparr> in
             case r of
               Inl x \<Rightarrow> (Inl (ErrFollowerAppend x), n)
             | Inr ok \<Rightarrow>
                 if \<not> ok then (Inr (replyLocked n False), n)
                 else
                   let lastNew = PrevLogIndex req + of_nat (length (Entries req));
                       n = (if LeaderCommit req > commitIndex n
                            then n\<lparr>commitIndex := min (LeaderCommit req) lastNew\<rparr> else n) in
                   (Inr (replyLocked n True), n)))"

definition HandleAppendEntries ::
  "'s Node \<Rightarrow> AppendEntriesRequest \<Rightarrow> int \<Rightarrow> (node_error + AppendEntriesResponse) \<times> 's Node" where
  "HandleAppendEntries n req now =
     (case handleAppendEntries n req now of
        (Inl e, n) \<Rightarrow> (Inl e, n)
      | (Inr resp, n) \<Rightarrow> (Inr resp, applyCommitted n))"

subsection \<open>The leader's side\<close>

text \<open>
  What surrounds the critical sections: the transport's four calls, each of which may fail,
  and what the node's other goroutines do to it in the meantime.
\<close>

record ('s, 'w) env =
  others :: "'s Node \<Rightarrow> 'w \<Rightarrow> 's Node \<times> 'w"
  send_append :: "Peer \<Rightarrow> AppendEntriesRequest \<Rightarrow> 'w \<Rightarrow> AppendEntriesResponse option \<times> 'w"
  send_vote :: "Peer \<Rightarrow> RequestVoteRequest \<Rightarrow> 'w \<Rightarrow> RequestVoteResponse option \<times> 'w"
  send_read :: "Peer \<Rightarrow> ReadIndexRequest \<Rightarrow> 'w \<Rightarrow> ReadIndexResponse option \<times> 'w"
  send_forward :: "Peer \<Rightarrow> ForwardRequest \<Rightarrow> 'w \<Rightarrow> ForwardResponse option \<times> 'w"

text \<open>
  \<^verbatim>\<open>replicateTo\<close>: the first section reads the header of the request; the log is read
  after it, without the lock; the last section handles the reply. \<open>Some b\<close> is a return
  of \<open>b\<close>, \<^const>\<open>None\<close> another attempt.
\<close>

definition replicate_request :: "'s Node \<Rightarrow> Peer \<Rightarrow> AppendEntriesRequest option" where
  "replicate_request n p =
     (if role n \<noteq> Leader then None
      else Some \<lparr>aq_Term = currentTerm n, aq_LeaderID = cfg_ID (cfg n),
        PrevLogIndex = at0 (nextIndex n) (peer_ID p) - 1, PrevLogTerm = 0, Entries = [],
        LeaderCommit = commitIndex n\<rparr>)"

definition fill_prev :: "Log \<Rightarrow> AppendEntriesRequest \<Rightarrow> AppendEntriesRequest" where
  "fill_prev l req = req\<lparr>PrevLogTerm := (case At l (PrevLogIndex req) of None \<Rightarrow> 0 | Some e \<Rightarrow> Term e)\<rparr>"

definition fill_entries :: "Log \<Rightarrow> AppendEntriesRequest \<Rightarrow> AppendEntriesRequest" where
  "fill_entries l req = req\<lparr>Entries := EntriesFrom l (PrevLogIndex req + 1)\<rparr>"

definition replicate_reply ::
  "'s Node \<Rightarrow> Peer \<Rightarrow> AppendEntriesRequest \<Rightarrow> AppendEntriesResponse \<Rightarrow> bool option \<times> 's Node" where
  "replicate_reply n p req resp =
     (if ar_Term resp > currentTerm n then (Some False, snd (setTermLocked n (ar_Term resp)))
      else if Success resp then
        (let m = PrevLogIndex req + of_nat (length (Entries req)) in
         (Some True, n\<lparr>matchIndex := (matchIndex n)(peer_ID p \<mapsto> m),
                       nextIndex := (nextIndex n)(peer_ID p \<mapsto> m + 1)\<rparr>))
      else
        (let next = at0 (nextIndex n) (peer_ID p) in
         (None,
          if ar_LastLogIndex resp + 1 < next
          then n\<lparr>nextIndex := (nextIndex n)(peer_ID p \<mapsto> ar_LastLogIndex resp + 1)\<rparr>
          else if next > 1 then n\<lparr>nextIndex := (nextIndex n)(peer_ID p \<mapsto> next - 1)\<rparr>
          else n)))"

fun replicate_attempts ::
  "nat \<Rightarrow> ('s, 'w) env \<Rightarrow> Peer \<Rightarrow> 's Node \<Rightarrow> 'w \<Rightarrow> bool \<times> 's Node \<times> 'w" where
  "replicate_attempts 0 env p n u = (False, n, u)"
| "replicate_attempts (Suc k) env p n u =
     (case replicate_request n p of
        None \<Rightarrow> (False, n, u)
      | Some req \<Rightarrow>
          (let (n, u) = others env n u; req = fill_prev (nlog n) req;
               (n, u) = others env n u; req = fill_entries (nlog n) req;
               (n, u) = others env n u; (resp, u) = send_append env p req u;
               (n, u) = others env n u in
           case resp of
             None \<Rightarrow> (False, n, u)
           | Some resp \<Rightarrow>
               (case replicate_reply n p req resp of
                  (Some b, n) \<Rightarrow> (b, n, u)
                | (None, n) \<Rightarrow> (let (n, u) = others env n u in replicate_attempts k env p n u))))"

definition replicateTo :: "('s, 'w) env \<Rightarrow> Peer \<Rightarrow> 's Node \<Rightarrow> 'w \<Rightarrow> bool \<times> 's Node \<times> 'w" where
  "replicateTo env p n u = replicate_attempts maxWalkbackAttempts env p n u"

text \<open>
  The goroutines of one round, one per peer, and the loop that counts their answers
  (shared by \<^verbatim>\<open>Propose\<close>, \<^verbatim>\<open>campaign\<close> and \<^verbatim>\<open>confirmRound\<close>): \<open>ps\<close> are the peers in the
  order in which their answers arrive; if the list ends before the count is decided, the
  context has expired. What a goroutine does after the count is decided belongs to the
  environment.
\<close>

datatype outcome = Reached | Short nat | Expired

fun gather ::
  "(Peer \<Rightarrow> 's Node \<Rightarrow> 'w \<Rightarrow> bool \<times> 's Node \<times> 'w) \<Rightarrow> nat \<Rightarrow> nat \<Rightarrow> nat \<Rightarrow> nat \<Rightarrow> Peer list \<Rightarrow> 's Node \<Rightarrow> 'w \<Rightarrow>
   outcome \<times> 's Node \<times> 'w" where
  "gather ask need npeers got replies ps n u =
     (if need \<le> got then (Reached, n, u)
      else if replies = npeers then (Short got, n, u)
      else case ps of
        [] \<Rightarrow> (Expired, n, u)
      | p # ps \<Rightarrow>
          (let (ok, n, u) = ask p n u in
           gather ask need npeers (if ok then got + 1 else got) (replies + 1) ps n u))"

declare gather.simps [simp del]

definition propose_term :: "'s Node \<Rightarrow> u64 option" where
  "propose_term n = (if role n \<noteq> Leader then None else Some (currentTerm n))"

definition propose_append :: "'s Node \<Rightarrow> u64 \<Rightarrow> Record \<Rightarrow> (log_error + u64) \<times> 's Node" where
  "propose_append n t cmd =
     (case Log_Append (nlog n) t [cmd] of
        (_, Some e, l) \<Rightarrow> (Inl e, n\<lparr>nlog := l\<rparr>)
      | (es, None, l) \<Rightarrow> (Inr (Index (hd es)), n\<lparr>nlog := l\<rparr>))"

definition Propose ::
  "('s, 'w) env \<Rightarrow> Peer list \<Rightarrow> Record \<Rightarrow> 's Node \<Rightarrow> 'w \<Rightarrow> node_error option \<times> 's Node \<times> 'w" where
  "Propose env ps cmd n u =
     (case propose_term n of
        None \<Rightarrow> (Some ErrNotLeader, n, u)
      | Some t \<Rightarrow>
          (let (n, u) = others env n u; (r, n) = propose_append n t cmd in
           case r of
             Inl e \<Rightarrow> (Some (ErrLeaderAppend e), n, u)
           | Inr index \<Rightarrow>
               (case gather (replicateTo env) (Majority (cfg n)) (length (cfg_Peers (cfg n))) 1 0 ps n u of
                  (Short got, n, u) \<Rightarrow>
                    (Some (ErrShort index got (Majority (cfg n)) (ClusterSize (cfg n))), n, u)
                | (Expired, n, u) \<Rightarrow> (Some (ErrDeadline index), n, u)
                | (Reached, n, u) \<Rightarrow>
                    (let n = advanceCommit n; (n, u) = others env n u;
                         n = applyCommitted n; (n, u) = others env n u in
                     ((if commitIndex n < index then Some (ErrNotCommitted index) else None), n, u)))))"

text \<open>One round of \<^verbatim>\<open>AppendEntries\<close> to every peer, in some order, and then the commit index.\<close>

fun round_all :: "('s, 'w) env \<Rightarrow> Peer list \<Rightarrow> 's Node \<Rightarrow> 'w \<Rightarrow> 's Node \<times> 'w" where
  "round_all env [] n u = (n, u)"
| "round_all env (p # ps) n u = (let (_, n, u) = replicateTo env p n u in round_all env ps n u)"

definition Heartbeat :: "('s, 'w) env \<Rightarrow> Peer list \<Rightarrow> 's Node \<Rightarrow> 'w \<Rightarrow> 's Node \<times> 'w" where
  "Heartbeat env ps n u =
     (if \<not> IsLeader n then (n, u)
      else let (n, u) = others env n u; (n, u) = round_all env ps n u;
               n = advanceCommit n; (n, u) = others env n u in
        (applyCommitted n, u))"

end
