(* ===== verification/Raft_Election.thy ===== *)
theory Raft_Election
  imports Raft_Node
begin

text \<open>
  \<^verbatim>\<open>src/internal/raft/election.go\<close>: the node's clock, the candidate's side of an election,
  and the promotion of its winner.
\<close>

subsection \<open>Standing for election\<close>

text \<open>Step 1 of \<^verbatim>\<open>campaign\<close>: a new term, a vote for oneself, both on disk; then the request.\<close>

definition campaign_start ::
  "'s Node \<Rightarrow> int \<Rightarrow> (state_error + RequestVoteRequest) \<times> 's Node" where
  "campaign_start n now =
     (let n = n\<lparr>currentTerm := currentTerm n + 1, votedFor := cfg_ID (cfg n), role := Candidate,
                leaderID := [], lastHeard := now\<rparr>;
          req = \<lparr>vq_Term = currentTerm n, CandidateID = cfg_ID (cfg n),
                 vq_LastLogIndex = LastIndex (nlog n), vq_LastLogTerm = LastTerm (nlog n)\<rparr>;
          (e, n) = persistLocked n in
      case e of Some x \<Rightarrow> (Inl x, n) | None \<Rightarrow> (Inr req, n))"

text \<open>The section of a vote's goroutine: what it sends to the channel \<^verbatim>\<open>votes\<close>.\<close>

definition vote_reply :: "'s Node \<Rightarrow> RequestVoteResponse \<Rightarrow> bool \<times> 's Node" where
  "vote_reply n resp =
     (if vr_Term resp > currentTerm n then (False, snd (setTermLocked n (vr_Term resp)))
      else (VoteGranted resp, n))"

definition ask_vote ::
  "('s, 'w) env \<Rightarrow> RequestVoteRequest \<Rightarrow> Peer \<Rightarrow> 's Node \<Rightarrow> 'w \<Rightarrow> bool \<times> 's Node \<times> 'w" where
  "ask_vote env req p n u =
     (let (resp, u) = send_vote env p req u; (n, u) = others env n u in
      case resp of None \<Rightarrow> (False, n, u)
      | Some resp \<Rightarrow> (let (ok, n) = vote_reply n resp in (ok, n, u)))"

text \<open>The section of \<^verbatim>\<open>winElection\<close>: whether the node was promoted.\<close>

definition promote :: "'s Node \<Rightarrow> u64 \<Rightarrow> bool \<times> 's Node" where
  "promote n t =
     (if role n \<noteq> Candidate \<or> currentTerm n \<noteq> t then (False, n) else (True, becomeLeaderLocked n))"

definition noop :: Record where
  "noop = zero_record\<lparr>Op := OpNoop\<rparr>"

definition winElection :: "('s, 'w) env \<Rightarrow> Peer list \<Rightarrow> u64 \<Rightarrow> 's Node \<Rightarrow> 'w \<Rightarrow> 's Node \<times> 'w" where
  "winElection env ps t n u =
     (let (won, n) = promote n t in
      if \<not> won then (n, u)
      else let (n, u) = others env n u in snd (Propose env ps noop n u))"

text \<open>
  The whole of \<^verbatim>\<open>campaign\<close>: \<open>ps\<close> is the order in which the votes come in, \<open>qs\<close> that of the
  answers to the no-op.
\<close>

definition campaign ::
  "('s, 'w) env \<Rightarrow> Peer list \<Rightarrow> Peer list \<Rightarrow> int \<Rightarrow> 's Node \<Rightarrow> 'w \<Rightarrow> 's Node \<times> 'w" where
  "campaign env ps qs now n u =
     (case campaign_start n now of
        (Inl _, n) \<Rightarrow> (n, u)
      | (Inr req, n) \<Rightarrow>
          (let (n, u) = others env n u in
           case gather (ask_vote env req) (Majority (cfg n)) (length (cfg_Peers (cfg n))) 1 0 ps n u of
             (Reached, n, u) \<Rightarrow> (let (n, u) = others env n u in winElection env qs (vq_Term req) n u)
           | (_, n, u) \<Rightarrow> (n, u)))"

subsection \<open>The clock\<close>

text \<open>
  \<^verbatim>\<open>rand.Int63n\<close> returns a number from 0 up to, not including, its argument (which it
  requires to be positive); \<open>r\<close> is that number.
\<close>

definition randomElectionTimeout :: "'s Node \<Rightarrow> int \<Rightarrow> int" where
  "randomElectionTimeout n r = electionTimeoutMin n + r"

text \<open>
  What \<^verbatim>\<open>runFollower\<close> does when its timer fires: leave the loop, wait again, or campaign;
  and \<^verbatim>\<open>runLeader\<close> at its tick.
\<close>

datatype wake = Leave | Keep_waiting | Stand

definition follower_wakes :: "'s Node \<Rightarrow> int \<Rightarrow> int \<Rightarrow> wake" where
  "follower_wakes n timeout now =
     (if IsLeader n then Leave
      else if now - lastHeard n < timeout then Keep_waiting else Stand)"

text \<open>
  \<^verbatim>\<open>runFollower\<close> over a list of timer firings, each with the random number drawn for it, the
  time it fires at, and what the rest of the node did while it was waiting. The context
  is cancelled when the list ends.
\<close>

fun runFollower ::
  "('s, 'w) env \<Rightarrow> Peer list \<Rightarrow> Peer list \<Rightarrow> (int \<times> int) list \<Rightarrow> 's Node \<Rightarrow> 'w \<Rightarrow> 's Node \<times> 'w" where
  "runFollower env ps qs [] n u = (n, u)"
| "runFollower env ps qs ((r, now) # ticks) n u =
     (let timeout = randomElectionTimeout n r; (n, u) = others env n u in
      case follower_wakes n timeout now of
        Leave \<Rightarrow> (n, u)
      | Keep_waiting \<Rightarrow> runFollower env ps qs ticks n u
      | Stand \<Rightarrow> campaign env ps qs now n u)"

text \<open>\<^verbatim>\<open>beat\<close> is a \<^verbatim>\<open>Heartbeat\<close> with a deadline: peers that miss it do not answer.\<close>

definition beat :: "('s, 'w) env \<Rightarrow> Peer list \<Rightarrow> 's Node \<Rightarrow> 'w \<Rightarrow> 's Node \<times> 'w" where
  "beat env ps n u = Heartbeat env ps n u"

text \<open>\<^verbatim>\<open>runLeader\<close>: one beat at once, then one per tick (here: per order of its answers).\<close>

fun leader_ticks :: "('s, 'w) env \<Rightarrow> Peer list list \<Rightarrow> 's Node \<Rightarrow> 'w \<Rightarrow> 's Node \<times> 'w" where
  "leader_ticks env [] n u = (n, u)"
| "leader_ticks env (ps # pss) n u =
     (let (n, u) = others env n u in
      if \<not> IsLeader n then (n, u)
      else let (n, u) = beat env ps n u in leader_ticks env pss n u)"

definition runLeader :: "('s, 'w) env \<Rightarrow> Peer list \<Rightarrow> Peer list list \<Rightarrow> 's Node \<Rightarrow> 'w \<Rightarrow> 's Node \<times> 'w" where
  "runLeader env ps pss n u = (let (n, u) = beat env ps n u in leader_ticks env pss n u)"

text \<open>
  \<^verbatim>\<open>run\<close>: the two loops in turn, whichever the role asks for. A turn holds the inputs of both;
  the context is cancelled when the list ends.
\<close>

record turn =
  beat_order :: "Peer list"
  tick_orders :: "Peer list list"
  vote_order :: "Peer list"
  noop_order :: "Peer list"
  firings :: "(int \<times> int) list"

fun run :: "('s, 'w) env \<Rightarrow> turn list \<Rightarrow> 's Node \<Rightarrow> 'w \<Rightarrow> 's Node \<times> 'w" where
  "run env [] n u = (n, u)"
| "run env (x # xs) n u =
     (let (n, u) = (if IsLeader n then runLeader env (beat_order x) (tick_orders x) n u
                    else runFollower env (vote_order x) (noop_order x) (firings x) n u);
          (n, u) = others env n u in
      run env xs n u)"

definition Start :: "'s Node \<Rightarrow> int \<Rightarrow> 's Node" where
  "Start n now = n\<lparr>lastHeard := now\<rparr>"

subsection \<open>Starting and stopping the clock\<close>

text \<open>
  The goroutines of \<^verbatim>\<open>Start\<close> and what \<^verbatim>\<open>Stop\<close> does about them. Contexts are numbered as they are made:
  \<open>loops\<close> has those of the goroutines \<^verbatim>\<open>n.wg\<close> counts, \<open>cancelFunc\<close> is \<^verbatim>\<open>n.cancel\<close>.
\<close>

record clockwork =
  cancelFunc :: "nat option"
  contexts :: nat
  cancelled :: "nat set"
  loops :: "nat set"

definition no_clock :: clockwork where
  "no_clock = \<lparr>cancelFunc = None, contexts = 0, cancelled = {}, loops = {}\<rparr>"

definition clock_start :: "clockwork \<Rightarrow> clockwork" where
  "clock_start k = k\<lparr>cancelFunc := Some (contexts k), contexts := contexts k + 1, loops := insert (contexts k) (loops k)\<rparr>"

definition Stop_cancel :: "clockwork \<Rightarrow> clockwork" where
  "Stop_cancel k = (case cancelFunc k of None \<Rightarrow> k
     | Some c \<Rightarrow> k\<lparr>cancelFunc := None, cancelled := insert c (cancelled k)\<rparr>)"

text \<open>\<^verbatim>\<open>run\<close> and its two loops return when their context is cancelled; \<^verbatim>\<open>Stop\<close> returns when all have.\<close>

definition loop_ends :: "clockwork \<Rightarrow> nat \<Rightarrow> clockwork option" where
  "loop_ends k c = (if c \<in> loops k \<and> c \<in> cancelled k then Some (k\<lparr>loops := loops k - {c}\<rparr>) else None)"

definition Stop_returns :: "clockwork \<Rightarrow> bool" where
  "Stop_returns k \<longleftrightarrow> loops k = {}"

text \<open>
  A clock that was started once can be stopped, and stopped again. One that was started twice
  cannot: the second \<^verbatim>\<open>Start\<close> overwrites the only way to cancel the first goroutine, and
  \<^verbatim>\<open>Stop\<close> waits for it for ever.
\<close>

lemma Stop_started:
  defines "k \<equiv> Stop_cancel (clock_start no_clock)"
  shows "\<exists>k'. loop_ends k 0 = Some k' \<and> Stop_returns k' \<and> Stop_cancel k' = k'"
  by (simp add: k_def Stop_cancel_def clock_start_def no_clock_def loop_ends_def Stop_returns_def)

lemma Stop_unstarted: "Stop_returns (Stop_cancel no_clock)"
  by (simp add: Stop_cancel_def no_clock_def Stop_returns_def)

inductive winds_down :: "clockwork \<Rightarrow> clockwork \<Rightarrow> bool" where
  still: "winds_down k k"
| loop: "winds_down k l \<Longrightarrow> loop_ends l c = Some m \<Longrightarrow> winds_down k m"
| again: "winds_down k l \<Longrightarrow> winds_down k (Stop_cancel l)"

lemma Stop_started_twice:
  assumes "winds_down (Stop_cancel (clock_start (clock_start no_clock))) k"
  shows "\<not> Stop_returns k"
proof -
  have "0 \<in> loops k \<and> 0 \<notin> cancelled k \<and> cancelFunc k = None"
    using assms
    by (induction "Stop_cancel (clock_start (clock_start no_clock))" k)
       (auto simp: Stop_cancel_def clock_start_def no_clock_def loop_ends_def intro: gr0I split: if_splits)
  then show ?thesis by (auto simp: Stop_returns_def)
qed

end
