(* ===== verification/Raft_Read.thy ===== *)
theory Raft_Read
  imports Raft_Election
begin

text \<open>
  \<^verbatim>\<open>src/internal/raft/read.go\<close>: linearizable reads (a leadership confirmation shared by a
  batch of readers, then waiting for the state machine) and forwarded writes.
\<close>

subsection \<open>Probes and confirmation rounds\<close>

definition probe_request :: "'s Node \<Rightarrow> AppendEntriesRequest option" where
  "probe_request n =
     (if role n \<noteq> Leader then None
      else Some \<lparr>aq_Term = currentTerm n, aq_LeaderID = cfg_ID (cfg n), PrevLogIndex = 0,
        PrevLogTerm = 0, Entries = [], LeaderCommit = commitIndex n\<rparr>)"

text \<open>
  The answer to a probe is handled in two sections, with the lock released in between: the
  comparison with \<^verbatim>\<open>n.Term()\<close>, and the change of term.
\<close>

definition probe_newer :: "'s Node \<Rightarrow> AppendEntriesResponse \<Rightarrow> bool" where
  "probe_newer n resp \<longleftrightarrow> ar_Term resp > currentTerm n"

definition probe_set :: "'s Node \<Rightarrow> AppendEntriesResponse \<Rightarrow> 's Node" where
  "probe_set n resp = snd (setTermLocked n (ar_Term resp))"

definition probe :: "('s, 'w) env \<Rightarrow> Peer \<Rightarrow> 's Node \<Rightarrow> 'w \<Rightarrow> bool \<times> 's Node \<times> 'w" where
  "probe env p n u =
     (case probe_request n of
        None \<Rightarrow> (False, n, u)
      | Some req \<Rightarrow>
          (let (n, u) = others env n u; (resp, u) = send_append env p req u; (n, u) = others env n u in
           case resp of
             None \<Rightarrow> (False, n, u)
           | Some resp \<Rightarrow>
               if probe_newer n resp
               then let (n, u) = others env n u in (False, probe_set n resp, u)
               else (Success resp, n, u)))"

definition confirmRound ::
  "('s, 'w) env \<Rightarrow> Peer list \<Rightarrow> 's Node \<Rightarrow> 'w \<Rightarrow> (node_error + u64) \<times> 's Node \<times> 'w" where
  "confirmRound env ps n u =
     (if role n \<noteq> Leader then (Inl ErrNotLeader, n, u)
      else
        let readIndex = commitIndex n in
        if cfg_Peers (cfg n) = [] then (Inr readIndex, n, u)
        else
          (let (n, u) = others env n u in
           case gather (probe env) (Majority (cfg n)) (length (cfg_Peers (cfg n))) 1 0 ps n u of
             (Reached, n, u) \<Rightarrow>
               (let (n, u) = others env n u in
                if \<not> IsLeader n then (Inl ErrNotLeader, n, u) else (Inr readIndex, n, u))
           | (_, n, u) \<Rightarrow> (Inl ErrLeadershipLost, n, u)))"

subsection \<open>Batching\<close>

text \<open>
  The section of \<^verbatim>\<open>ConfirmLeadership\<close> under \<^verbatim>\<open>confirmMu\<close>: the batch the reader joins, and
  whether it has to start the goroutine that runs the rounds.
\<close>

definition join_batch :: "'s Node \<Rightarrow> nat \<times> bool \<times> 's Node" where
  "join_batch n =
     (let (batch, n) = (case confirmNext n of
            None \<Rightarrow> (confirmSeq n, n\<lparr>confirmNext := Some (confirmSeq n), confirmSeq := confirmSeq n + 1\<rparr>)
          | Some b \<Rightarrow> (b, n));
          startIt = (\<not> confirmRunning n) in
      (batch, startIt, if startIt then n\<lparr>confirmRunning := True, confirmNext := None\<rparr> else n))"

text \<open>The section of \<^verbatim>\<open>runConfirm\<close> after a round: the next batch, if one is queued.\<close>

definition next_batch :: "'s Node \<Rightarrow> nat option \<times> 's Node" where
  "next_batch n =
     (case confirmNext n of
        Some b \<Rightarrow> (Some b, n\<lparr>confirmNext := None\<rparr>)
      | None \<Rightarrow> (None, n\<lparr>confirmRunning := False\<rparr>))"

text \<open>
  \<^verbatim>\<open>ConfirmLeadership\<close>: without batching every reader runs a round of its own. With it the
  result is that of the batch, which the round of some goroutine computes: the argument
  \<open>batched\<close>, \<^const>\<open>None\<close> when the caller's context expires first.
\<close>

definition ConfirmLeadership ::
  "('s, 'w) env \<Rightarrow> Peer list \<Rightarrow> ('s Node \<Rightarrow> 'w \<Rightarrow> (node_error + u64) option \<times> 's Node \<times> 'w) \<Rightarrow> 's Node \<Rightarrow> 'w \<Rightarrow>
   (node_error + u64) \<times> 's Node \<times> 'w" where
  "ConfirmLeadership env ps batched n u =
     (if \<not> IsLeader n then (Inl ErrNotLeader, n, u)
      else let (n, u) = others env n u in
        if noReadBatching n then confirmRound env ps n u
        else case batched n u of
          (Some r, n, u) \<Rightarrow> (r, n, u)
        | (None, n, u) \<Rightarrow> (Inl ErrLeadershipLost, n, u))"

subsection \<open>Waiting for the state machine\<close>

text \<open>
  One pass of \<^verbatim>\<open>WaitForApplied\<close>: done, or the channel to wait on. The pass is repeated when
  that channel is closed.
\<close>

definition wait_pass :: "'s Node \<Rightarrow> u64 \<Rightarrow> nat option" where
  "wait_pass n index = (if index \<le> lastApplied n then None else Some (applyWait n))"

text \<open>
  The whole loop: the first argument is how often the channel is closed before the context
  expires.
\<close>

fun WaitForApplied :: "nat \<Rightarrow> ('s, 'w) env \<Rightarrow> u64 \<Rightarrow> 's Node \<Rightarrow> 'w \<Rightarrow> node_error option \<times> 's Node \<times> 'w" where
  "WaitForApplied wakes env index n u =
     (case wait_pass n index of
        None \<Rightarrow> (None, n, u)
      | Some _ \<Rightarrow>
          (case wakes of
             0 \<Rightarrow> (Some (ErrWaitApplied index), n, u)
           | Suc k \<Rightarrow> (let (n, u) = others env n u in WaitForApplied k env index n u)))"

declare WaitForApplied.simps [simp del]

subsection \<open>Who is the leader\<close>

definition leaderPeer :: "'s Node \<Rightarrow> Peer option" where
  "leaderPeer n =
     (if leaderID n = [] \<or> leaderID n = cfg_ID (cfg n) then None else PeerByID (cfg n) (leaderID n))"

text \<open>
  \<^verbatim>\<open>ReadIndex\<close>, with the leader's confirmation as the parameter \<open>confirm\<close>: the batch's
  result is that of some round (above), or an error when the caller's context expires.
\<close>

definition ReadIndex ::
  "('s, 'w) env \<Rightarrow> ('s Node \<Rightarrow> 'w \<Rightarrow> (node_error + u64) \<times> 's Node \<times> 'w) \<Rightarrow> 's Node \<Rightarrow> 'w \<Rightarrow>
   (node_error + u64) \<times> 's Node \<times> 'w" where
  "ReadIndex env confirm n u =
     (if IsLeader n then let (n, u) = others env n u in confirm n u
      else let (n, u) = others env n u in
        case leaderPeer n of
          None \<Rightarrow> (Inl ErrNoLeader, n, u)
        | Some p \<Rightarrow>
            (let (n, u) = others env n u;
                 req = \<lparr>rq_Term = currentTerm n, FromNodeID = cfg_ID (cfg n)\<rparr>;
                 (resp, u) = send_read env p req u; (n, u) = others env n u in
             case resp of
               None \<Rightarrow> (Inl (ErrReadIndexFrom (peer_ID p)), n, u)
             | Some resp \<Rightarrow>
                 if \<not> IsLeader_flag resp then (Inl ErrNoLeader, n, u)
                 else (Inr (ReadIndex_value resp), n, u)))"

definition LinearizableRead ::
  "('s, 'w) env \<Rightarrow> ('s Node \<Rightarrow> 'w \<Rightarrow> (node_error + u64) \<times> 's Node \<times> 'w) \<Rightarrow> nat \<Rightarrow> 's Node \<Rightarrow> 'w \<Rightarrow>
   node_error option \<times> 's Node \<times> 'w" where
  "LinearizableRead env confirm wakes n u =
     (case ReadIndex env confirm n u of
        (Inl e, n, u) \<Rightarrow> (Some e, n, u)
      | (Inr index, n, u) \<Rightarrow>
          (let (n, u) = others env n u in WaitForApplied wakes env index n u))"

definition read_term :: "'s Node \<Rightarrow> ReadIndexRequest \<Rightarrow> (node_error + u64) \<times> 's Node" where
  "read_term n req =
     (let (e, n) = (if rq_Term req > currentTerm n then setTermLocked n (rq_Term req) else (None, n)) in
      case e of Some x \<Rightarrow> (Inl (ErrState x), n) | None \<Rightarrow> (Inr (currentTerm n), n))"

definition HandleReadIndex ::
  "('s, 'w) env \<Rightarrow> ('s Node \<Rightarrow> 'w \<Rightarrow> (node_error + u64) \<times> 's Node \<times> 'w) \<Rightarrow> ReadIndexRequest \<Rightarrow>
   's Node \<Rightarrow> 'w \<Rightarrow> (node_error + ReadIndexResponse) \<times> 's Node \<times> 'w" where
  "HandleReadIndex env confirm req n u =
     (case read_term n req of
        (Inl e, n) \<Rightarrow> (Inl e, n, u)
      | (Inr t, n) \<Rightarrow>
          (let (n, u) = others env n u; (r, n, u) = confirm n u in
           case r of
             Inl _ \<Rightarrow> (Inr \<lparr>rr_Term = t, IsLeader_flag = False, ReadIndex_value = 0\<rparr>, n, u)
           | Inr i \<Rightarrow> (Inr \<lparr>rr_Term = t, IsLeader_flag = True, ReadIndex_value = i\<rparr>, n, u)))"

subsection \<open>Forwarded writes\<close>

definition ProposeOrForward ::
  "('s, 'w) env \<Rightarrow> Peer list \<Rightarrow> Record \<Rightarrow> 's Node \<Rightarrow> 'w \<Rightarrow> node_error option \<times> 's Node \<times> 'w" where
  "ProposeOrForward env ps cmd n u =
     (if IsLeader n then let (n, u) = others env n u in Propose env ps cmd n u
      else let (n, u) = others env n u in
        case leaderPeer n of
          None \<Rightarrow> (Some ErrNoLeader, n, u)
        | Some p \<Rightarrow>
            (let (resp, u) = send_forward env p \<lparr>Command = cmd\<rparr> u; (n, u) = others env n u in
             case resp of
               None \<Rightarrow> (Some (ErrForwardTo (peer_ID p)), n, u)
             | Some resp \<Rightarrow>
                 ((if \<not> fr_Success resp then
                     (if fr_Error resp \<noteq> [] then Some (ErrRefused (peer_ID p) (fr_Error resp))
                      else Some ErrNoLeader)
                   else None), n, u)))"

text \<open>\<open>text_of\<close> is \<^verbatim>\<open>err.Error()\<close>.\<close>

definition HandleForward ::
  "('s, 'w) env \<Rightarrow> (node_error \<Rightarrow> string) \<Rightarrow> Peer list \<Rightarrow> ForwardRequest \<Rightarrow> 's Node \<Rightarrow> 'w \<Rightarrow>
   ForwardResponse \<times> 's Node \<times> 'w" where
  "HandleForward env text_of ps req n u =
     (case Propose env ps (Command req) n u of
        (Some e, n, u) \<Rightarrow>
          (let (n, u) = others env n u in
           (\<lparr>fr_Success = False, fr_LeaderID = leaderID n, fr_Error = text_of e\<rparr>, n, u))
      | (None, n, u) \<Rightarrow> (\<lparr>fr_Success = True, fr_LeaderID = cfg_ID (cfg n), fr_Error = []\<rparr>, n, u))"

end
