(* ===== verification/Raft_Voting.thy ===== *)
theory Raft_Voting
  imports Raft_Read
begin

text \<open>
  Terms and votes of one node: what each of its operations does to the persistent pair
  (current term, vote), in memory and on disk. Only two operations ever set a vote;
  all others either leave the pair and the role alone (or step down), or enter a higher
  term with no vote.
\<close>

subsection \<open>Small operations\<close>

lemma persistLocked_frame:
  "persistLocked n = (e, n') \<Longrightarrow> n' = n\<lparr>nstate := nstate n'\<rparr>"
  by (auto simp: persistLocked_def split: option.splits prod.splits)

lemma persistLocked_sel:
  "persistLocked n = (e, n') \<Longrightarrow> cfg n' = cfg n \<and> nlog n' = nlog n \<and> machine n' = machine n \<and>
     apply_fn n' = apply_fn n \<and> currentTerm n' = currentTerm n \<and> votedFor n' = votedFor n \<and> role n' = role n \<and>
     leaderID n' = leaderID n \<and> commitIndex n' = commitIndex n \<and> lastApplied n' = lastApplied n \<and>
     lastHeard n' = lastHeard n \<and> nextIndex n' = nextIndex n \<and> matchIndex n' = matchIndex n"
  by (auto simp: persistLocked_def split: option.splits prod.splits)

lemma becomeLeader_fold_frame:
  "foldl (\<lambda>n p. n\<lparr>nextIndex := (nextIndex n)(peer_ID p \<mapsto> LastIndex (nlog n) + 1),
                    matchIndex := (matchIndex n)(peer_ID p \<mapsto> 0)\<rparr>) n ps =
   n\<lparr>nextIndex := foldl (\<lambda>m p. m(peer_ID p \<mapsto> LastIndex (nlog n) + 1)) (nextIndex n) ps,
     matchIndex := foldl (\<lambda>m p. m(peer_ID p \<mapsto> 0)) (matchIndex n) ps\<rparr>"
  by (induction ps arbitrary: n) simp_all

lemma foldl_map_upd:
  "foldl (\<lambda>m p. m(k p \<mapsto> v)) m ps = (\<lambda>x. if x \<in> k ` set ps then Some v else m x)"
  by (induction ps arbitrary: m) (auto simp: fun_eq_iff)

lemma becomeLeaderLocked_eq:
  "becomeLeaderLocked n = n\<lparr>role := Leader, leaderID := cfg_ID (cfg n),
     nextIndex := (\<lambda>x. if x \<in> peer_ID ` set (cfg_Peers (cfg n)) then Some (LastIndex (nlog n) + 1) else nextIndex n x),
     matchIndex := (\<lambda>x. if x \<in> peer_ID ` set (cfg_Peers (cfg n)) then Some 0 else matchIndex n x)\<rparr>"
  by (simp add: becomeLeaderLocked_def becomeLeader_fold_frame foldl_map_upd)

lemma applyCommitted_frame:
  "applyCommitted n = n\<lparr>machine := machine (applyCommitted n), lastApplied := lastApplied (applyCommitted n),
     applyWait := applyWait (applyCommitted n)\<rparr>"
proof (induction n rule: applyCommitted.induct)
  case (1 n)
  show ?case
  proof (cases "apply_next n")
    case None
    then show ?thesis by (simp add: applyCommitted.simps [of n])
  next
    case (Some e)
    with 1 [OF Some] show ?thesis
      by (simp add: applyCommitted.simps [of n]) (simp add: apply_one_def)
  qed
qed

subsection \<open>What reaches the disk\<close>

text \<open>
  \<open>on_record n\<close>: the states a restart of the node may find. A node without a state file
  (tests only) restarts from nothing.
\<close>

definition on_record :: "'s Node \<Rightarrow> PersistentState set" where
  "on_record n = (case nstate n of None \<Rightarrow> {zero_state} | Some s \<Rightarrow> state_back s)"

definition pair_of :: "'s Node \<Rightarrow> PersistentState" where
  "pair_of n = \<lparr>CurrentTerm = currentTerm n, VotedFor = votedFor n\<rparr>"

lemma persistLocked_ok:
  assumes "persistLocked n = (None, n')" and "nstate n \<noteq> None"
  shows "on_record n' \<subseteq> {sanitize_state (pair_of n)}"
proof -
  obtain s where s: "nstate n = Some s" using assms(2) by auto
  then obtain s' where "Save s (pair_of n) = (None, s')" "n' = n\<lparr>nstate := Some s'\<rparr>"
    using assms(1) by (auto simp: persistLocked_def pair_of_def split: prod.splits)
  then show ?thesis using state_file.save_ok by (simp add: on_record_def)
qed

lemma persistLocked_any:
  assumes "persistLocked n = (e, n')"
  shows "on_record n' \<subseteq> insert (sanitize_state (pair_of n)) (on_record n)"
proof (cases "nstate n")
  case None
  with assms show ?thesis by (auto simp: persistLocked_def)
next
  case (Some s)
  then obtain s' where "Save s (pair_of n) = (e, s')" "n' = n\<lparr>nstate := Some s'\<rparr>"
    using assms by (auto simp: persistLocked_def pair_of_def split: prod.splits)
  with Some show ?thesis using state_file.save_err [of s "pair_of n"] by (simp add: on_record_def)
qed

lemma persistLocked_nstate: "persistLocked n = (e, n') \<Longrightarrow> (nstate n' = None) = (nstate n = None)"
  by (auto simp: persistLocked_def split: option.splits prod.splits)

subsection \<open>Operations that cast no vote\<close>

text \<open>
  \<open>votes_nothing n n'\<close>: what every operation but the two of the next subsection does to the
  configuration, the pair, the role and the disk.
\<close>

definition votes_nothing :: "'s Node \<Rightarrow> 's Node \<Rightarrow> bool" where
  "votes_nothing n n' \<longleftrightarrow> cfg n' = cfg n \<and> (nstate n' = None) = (nstate n = None) \<and>
     (currentTerm n' = currentTerm n \<and> votedFor n' = votedFor n \<and>
        (role n' = role n \<or> role n' = Follower) \<and> on_record n' \<subseteq> on_record n \<or>
      currentTerm n < currentTerm n' \<and> votedFor n' = [] \<and> role n' = Follower \<and>
        on_record n' \<subseteq> insert (sanitize_state (pair_of n')) (on_record n))"

named_theorems quiet_intros "operations that cast no vote"

lemma votes_nothing_refl [intro]: "votes_nothing n n"
  by (simp add: votes_nothing_def)

lemma votes_nothing_same:
  "cfg n' = cfg n \<Longrightarrow> nstate n' = nstate n \<Longrightarrow> currentTerm n' = currentTerm n \<Longrightarrow> votedFor n' = votedFor n \<Longrightarrow>
   role n' = role n \<or> role n' = Follower \<Longrightarrow> votes_nothing n n'"
  by (simp add: votes_nothing_def on_record_def)

text \<open>A quiet step after another; all that is needed of the second is that it keeps the pair.\<close>

lemma votes_nothing_then_same:
  assumes "votes_nothing n m" and "cfg n' = cfg m" "nstate n' = nstate m" "currentTerm n' = currentTerm m"
    "votedFor n' = votedFor m" "role n' = role m \<or> role n' = Follower"
  shows "votes_nothing n n'"
  using assms by (auto simp: votes_nothing_def on_record_def pair_of_def)

lemma setTermLocked_frame:
  "setTermLocked n t = (e, n') \<Longrightarrow>
   n' = n\<lparr>currentTerm := t, votedFor := [], leaderID := [], role := Follower, nstate := nstate n'\<rparr>"
  unfolding setTermLocked_def by (drule persistLocked_frame) simp

lemma setTermLocked_quiet:
  assumes "setTermLocked n t = (e, n')" and "currentTerm n < t"
  shows "votes_nothing n n'"
proof -
  let ?m = "n\<lparr>currentTerm := t, votedFor := [], leaderID := [], role := Follower\<rparr>"
  have p: "persistLocked ?m = (e, n')" using assms(1) by (simp add: setTermLocked_def)
  have "on_record n' \<subseteq> insert (sanitize_state (pair_of ?m)) (on_record n)"
    using persistLocked_any [OF p] by (simp add: on_record_def)
  moreover have "(nstate n' = None) = (nstate n = None)" using persistLocked_nstate [OF p] by simp
  moreover have "cfg n' = cfg n" "currentTerm n' = t" "votedFor n' = []" "role n' = Follower" "pair_of n' = pair_of ?m"
    using persistLocked_sel [OF p] by (simp_all add: pair_of_def)
  ultimately show ?thesis using assms(2) by (simp add: votes_nothing_def)
qed

lemma setTermLocked_sel:
  "setTermLocked n t = (e, n') \<Longrightarrow> cfg n' = cfg n \<and> nlog n' = nlog n \<and> machine n' = machine n \<and>
     apply_fn n' = apply_fn n \<and> currentTerm n' = t \<and> votedFor n' = [] \<and> role n' = Follower \<and>
     leaderID n' = [] \<and> commitIndex n' = commitIndex n \<and> lastApplied n' = lastApplied n \<and>
     lastHeard n' = lastHeard n \<and> nextIndex n' = nextIndex n \<and> matchIndex n' = matchIndex n"
  unfolding setTermLocked_def by (drule persistLocked_sel) simp

text \<open>The common first step of the handlers: adopt a higher term.\<close>

definition adopt :: "'s Node \<Rightarrow> u64 \<Rightarrow> state_error option \<times> 's Node" where
  "adopt n t = (if t > currentTerm n then setTermLocked n t else (None, n))"

lemma adopt_quiet: "adopt n t = (e, m) \<Longrightarrow> votes_nothing n m"
  by (auto simp: adopt_def intro: setTermLocked_quiet split: if_splits)

lemma adopt_sel:
  "adopt n t = (e, m) \<Longrightarrow> cfg m = cfg n \<and> nlog m = nlog n \<and> machine m = machine n \<and> apply_fn m = apply_fn n \<and>
     currentTerm m = max t (currentTerm n) \<and> commitIndex m = commitIndex n \<and> lastApplied m = lastApplied n"
  by (auto simp: adopt_def max_def dest: setTermLocked_sel split: if_splits)

lemma applyCommitted_quiet: "votes_nothing n (applyCommitted n)"
  by (rule votes_nothing_same; subst applyCommitted_frame; simp)

text \<open>The append handler, split into its outcomes.\<close>

definition new_commit :: "u64 \<Rightarrow> AppendEntriesRequest \<Rightarrow> u64" where
  "new_commit c req =
     (if LeaderCommit req > c then min (LeaderCommit req) (PrevLogIndex req + of_nat (length (Entries req))) else c)"

definition contacted :: "'s Node \<Rightarrow> AppendEntriesRequest \<Rightarrow> int \<Rightarrow> Log \<Rightarrow> 's Node" where
  "contacted m req now l = m\<lparr>role := Follower, leaderID := aq_LeaderID req, lastHeard := now, nlog := l\<rparr>"

lemma contacted_sel [simp]:
  "cfg (contacted m req now l) = cfg m" "nstate (contacted m req now l) = nstate m"
  "currentTerm (contacted m req now l) = currentTerm m" "votedFor (contacted m req now l) = votedFor m"
  "role (contacted m req now l) = Follower" "nlog (contacted m req now l) = l"
  "commitIndex (contacted m req now l) = commitIndex m" "lastApplied (contacted m req now l) = lastApplied m"
  "machine (contacted m req now l) = machine m" "apply_fn (contacted m req now l) = apply_fn m"
  by (simp_all add: contacted_def)

lemma handleAppendEntries_cases:
  assumes run: "handleAppendEntries n req now = (r, n')"
  obtains (stale) "aq_Term req < currentTerm n" and "r = Inr (replyLocked n False)" and "n' = n"
  | (unsaved) x where "\<not> aq_Term req < currentTerm n" and "adopt n (aq_Term req) = (Some x, n')"
      and "r = Inl (ErrPersistTerm x)"
  | (failed) m l x where "\<not> aq_Term req < currentTerm n" and "adopt n (aq_Term req) = (None, m)"
      and "AppendAfter (nlog m) (PrevLogIndex req) (PrevLogTerm req) (Entries req) = (Inl x, l)"
      and "r = Inl (ErrFollowerAppend x)" and "n' = contacted m req now l"
  | (mismatch) m l where "\<not> aq_Term req < currentTerm n" and "adopt n (aq_Term req) = (None, m)"
      and "AppendAfter (nlog m) (PrevLogIndex req) (PrevLogTerm req) (Entries req) = (Inr False, l)"
      and "r = Inr (replyLocked n' False)" and "n' = contacted m req now l"
  | (accepted) m l where "\<not> aq_Term req < currentTerm n" and "adopt n (aq_Term req) = (None, m)"
      and "AppendAfter (nlog m) (PrevLogIndex req) (PrevLogTerm req) (Entries req) = (Inr True, l)"
      and "r = Inr (replyLocked n' True)"
      and "n' = (contacted m req now l)\<lparr>commitIndex := new_commit (commitIndex m) req\<rparr>"
proof (cases "aq_Term req < currentTerm n")
  case True
  with run show thesis by (intro stale) (auto simp: handleAppendEntries_def)
next
  case False
  obtain e m where a: "adopt n (aq_Term req) = (e, m)" by fastforce
  obtain ar l where ap: "AppendAfter (nlog m) (PrevLogIndex req) (PrevLogTerm req) (Entries req) = (ar, l)" by fastforce
  show thesis
  proof (cases e)
    case (Some x)
    with run a False show thesis
      by (intro unsaved [of x]) (simp_all add: handleAppendEntries_def adopt_def [symmetric])
  next
    case None
    let ?c = "contacted m req now l"
    have run': "(case ar of Inl x \<Rightarrow> (Inl (ErrFollowerAppend x), ?c)
        | Inr ok \<Rightarrow> if \<not> ok then (Inr (replyLocked ?c False), ?c)
          else (Inr (replyLocked (?c\<lparr>commitIndex := new_commit (commitIndex m) req\<rparr>) True),
                ?c\<lparr>commitIndex := new_commit (commitIndex m) req\<rparr>)) = (r, n')"
      using run a ap False None
      by (cases ar; auto simp: handleAppendEntries_def adopt_def [symmetric] noteContactLocked_def
          contacted_def new_commit_def Let_def split: if_splits)
    show thesis
    proof (cases ar)
      case (Inl x)
      with run' show thesis by (intro failed [OF False a [unfolded None] ap [unfolded Inl]]) simp_all
    next
      case (Inr ok)
      show thesis
      proof (cases ok)
        case True
        with run' Inr ap show thesis
          by (intro accepted [OF False a [unfolded None], of l]) auto
      next
        case no: False
        with run' Inr ap show thesis
          by (intro mismatch [OF False a [unfolded None], of l]) auto
      qed
    qed
  qed
qed

lemma handleAppendEntries_quiet:
  assumes "handleAppendEntries n req now = (r, n')"
  shows "votes_nothing n n'"
  using assms
  by (rule handleAppendEntries_cases)
     (auto intro: votes_nothing_then_same [OF adopt_quiet] adopt_quiet)

lemma HandleAppendEntries_quiet:
  assumes "HandleAppendEntries n req now = (r, n')"
  shows "votes_nothing n n'"
proof -
  obtain r0 m where h: "handleAppendEntries n req now = (r0, m)" by fastforce
  have q: "votes_nothing n m" using h by (rule handleAppendEntries_quiet)
  have "votes_nothing n (applyCommitted m)"
    using q by (rule votes_nothing_then_same; subst applyCommitted_frame; simp)
  with assms h q show ?thesis by (auto simp: HandleAppendEntries_def split: sum.splits)
qed

lemma replicate_reply_quiet: "votes_nothing n (snd (replicate_reply n p req resp))"
proof (cases "ar_Term resp > currentTerm n")
  case True
  then show ?thesis
    by (simp add: replicate_reply_def setTermLocked_quiet [OF prod.collapse [symmetric]])
qed (auto simp: replicate_reply_def Let_def intro: votes_nothing_same)

lemma vote_reply_quiet: "votes_nothing n (snd (vote_reply n resp))"
  using setTermLocked_quiet [OF prod.collapse [symmetric]]
  by (auto simp: vote_reply_def)

lemma probe_set_quiet: "currentTerm n < ar_Term resp \<Longrightarrow> votes_nothing n (probe_set n resp)"
  by (simp add: probe_set_def setTermLocked_quiet [OF prod.collapse [symmetric]])

lemma read_term_quiet: "read_term n req = (r, n') \<Longrightarrow> votes_nothing n n'"
  by (auto simp: read_term_def intro: setTermLocked_quiet split: prod.splits option.splits if_splits)

lemma propose_append_quiet: "propose_append n t cmd = (r, n') \<Longrightarrow> votes_nothing n n'"
  by (auto simp: propose_append_def intro: votes_nothing_same split: prod.splits option.splits)

lemma advanceCommit_quiet: "votes_nothing n (advanceCommit n)"
  by (simp add: advanceCommit_def votes_nothing_same)

lemma apply_one_quiet: "votes_nothing n (apply_one n e)"
  by (simp add: apply_one_def votes_nothing_same)

lemmas quiet_operations = handleAppendEntries_quiet replicate_reply_quiet vote_reply_quiet
  probe_set_quiet read_term_quiet propose_append_quiet advanceCommit_quiet apply_one_quiet

subsection \<open>Operations that cast a vote\<close>

lemma HandleRequestVote_cases:
  assumes run: "HandleRequestVote n req now = (r, n')"
  obtains (refused) "r = Inr \<lparr>vr_Term = currentTerm n', VoteGranted = False\<rparr>" and "votes_nothing n n'"
      and "vq_Term req \<le> currentTerm n'"
  | (unsaved) x where "r = Inl x" and "votes_nothing n n'"
  | (lost) m x where "r = Inl x" and "votes_nothing n m" and "currentTerm m = vq_Term req"
      and "votedFor m = [] \<or> votedFor m = CandidateID req"
      and "persistLocked (m\<lparr>votedFor := CandidateID req\<rparr>) = (Some (case x of ErrPersistVote e \<Rightarrow> e | _ \<Rightarrow> ErrRename), n')"
  | (granted) m k where "r = Inr \<lparr>vr_Term = vq_Term req, VoteGranted = True\<rparr>" and "votes_nothing n m"
      and "currentTerm m = vq_Term req" and "votedFor m = [] \<or> votedFor m = CandidateID req"
      and "logUpToDateLocked n (vq_LastLogIndex req) (vq_LastLogTerm req)"
      and "persistLocked (m\<lparr>votedFor := CandidateID req\<rparr>) = (None, k)" and "n' = k\<lparr>lastHeard := now\<rparr>"
proof (cases "vq_Term req < currentTerm n")
  case True
  with run show thesis by (intro refused) (auto simp: HandleRequestVote_def)
next
  case False
  obtain e m where a: "adopt n (vq_Term req) = (e, m)" by fastforce
  have q: "votes_nothing n m" using a by (rule adopt_quiet)
  have t: "currentTerm m = vq_Term req" using adopt_sel [OF a] False by (simp add: max_def)
  have l: "logUpToDateLocked m i u = logUpToDateLocked n i u" for i u
    using adopt_sel [OF a] by (simp add: logUpToDateLocked_def)
  obtain e2 k where p: "persistLocked (m\<lparr>votedFor := CandidateID req\<rparr>) = (e2, k)" by fastforce
  have kt: "currentTerm k = vq_Term req" using persistLocked_sel [OF p] t by simp
  note defs = HandleRequestVote_def adopt_def [symmetric] Let_def noteContactLocked_def
  show thesis
  proof (cases "e = None \<and> (votedFor m = [] \<or> votedFor m = CandidateID req) \<and>
      logUpToDateLocked m (vq_LastLogIndex req) (vq_LastLogTerm req)")
    case ok: True
    then have run': "(case e2 of Some x \<Rightarrow> (Inl (ErrPersistVote x), k)
        | None \<Rightarrow> (Inr \<lparr>vr_Term = currentTerm k, VoteGranted = True\<rparr>, k\<lparr>lastHeard := now\<rparr>)) = (r, n')"
      using run a False by (cases e2) (auto simp: defs p)
    show thesis
    proof (cases e2)
      case None
      with ok run' q t p kt l show thesis by (intro granted [of m k]) auto
    next
      case (Some x)
      with ok run' q t p show thesis by (intro lost [of "ErrPersistVote x" m]) auto
    qed
  next
    case no: False
    show thesis
    proof (cases e)
      case (Some x)
      with run a False q show thesis by (intro unsaved [of "ErrState x"]) (auto simp: defs)
    next
      case None
      with run a False no have "r = Inr \<lparr>vr_Term = currentTerm m, VoteGranted = False\<rparr>" "n' = m"
        by (auto simp: defs split: if_splits)
      with q t show thesis by (intro refused) auto
    qed
  qed
qed

lemma campaign_start_cases:
  assumes run: "campaign_start n now = (r, n')"
  defines "m \<equiv> n\<lparr>currentTerm := currentTerm n + 1, votedFor := cfg_ID (cfg n), role := Candidate, leaderID := [],
    lastHeard := now\<rparr>"
  obtains (unsaved) x where "r = Inl x" and "persistLocked m = (Some x, n')"
  | (started) req where "r = Inr req" and "persistLocked m = (None, n')" and "vq_Term req = currentTerm n + 1"
      and "CandidateID req = cfg_ID (cfg n)" and "vq_LastLogIndex req = LastIndex (nlog n)"
      and "vq_LastLogTerm req = LastTerm (nlog n)"
proof -
  obtain e k where p: "persistLocked m = (e, k)" by fastforce
  show thesis
  proof (cases e)
    case None
    with run p show thesis by (intro started) (auto simp: campaign_start_def Let_def m_def)
  next
    case (Some x)
    with run p show thesis by (intro unsaved [of x]) (auto simp: campaign_start_def Let_def m_def)
  qed
qed

text \<open>
  What both do to the pair: the term does not fall, the vote of the resulting term is the
  given one and was free or the same before, and the disk holds nothing else new.
\<close>

definition votes_for :: "NodeID \<Rightarrow> u64 \<Rightarrow> 's Node \<Rightarrow> 's Node \<Rightarrow> bool" where
  "votes_for c t n n' \<longleftrightarrow> cfg n' = cfg n \<and> (nstate n' = None) = (nstate n = None) \<and>
     currentTerm n' = t \<and> votedFor n' = c \<and>
     (currentTerm n < t \<or> currentTerm n = t \<and> (votedFor n = [] \<or> votedFor n = c)) \<and>
     on_record n' \<subseteq> insert (sanitize_state \<lparr>CurrentTerm = t, VotedFor = c\<rparr>)
       ((if currentTerm n < t then {sanitize_state \<lparr>CurrentTerm = t, VotedFor = []\<rparr>} else {}) \<union> on_record n)"

text \<open>A vote that was reported: moreover only it is on the disk.\<close>

definition recorded :: "NodeID \<Rightarrow> u64 \<Rightarrow> 's Node \<Rightarrow> bool" where
  "recorded c t n \<longleftrightarrow> on_record n \<subseteq> {sanitize_state \<lparr>CurrentTerm = t, VotedFor = c\<rparr>}"

lemma persist_vote:
  assumes p: "persistLocked m' = (e, n')" and m': "m' = m\<lparr>votedFor := c\<rparr>" and q: "votes_nothing n m"
    and free: "votedFor m = [] \<or> votedFor m = c" and st: "nstate n \<noteq> None"
  shows "votes_for c (currentTerm m) n n' \<and> (role n' = role n \<or> role n' = Follower) \<and>
    (currentTerm n < currentTerm m \<longrightarrow> role n' = Follower) \<and> (e = None \<longrightarrow> recorded c (currentTerm m) n')"
proof -
  note s = persistLocked_sel [OF p]
  have pm: "pair_of m' = \<lparr>CurrentTerm = currentTerm m, VotedFor = c\<rparr>" by (simp add: pair_of_def m')
  have st': "nstate m' \<noteq> None" "(nstate n' = None) = (nstate n = None)"
    using q st persistLocked_nstate [OF p] by (auto simp: m' votes_nothing_def)
  have d: "on_record n' \<subseteq> insert (sanitize_state (pair_of m')) (on_record m)"
    using persistLocked_any [OF p] by (simp add: on_record_def m')
  let ?z = "if currentTerm n < currentTerm m then {sanitize_state \<lparr>CurrentTerm = currentTerm m, VotedFor = []\<rparr>} else {}"
  have "on_record m \<subseteq> ?z \<union> on_record n"
    using q by (auto simp: votes_nothing_def pair_of_def)
  with d pm have "on_record n' \<subseteq> insert (sanitize_state \<lparr>CurrentTerm = currentTerm m, VotedFor = c\<rparr>)
      (?z \<union> on_record n)"
    by auto
  moreover have "recorded c (currentTerm m) n'" if "e = None"
    using persistLocked_ok [of m' n'] p st'(1) that pm by (simp add: recorded_def)
  ultimately show ?thesis
    using q free s st' by (auto simp: votes_for_def votes_nothing_def m')
qed

lemma HandleRequestVote_votes:
  assumes run: "HandleRequestVote n req now = (r, n')" and st: "nstate n \<noteq> None"
  shows "(votes_nothing n n' \<or>
      votes_for (CandidateID req) (vq_Term req) n n' \<and> (role n' = role n \<or> role n' = Follower) \<and>
        (currentTerm n < vq_Term req \<longrightarrow> role n' = Follower)) \<and>
    (\<forall>resp. r = Inr resp \<and> VoteGranted resp \<longrightarrow>
      votes_for (CandidateID req) (vq_Term req) n n' \<and> recorded (CandidateID req) (vq_Term req) n' \<and>
      vr_Term resp = vq_Term req)"
  using run
proof (cases rule: HandleRequestVote_cases)
  case (lost m x)
  then show ?thesis using persist_vote [OF lost(5) refl lost(2,4) st] by auto
next
  case (granted m k)
  have k: "votes_for (CandidateID req) (vq_Term req) n k \<and> (role k = role n \<or> role k = Follower) \<and>
      (currentTerm n < vq_Term req \<longrightarrow> role k = Follower) \<and> recorded (CandidateID req) (vq_Term req) k"
    using persist_vote [OF granted(6) refl granted(2,4) st] granted(3) by simp
  then have "votes_for (CandidateID req) (vq_Term req) n n'" "recorded (CandidateID req) (vq_Term req) n'"
    "role n' = role k"
    by (simp_all add: granted(7) votes_for_def recorded_def on_record_def)
  with k granted(1) show ?thesis by auto
qed auto

lemma campaign_start_votes:
  assumes run: "campaign_start n now = (r, n')" and st: "nstate n \<noteq> None"
    and grows: "currentTerm n < currentTerm n + 1"
  shows "votes_for (cfg_ID (cfg n)) (currentTerm n + 1) n n' \<and> role n' = Candidate \<and>
    (\<forall>req. r = Inr req \<longrightarrow> recorded (cfg_ID (cfg n)) (currentTerm n + 1) n' \<and>
       vq_Term req = currentTerm n + 1 \<and> CandidateID req = cfg_ID (cfg n))"
proof -
  let ?m = "n\<lparr>currentTerm := currentTerm n + 1, votedFor := cfg_ID (cfg n), role := Candidate, leaderID := [],
    lastHeard := now\<rparr>"
  obtain e where p: "persistLocked ?m = (e, n')" and e: "\<And>req. r = Inr req \<Longrightarrow> e = None \<and>
      vq_Term req = currentTerm n + 1 \<and> CandidateID req = cfg_ID (cfg n)"
    using run by (cases rule: campaign_start_cases) auto
  note s = persistLocked_sel [OF p]
  have pm: "pair_of ?m = \<lparr>CurrentTerm = currentTerm n + 1, VotedFor = cfg_ID (cfg n)\<rparr>" by (simp add: pair_of_def)
  have "on_record n' \<subseteq> insert (sanitize_state (pair_of ?m)) (on_record n)"
    using persistLocked_any [OF p] by (simp add: on_record_def)
  moreover have "recorded (cfg_ID (cfg n)) (currentTerm n + 1) n'" if "e = None"
    using persistLocked_ok [of ?m n'] p st that pm by (simp add: recorded_def)
  ultimately show ?thesis
    using s grows e persistLocked_nstate [OF p] pm by (auto simp: votes_for_def)
qed

text \<open>
  The reply a candidate gets never has a term below the one it asked for, and the
  term of a node never falls when it handles a message.
\<close>

lemma votes_nothing_term: "votes_nothing n n' \<Longrightarrow> currentTerm n \<le> currentTerm n'"
  by (auto simp: votes_nothing_def)

lemma votes_for_term: "votes_for c t n n' \<Longrightarrow> currentTerm n \<le> currentTerm n'"
  by (auto simp: votes_for_def)

lemma HandleRequestVote_term:
  "HandleRequestVote n req now = (r, n') \<Longrightarrow> nstate n \<noteq> None \<Longrightarrow> currentTerm n \<le> currentTerm n'"
  using HandleRequestVote_votes votes_nothing_term votes_for_term by blast

subsection \<open>Reported votes are honoured\<close>

text \<open>
  \<open>honours n t c\<close>: the node is past term \<open>t\<close>, or in it with its vote given to \<open>c\<close>, in
  memory and in whatever a restart may bring back. No operation undoes this, nor does
  a crash.
\<close>

definition honours :: "'s Node \<Rightarrow> u64 \<Rightarrow> NodeID \<Rightarrow> bool" where
  "honours n t c \<longleftrightarrow> t \<le> currentTerm n \<and> (t = currentTerm n \<longrightarrow> votedFor n = c) \<and>
     (\<forall>st \<in> on_record n. t \<le> CurrentTerm st \<and> (t = CurrentTerm st \<longrightarrow> VotedFor st = c))"

lemma sanitize_state_sel [simp]: "CurrentTerm (sanitize_state st) = CurrentTerm st"
  "VotedFor (sanitize_state st) = sanitize (VotedFor st)"
  by (simp_all add: sanitize_state_def)

lemma honours_quiet:
  assumes q: "votes_nothing n n'" and h: "honours n t c"
  shows "honours n' t c"
proof -
  have tn: "t \<le> currentTerm n" using h by (simp add: honours_def)
  from q consider "currentTerm n' = currentTerm n" "votedFor n' = votedFor n" "on_record n' \<subseteq> on_record n"
    | "currentTerm n < currentTerm n'" "on_record n' \<subseteq> insert (sanitize_state (pair_of n')) (on_record n)"
    by (auto simp: votes_nothing_def)
  then show ?thesis
  proof cases
    case 1
    with h show ?thesis by (auto simp: honours_def)
  next
    case 2
    then have lt: "t < currentTerm n'" using tn by simp
    have "t \<le> CurrentTerm st \<and> (t = CurrentTerm st \<longrightarrow> VotedFor st = c)" if "st \<in> on_record n'" for st
    proof (cases "st \<in> on_record n")
      case True
      with h show ?thesis by (simp add: honours_def)
    next
      case False
      with that 2(2) have "st = sanitize_state (pair_of n')" by auto
      with lt show ?thesis by (auto simp: pair_of_def)
    qed
    with lt show ?thesis by (auto simp: honours_def)
  qed
qed

lemma honours_vote:
  assumes v: "votes_for c' t' n n'" and u: "valid_utf8 c'" and h: "honours n t c" and c: "c \<noteq> []"
  shows "honours n' t c"
proof -
  have tn: "t \<le> currentTerm n" and same: "t = currentTerm n \<Longrightarrow> votedFor n = c" using h by (auto simp: honours_def)
  have n': "currentTerm n' = t'" "votedFor n' = c'" using v by (simp_all add: votes_for_def)
  have st: "t < t' \<or> t = t' \<and> currentTerm n = t' \<and> c' = c"
  proof (cases "currentTerm n < t'")
    case True
    then show ?thesis using le_less_trans [OF tn] by blast
  next
    case False
    with v have "currentTerm n = t'" "votedFor n = [] \<or> votedFor n = c'" by (auto simp: votes_for_def)
    with tn same c show ?thesis by (cases "t = t'") auto
  qed
  have "t \<le> CurrentTerm x \<and> (t = CurrentTerm x \<longrightarrow> VotedFor x = c)" if x: "x \<in> on_record n'" for x
  proof (cases "x \<in> on_record n")
    case True
    with h show ?thesis by (simp add: honours_def)
  next
    case False
    with x v have "x = sanitize_state \<lparr>CurrentTerm = t', VotedFor = c'\<rparr> \<or>
        currentTerm n < t' \<and> x = sanitize_state \<lparr>CurrentTerm = t', VotedFor = []\<rparr>"
      by (auto simp: votes_for_def split: if_splits)
    with st sanitize_valid [OF u] show ?thesis by auto
  qed
  with st n' show ?thesis by (auto simp: honours_def)
qed

lemma honours_new:
  assumes "votes_for c t n n'" and "recorded c t n'" and "valid_utf8 c"
  shows "honours n' t c"
  using assms sanitize_valid [OF assms(3)] by (auto simp: honours_def votes_for_def recorded_def)

text \<open>
  A restart: the process dies, its state directory comes back as some power cut left it,
  its log likewise, and \<^verbatim>\<open>main\<close> opens both and builds a new node.
\<close>

definition restart_log :: "Log \<Rightarrow> Log \<Rightarrow> bool" where
  "restart_log l l' \<longleftrightarrow> (case w l of
     None \<Rightarrow> l' = NewLog
   | Some wl \<Rightarrow> \<exists>fl. crash_content (f wl) (cached fl) \<and> OpenLog True fl = Inr l')"

definition restarts :: "'s \<Rightarrow> 's Node \<Rightarrow> 's Node \<Rightarrow> bool" where
  "restarts m0 n n' \<longleftrightarrow> (\<exists>s s1 s2 st fs opts now.
     nstate n = Some s \<and> crash_dir s s1 \<and> OpenStateStore s1 = Inr (s2, st) \<and>
     restart_log (nlog n) (o_Log opts) \<and> o_Config opts = cfg n \<and> o_Apply opts = Some (apply_fn n) \<and>
     o_State opts = Some (with_faults fs s1) \<and> NewNode opts st m0 now = Inr n')"

lemma NewNode_sel:
  "NewNode opts st m now = Inr n \<Longrightarrow> cfg n = o_Config opts \<and> nlog n = o_Log opts \<and> nstate n = o_State opts \<and>
     currentTerm n = CurrentTerm st \<and> votedFor n = VotedFor st \<and> role n = Follower \<and> machine n = m \<and>
     commitIndex n = 0 \<and> lastApplied n = 0 \<and> Validate (o_Config opts) = None \<and>
     electionTimeoutMin n < electionTimeoutMax n"
  by (auto simp: NewNode_def Let_def split: option.splits if_splits)

lemma restarts_sel:
  assumes "restarts m0 n n'"
  shows "cfg n' = cfg n \<and> nstate n' \<noteq> None \<and> role n' = Follower \<and> pair_of n' \<in> on_record n \<and>
    on_record n' \<subseteq> {pair_of n'}"
proof -
  obtain s s1 s2 st fs opts now where r: "nstate n = Some s" "crash_dir s s1" "OpenStateStore s1 = Inr (s2, st)"
      "o_Config opts = cfg n" "o_State opts = Some (with_faults fs s1)" "NewNode opts st m0 now = Inr n'"
    using assms by (auto simp: restarts_def)
  have p: "pair_of n' = st" using NewNode_sel [OF r(6)] by (simp add: pair_of_def)
  with restart_back [OF r(2,3)] r NewNode_sel [OF r(6)] show ?thesis
    by (simp add: on_record_def)
qed

lemma honours_restart:
  assumes "restarts m0 n n'" and "honours n t c"
  shows "honours n' t c"
  using restarts_sel [OF assms(1)] assms(2) by (auto simp: honours_def pair_of_def)

subsection \<open>Roles\<close>

text \<open>
  Nothing a node hears from a peer raises its role: a follower becomes a candidate by its own
  timer and a candidate a leader by its own count of votes.
\<close>

lemma setTermLocked_role [simp]: "role (snd (setTermLocked n t)) = Follower"
  using setTermLocked_sel [of n t] by (cases "setTermLocked n t") simp

lemma adopt_role: "adopt n t = (e, m) \<Longrightarrow> role m \<le> role n"
  by (auto simp: adopt_def dest: setTermLocked_sel split: if_splits)

lemma HandleAppendEntries_role: "role (snd (HandleAppendEntries n req now)) \<le> role n"
proof -
  obtain r m where h: "handleAppendEntries n req now = (r, m)" by fastforce
  then have "role m \<le> role n"
    by (rule handleAppendEntries_cases) (auto intro: adopt_role)
  moreover have "role (applyCommitted m) = role m" by (subst applyCommitted_frame) simp
  ultimately show ?thesis by (simp add: HandleAppendEntries_def h split: sum.split)
qed

lemma HandleRequestVote_role: "role (snd (HandleRequestVote n req now)) \<le> role n"
proof -
  obtain e m where a: "adopt n (vq_Term req) = (e, m)" by fastforce
  obtain e2 k where p: "persistLocked (m\<lparr>votedFor := CandidateID req\<rparr>) = (e2, k)" by fastforce
  have "role k = role m" using persistLocked_sel [OF p] by simp
  with adopt_role [OF a] show ?thesis
    by (simp add: HandleRequestVote_def adopt_def [symmetric] a p noteContactLocked_def split: option.split)
qed

lemma replies_role:
  "role (snd (vote_reply n vr)) \<le> role n" "role (snd (replicate_reply n p req ar)) \<le> role n"
  "role (probe_set n ar) \<le> role n" "role (snd (read_term n rr)) \<le> role n"
  by (auto simp: vote_reply_def replicate_reply_def probe_set_def read_term_def Let_def split: prod.splits option.splits
      dest: setTermLocked_sel)

end
