(* ===== verification/Raft_Commit.thy ===== *)
theory Raft_Commit
  imports Raft_Voting
begin

text \<open>
  Committing and applying: which index a leader commits, which entries reach the state
  machine and in which order, and what a follower that accepts a leader's message has
  committed and applied afterwards, in terms of the leader's log.
\<close>

subsection \<open>The leader's commit index\<close>

lemma u64_pred_less: "(N :: u64) \<noteq> 0 \<Longrightarrow> N - 1 < N"
  using unat_pred_u64 [of N] by (simp add: word_less_nat_alt unat_gt_0)

lemma commit_loop_sound:
  "commitIndex n \<le> commit_loop n N \<and>
   (commit_loop n N \<noteq> commitIndex n \<longrightarrow> commitIndex n < commit_loop n N \<and> commit_loop n N \<le> N \<and>
      (\<exists>e. At (nlog n) (commit_loop n N) = Some e \<and> Term e = currentTerm n) \<and>
      Majority (cfg n) \<le> replicas n (commit_loop n N))"
proof (induction n N rule: commit_loop.induct)
  case (1 n N)
  show ?case
  proof (cases "N \<le> commitIndex n")
    case True
    then show ?thesis by (simp add: commit_loop.simps [of n N])
  next
    case False
    then have pred: "N - 1 < N" by (intro u64_pred_less) auto
    show ?thesis
    proof (cases "At (nlog n) N")
      case None
      with 1(1) [OF False None] False pred show ?thesis
        by (simp add: commit_loop.simps [of n N]) (meson order.trans less_imp_le)
    next
      case (Some e)
      then show ?thesis
      proof (cases "Term e \<noteq> currentTerm n \<or> Majority (cfg n) \<le> replicas n N")
        case True
        with Some False show ?thesis by (auto simp: commit_loop.simps [of n N] not_le)
      next
        case no: False
        with 1(2) [OF False Some] False pred Some show ?thesis
          by (simp add: commit_loop.simps [of n N]) (meson order.trans less_imp_le)
      qed
    qed
  qed
qed

text \<open>
  A leader's log has nondecreasing terms, none above its own. Then the loop finds every
  entry of the leader's term that a majority holds, so it returns the highest of them.
\<close>

definition terms_sorted :: "'s Node \<Rightarrow> bool" where
  "terms_sorted n \<longleftrightarrow> sorted (map Term (entries (nlog n))) \<and> Term (last (entries (nlog n))) \<le> currentTerm n"

definition committable :: "'s Node \<Rightarrow> u64 \<Rightarrow> bool" where
  "committable n N \<longleftrightarrow> commitIndex n < N \<and> (\<exists>e. At (nlog n) N = Some e \<and> Term e = currentTerm n) \<and>
     Majority (cfg n) \<le> replicas n N"

lemma terms_sorted_le:
  assumes "terms_sorted n" and "i < length (entries (nlog n))"
  shows "Term (entries (nlog n) ! i) \<le> currentTerm n"
proof -
  let ?es = "entries (nlog n)"
  have "map Term ?es ! i \<le> map Term ?es ! (length ?es - 1)"
    using assms by (intro sorted_nth_mono) (auto simp: terms_sorted_def)
  moreover have "?es \<noteq> []" using assms(2) by auto
  then have "last ?es = ?es ! (length ?es - 1)" by (rule last_conv_nth)
  ultimately show ?thesis using assms by (auto simp: terms_sorted_def intro: order.trans)
qed

lemma commit_loop_complete:
  assumes "log_wf (nlog n)" and "terms_sorted n"
  shows "N' \<le> N \<Longrightarrow> unat N < length (entries (nlog n)) \<Longrightarrow> committable n N' \<Longrightarrow> N' \<le> commit_loop n N"
  using assms
proof (induction n N rule: commit_loop.induct)
  case (1 n N)
  let ?es = "entries (nlog n)"
  note prems = "1.prems"
  have gt: "\<not> N \<le> commitIndex n" using prems(1,3) by (auto simp: committable_def)
  then have N0: "N \<noteq> 0" by auto
  have at: "At (nlog n) N = Some (?es ! unat N)" using prems(2,4) N0 by (simp add: At_wf unat_gt_0)
  obtain e where e: "At (nlog n) N' = Some e" "Term e = currentTerm n" "Majority (cfg n) \<le> replicas n N'"
    using prems(3) by (auto simp: committable_def)
  have N': "unat N' < length ?es" "e = ?es ! unat N'" using e(1) prems(4) by (auto simp: At_wf split: if_splits)
  have le: "unat N' \<le> unat N" using prems(1) by (simp add: word_le_nat_alt)
  have "map Term ?es ! unat N' \<le> map Term ?es ! unat N"
    using prems(5) le prems(2) by (intro sorted_nth_mono) (auto simp: terms_sorted_def)
  then have t: "Term (?es ! unat N) = currentTerm n"
    using e(2) N' prems(2) terms_sorted_le [OF prems(5,2)] by simp
  show ?case
  proof (cases "Majority (cfg n) \<le> replicas n N")
    case True
    with gt at t prems(1) show ?thesis by (simp add: commit_loop.simps [of n N])
  next
    case False
    with e(3) have "N' \<noteq> N" by auto
    with le have lt: "unat N' < unat N" by (metis le_neq_implies_less word_unat_eq_iff)
    have p: "unat (N - 1) = unat N - 1" using N0 by (rule unat_pred_u64)
    have le1: "N' \<le> N - 1" using lt p by (simp add: word_le_nat_alt)
    have lt1: "unat (N - 1) < length ?es" unfolding p using prems(2) by linarith
    have "\<not> Term (?es ! unat N) \<noteq> currentTerm n" using t by simp
    then have "N' \<le> commit_loop n (N - 1)"
      by (rule "1.IH"(2) [OF gt at _ False le1 lt1 prems(3-5)])
    with gt at t False show ?thesis by (simp add: commit_loop.simps [of n N])
  qed
qed

lemma advanceCommit_sound:
  "commitIndex n \<le> commitIndex (advanceCommit n) \<and>
   (commitIndex (advanceCommit n) \<noteq> commitIndex n \<longrightarrow>
      role n = Leader \<and> committable n (commitIndex (advanceCommit n)))"
  using commit_loop_sound [of n "LastIndex (nlog n)"]
  by (auto simp: advanceCommit_def committable_def)

lemma advanceCommit_highest:
  assumes wf: "log_wf (nlog n)" and ts: "terms_sorted n" and l: "role n = Leader" and c: "committable n N"
  shows "committable n (commitIndex (advanceCommit n)) \<and> N \<le> commitIndex (advanceCommit n)"
proof -
  obtain e where "At (nlog n) N = Some e" using c by (auto simp: committable_def)
  then have lt: "unat N < length (entries (nlog n))" using wf by (auto simp: At_wf split: if_splits)
  have last: "unat (LastIndex (nlog n)) = length (entries (nlog n)) - 1"
    using LastIndex_Log_Len [OF wf] by (simp add: Log_Len_def)
  have "N \<le> commit_loop n (LastIndex (nlog n))"
    using lt last by (intro commit_loop_complete [OF wf ts _ _ c]) (auto simp: word_le_nat_alt)
  then have ge: "N \<le> commitIndex (advanceCommit n)" using l by (simp add: advanceCommit_def)
  moreover have "commitIndex n < N" using c by (simp add: committable_def)
  ultimately have "commitIndex (advanceCommit n) \<noteq> commitIndex n" by auto
  with ge advanceCommit_sound [of n] show ?thesis by auto
qed

subsection \<open>Applying\<close>

text \<open>The entries from index \<open>a + 1\<close> up to \<open>c\<close>.\<close>

definition window :: "Log \<Rightarrow> nat \<Rightarrow> nat \<Rightarrow> Record list" where
  "window l a c = take (c - a) (drop (Suc a) (entries l))"

lemma window_step:
  "a < c \<Longrightarrow> Suc a < length (entries l) \<Longrightarrow> window l a c = entries l ! Suc a # window l (Suc a) c"
  by (simp add: window_def Cons_nth_drop_Suc [symmetric] Suc_diff_Suc [symmetric])

text \<open>How far the loop gets: to the commit index, or to the end of the log.\<close>

definition apply_limit :: "'s Node \<Rightarrow> nat" where
  "apply_limit n = max (unat (lastApplied n)) (min (unat (commitIndex n)) (Log_Len (nlog n)))"

lemma applyCommitted_spec:
  assumes "log_wf (nlog n)"
  shows "applyCommitted n = n\<lparr>
    machine := foldl (apply_fn n) (machine n) (window (nlog n) (unat (lastApplied n)) (apply_limit n)),
    lastApplied := of_nat (apply_limit n),
    applyWait := applyWait n + (apply_limit n - unat (lastApplied n))\<rparr>"
  using assms
proof (induction n rule: applyCommitted.induct)
  case (1 n)
  let ?a = "unat (lastApplied n)" and ?len = "length (entries (nlog n))"
  show ?case
  proof (cases "apply_next n")
    case None
    have "min (unat (commitIndex n)) (?len - 1) \<le> ?a"
    proof (rule ccontr)
      assume "\<not> ?thesis"
      then have lt: "?a < unat (commitIndex n)" "Suc ?a < ?len" by auto
      then have s: "unat (lastApplied n + 1) = Suc ?a"
        by (intro unat_succ_u64 [of _ "commitIndex n"]) (simp add: word_less_nat_alt)
      then have "\<not> commitIndex n < lastApplied n + 1" using lt by (simp add: word_less_nat_alt)
      with None s lt "1.prems" show False by (simp add: apply_next_def At_wf)
    qed
    then have "apply_limit n = ?a" by (simp add: apply_limit_def Log_Len_def)
    with None show ?thesis by (simp add: applyCommitted.simps [of n] window_def)
  next
    case (Some e)
    let ?n = "apply_one n e"
    note s = apply_next_Some [OF Some]
    have e: "Suc ?a < ?len" "e = entries (nlog n) ! Suc ?a"
      using s "1.prems" by (auto simp: At_wf split: if_splits)
    have sel: "nlog ?n = nlog n" "commitIndex ?n = commitIndex n" "apply_fn ?n = apply_fn n"
        "unat (lastApplied ?n) = Suc ?a" "machine ?n = apply_fn n (machine n) e" "applyWait ?n = applyWait n + 1"
      using s by (simp_all add: apply_one_def)
    have lim: "apply_limit ?n = apply_limit n" "?a < apply_limit n"
      using s e(1) by (auto simp: apply_limit_def sel Log_Len_def)
    have "applyCommitted n = applyCommitted ?n" using Some by (simp add: applyCommitted.simps [of n])
    also have "\<dots> = ?n\<lparr>machine := foldl (apply_fn n) (machine ?n) (window (nlog n) (Suc ?a) (apply_limit n)),
        lastApplied := of_nat (apply_limit n), applyWait := applyWait ?n + (apply_limit n - Suc ?a)\<rparr>"
      using "1.IH" [OF Some] "1.prems" by (simp add: sel lim)
    also have "\<dots> = n\<lparr>machine := foldl (apply_fn n) (machine n) (window (nlog n) ?a (apply_limit n)),
        lastApplied := of_nat (apply_limit n), applyWait := applyWait n + (apply_limit n - ?a)\<rparr>"
      using lim(2) e by (simp add: window_step) (simp add: apply_one_def)
    finally show ?thesis .
  qed
qed

text \<open>The state machine is always the fold of a prefix of the log, here named by \<open>m0\<close>.\<close>

definition applied_ok :: "'s \<Rightarrow> 's Node \<Rightarrow> bool" where
  "applied_ok m0 n \<longleftrightarrow> log_wf (nlog n) \<and> unat (lastApplied n) \<le> Log_Len (nlog n) \<and>
     machine n = foldl (apply_fn n) m0 (take (unat (lastApplied n)) (tl (entries (nlog n))))"

lemma apply_limit_range:
  "unat (lastApplied n) \<le> Log_Len (nlog n) \<Longrightarrow>
   unat (lastApplied n) \<le> apply_limit n \<and> apply_limit n \<le> Log_Len (nlog n)"
  by (auto simp: apply_limit_def)

lemma unat_apply_limit:
  assumes "log_wf (nlog n)" and "unat (lastApplied n) \<le> Log_Len (nlog n)"
  shows "unat (of_nat (apply_limit n) :: u64) = apply_limit n"
proof (rule unat_of_nat_u64)
  have "Log_Len (nlog n) < 2 ^ 64"
    using indexed_length [of "entries (nlog n)"] assms(1) by (simp add: log_wf_def Log_Len_def)
  then show "apply_limit n < 2 ^ 64" using apply_limit_range [OF assms(2)] by linarith
qed

lemma applied_ok_applyCommitted:
  assumes ok: "applied_ok m0 n"
  shows "applied_ok m0 (applyCommitted n) \<and> unat (lastApplied (applyCommitted n)) = apply_limit n \<and>
    apply_fn (applyCommitted n) = apply_fn n \<and> nlog (applyCommitted n) = nlog n"
proof -
  let ?a = "unat (lastApplied n)" and ?es = "entries (nlog n)"
  have wf: "log_wf (nlog n)" and le: "?a \<le> Log_Len (nlog n)" using ok by (auto simp: applied_ok_def)
  note r = apply_limit_range [OF le]
  have "take (apply_limit n) (tl ?es) = take ?a (tl ?es) @ window (nlog n) ?a (apply_limit n)"
    using r by (simp add: window_def drop_Suc flip: take_add)
  then have "foldl (apply_fn n) (machine n) (window (nlog n) ?a (apply_limit n)) =
      foldl (apply_fn n) m0 (take (apply_limit n) (tl ?es))"
    using ok by (simp add: applied_ok_def)
  with wf r unat_apply_limit [OF wf le] show ?thesis
    by (simp add: applied_ok_def applyCommitted_spec)
qed

text \<open>Extending the log keeps what was applied; so does any change above it.\<close>

lemma applied_ok_log:
  assumes "applied_ok m0 n" and "log_wf l" and "take (Suc (unat (lastApplied n))) (entries l) =
      take (Suc (unat (lastApplied n))) (entries (nlog n))" and "unat (lastApplied n) \<le> Log_Len l"
  shows "applied_ok m0 (n\<lparr>nlog := l\<rparr>)"
proof -
  have t: "take k (tl es) = tl (take (Suc k) es)" for k and es :: "Record list" by (simp add: tl_take)
  from assms show ?thesis by (simp add: applied_ok_def t)
qed

subsection \<open>The follower's commit index\<close>

definition last_new :: "AppendEntriesRequest \<Rightarrow> u64" where
  "last_new req = PrevLogIndex req + of_nat (length (Entries req))"

lemma new_commit_last_new:
  "new_commit c req = (if LeaderCommit req > c then min (LeaderCommit req) (last_new req) else c)"
  by (simp add: new_commit_def last_new_def)

text \<open>
  An accepted message lowers the commit index in exactly one situation: it ends below what
  the follower has already committed, and the leader has committed more.
\<close>

lemma new_commit_falls:
  "new_commit c req < c \<longleftrightarrow> last_new req < c \<and> c < LeaderCommit req"
  by (auto simp: new_commit_last_new min_def not_le)

lemma handleAppendEntries_commit:
  assumes "handleAppendEntries n req now = (r, n')"
  shows "commitIndex n' = (case r of Inr resp \<Rightarrow>
      (if Success resp then new_commit (commitIndex n) req else commitIndex n) | Inl _ \<Rightarrow> commitIndex n)"
  using assms
  by (rule handleAppendEntries_cases) (auto simp: replyLocked_def dest!: adopt_sel)

text \<open>The log of a leader, and a message built from it by \<^verbatim>\<open>replicateTo\<close> or \<^verbatim>\<open>probe\<close>.\<close>

definition message_from :: "Record list \<Rightarrow> AppendEntriesRequest \<Rightarrow> bool" where
  "message_from lead req \<longleftrightarrow> indexed lead \<and> unat (PrevLogIndex req) < length lead \<and>
     PrevLogTerm req = Term (lead ! unat (PrevLogIndex req)) \<and>
     (\<exists>k. Entries req = take k (drop (unat (PrevLogIndex req) + 1) lead)) \<and>
     unat (LeaderCommit req) < length lead"

lemma last_new_from:
  assumes "message_from lead req"
  shows "unat (last_new req) = unat (PrevLogIndex req) + length (Entries req) \<and>
    unat (PrevLogIndex req) + length (Entries req) < length lead"
proof -
  have lt: "unat (PrevLogIndex req) + length (Entries req) < length lead"
    using assms by (auto simp: message_from_def)
  then have lt64: "unat (PrevLogIndex req) + length (Entries req) < 2 ^ 64"
    using assms indexed_length [of lead] by (simp add: message_from_def)
  have "last_new req = of_nat (unat (PrevLogIndex req) + length (Entries req))" by (simp add: last_new_def)
  then show ?thesis using lt unat_of_nat_u64 [OF lt64] by presburger
qed

text \<open>What a successful reply says about the follower's log.\<close>

lemma handleAppendEntries_success:
  assumes run: "handleAppendEntries n req now = (Inr resp, n')" and ok: "Success resp"
  obtains m l where "AppendAfter (nlog n) (PrevLogIndex req) (PrevLogTerm req) (Entries req) = (Inr True, l)"
    and "nlog n' = l" and "commitIndex n' = new_commit (commitIndex n) req" and "lastApplied n' = lastApplied n"
    and "machine n' = machine n" and "apply_fn n' = apply_fn n" and "currentTerm n' = aq_Term req"
    and "role n' = Follower" and "resp = replyLocked n' True"
  using run
proof (cases rule: handleAppendEntries_cases)
  case (accepted m l)
  with adopt_sel [OF accepted(2)] show ?thesis
    by (intro that [of l]) (auto simp: max_def replyLocked_def)
qed (use ok in \<open>auto simp: replyLocked_def\<close>)

lemma handleAppendEntries_follows:
  assumes run: "handleAppendEntries n req now = (Inr resp, n')" and ok: "Success resp"
    and wf: "log_wf (nlog n)" and msg: "message_from lead req" and m: "matching lead (entries (nlog n))"
  shows "log_wf (nlog n') \<and>
    take (Suc (unat (last_new req))) (entries (nlog n')) = take (Suc (unat (last_new req))) lead \<and>
    (\<forall>g. matching g lead \<and> matching g (entries (nlog n)) \<longrightarrow> matching g (entries (nlog n')))"
proof -
  obtain l where ap: "AppendAfter (nlog n) (PrevLogIndex req) (PrevLogTerm req) (Entries req) = (Inr True, l)"
    and l: "nlog n' = l" using run ok by (rule handleAppendEntries_success)
  obtain k where k: "Entries req = take k (drop (unat (PrevLogIndex req) + 1) lead)"
    using msg by (auto simp: message_from_def)
  have f: "indexed lead" "unat (PrevLogIndex req) < length lead"
      "PrevLogTerm req = Term (lead ! unat (PrevLogIndex req))"
    using msg by (auto simp: message_from_def)
  have s: "Suc (unat (last_new req)) = unat (PrevLogIndex req) + 1 + length (Entries req)"
    using last_new_from [OF msg] by simp
  show ?thesis
    using AppendAfter_from_leader [OF wf ap f k m] unfolding l s by simp
qed

lemma repair_agreed:
  assumes "take c es = take c lead" and "c \<le> length es" and "c \<le> length lead"
    and "k + length new \<le> c" and new: "new = take n (drop k lead)"
  shows "repair k es new = es"
proof (rule repair_known)
  show "k + length new \<le> length es" using assms by linarith
  show "\<forall>j < length new. Term (es ! (k + j)) = Term (new ! j)"
  proof (intro allI impI)
    fix j assume j: "j < length new"
    then have "k + j < c" using assms(4) by linarith
    then have "es ! (k + j) = lead ! (k + j)" using assms(1) by (metis nth_take)
    moreover have "k \<le> length lead" using \<open>k + j < c\<close> assms(3) by linarith
    then have "new ! j = lead ! (k + j)" using j by (simp add: new)
    ultimately show "Term (es ! (k + j)) = Term (new ! j)" by simp
  qed
qed

text \<open>
  Everything a follower has committed after accepting a leader's message agrees with that
  leader's log, and what it has applied is the leader's prefix, provided this held for
  what it had committed and applied before.
\<close>

lemma HandleAppendEntries_follows:
  assumes run: "HandleAppendEntries n req now = (Inr resp, n')" and ok: "Success resp"
    and msg: "message_from lead req" and m: "matching lead (entries (nlog n))" and ap: "applied_ok m0 n"
    and agreed: "take (Suc (unat c)) (entries (nlog n)) = take (Suc (unat c)) lead"
    and c: "commitIndex n \<le> c" "lastApplied n \<le> c"
    and inlog: "unat c < length lead" "unat c < length (entries (nlog n))"
  shows "log_wf (nlog n') \<and> unat (commitIndex n') \<le> Log_Len (nlog n') \<and>
    take (Suc (unat (commitIndex n'))) (entries (nlog n')) = take (Suc (unat (commitIndex n'))) lead \<and>
    lastApplied n' = max (lastApplied n) (commitIndex n') \<and>
    machine n' = foldl (apply_fn n) m0 (take (unat (lastApplied n')) (tl lead))"
proof -
  obtain r1 n1 where h: "handleAppendEntries n req now = (r1, n1)" by fastforce
  with run have r1: "r1 = Inr resp" and n': "n' = applyCommitted n1"
    by (auto simp: HandleAppendEntries_def split: sum.splits)
  note h = h [unfolded r1]
  have wf: "log_wf (nlog n)" using ap by (simp add: applied_ok_def)
  obtain l where n1: "nlog n1 = l" "commitIndex n1 = new_commit (commitIndex n) req" "lastApplied n1 = lastApplied n"
      "machine n1 = machine n" "apply_fn n1 = apply_fn n"
    using h ok by (rule handleAppendEntries_success)
  let ?p = "Suc (unat (last_new req))"
  have fol: "log_wf l" "take ?p (entries l) = take ?p lead"
    and keep: "matching g lead \<Longrightarrow> matching g (entries (nlog n)) \<Longrightarrow> matching g (entries l)" for g
    using handleAppendEntries_follows [OF h ok wf msg m] n1(1) by auto
  have ml: "matching lead (entries l)" using keep [OF matching_refl m] .
  have plen: "?p \<le> length lead" using last_new_from [OF msg] by simp
  have plen': "?p \<le> length (entries l)"
    using arg_cong [OF fol(2), of length] plen by simp
  \<comment> \<open>what was agreed before is still there\<close>
  have cl: "take (Suc (unat c)) (entries l) = take (Suc (unat c)) lead \<and> unat c < length (entries l)"
  proof (cases "unat c < unat (last_new req)")
    case True
    then show ?thesis using take_eq_mono [OF fol(2), of "Suc (unat c)"] plen' by simp
  next
    case False
    obtain k where k: "Entries req = take k (drop (unat (PrevLogIndex req) + 1) lead)"
      using msg by (auto simp: message_from_def)
    have ap1: "AppendAfter (nlog n) (PrevLogIndex req) (PrevLogTerm req) (Entries req) = (Inr True, l)"
      using handleAppendEntries_success [OF h ok] n1(1) by metis
    have sz: "unat (PrevLogIndex req) + 1 + length (Entries req) < slice_max"
      and num: "numbered_from (PrevLogIndex req) (Entries req)"
      using msg plen last_new_from [OF msg] k
      by (auto simp: message_from_def indexed_def numbered_from_def)
    have "Match (nlog n) (PrevLogIndex req) (PrevLogTerm req)" using ap1 by (auto simp: AppendAfter_def split: if_splits)
    with AppendAfter_spec [OF wf ap1 sz num]
    have "entries l = repair (unat (PrevLogIndex req) + 1) (entries (nlog n)) (Entries req)"
      by (simp add: loop_result_def)
    also have "\<dots> = entries (nlog n)"
      using agreed inlog False last_new_from [OF msg] k by (intro repair_agreed [of "Suc (unat c)" _ lead]) auto
    finally have "entries l = entries (nlog n)" .
    then show ?thesis using agreed inlog(2) by simp
  qed
  \<comment> \<open>so everything up to the larger of the two agrees\<close>
  let ?C = "commitIndex n1" and ?la = "lastApplied n"
  have C: "?C \<le> c \<or> ?C \<le> last_new req" using c(1) by (auto simp: n1(2) new_commit_last_new)
  have agree: "take (Suc (unat k)) (entries l) = take (Suc (unat k)) lead \<and> unat k < length (entries l)"
    if "k \<le> c \<or> k \<le> last_new req" for k
    using that cl take_eq_mono [of "Suc (unat c)" "entries l" lead "Suc (unat k)"]
      take_eq_mono [OF fol(2), of "Suc (unat k)"] plen'
    by (auto simp: word_le_nat_alt)
  have la: "take (Suc (unat ?la)) (entries l) = take (Suc (unat ?la)) (entries (nlog n))"
    using agree [of ?la] c(2) take_eq_mono [OF agreed, of "Suc (unat ?la)"] by (simp add: word_le_nat_alt)
  have "applied_ok m0 (n\<lparr>nlog := l\<rparr>)"
    using agree [of ?la] c(2) by (intro applied_ok_log [OF ap fol(1) la]) (auto simp: Log_Len_def)
  then have ok1: "applied_ok m0 n1" by (simp add: applied_ok_def n1)
  note fin = applied_ok_applyCommitted [OF ok1]
  have n'c: "commitIndex n' = ?C" unfolding n' by (subst applyCommitted_frame) simp
  have lim: "apply_limit n1 = max (unat ?la) (unat ?C)"
    using agree [OF C] by (auto simp: apply_limit_def n1 Log_Len_def min_def)
  have la': "lastApplied n' = max ?la ?C"
  proof -
    have "unat (lastApplied n') = unat (max ?la ?C)" using fin lim n' by (simp add: max_def word_le_nat_alt)
    then show ?thesis by (simp add: word_unat_eq_iff)
  qed
  have "take (Suc (unat (lastApplied n'))) (entries l) = take (Suc (unat (lastApplied n'))) lead"
    using agree [of ?la] agree [OF C] c(2) by (auto simp: la' max_def)
  then have "take (unat (lastApplied n')) (tl (entries l)) = take (unat (lastApplied n')) (tl lead)"
    by (metis take_Suc tl_take take_tl)
  then have "machine n' = foldl (apply_fn n) m0 (take (unat (lastApplied n')) (tl lead))"
    using fin n' by (simp add: applied_ok_def n1)
  moreover have "unat ?C \<le> Log_Len l" using agree [OF C] by (auto simp: Log_Len_def)
  ultimately show ?thesis using agree [OF C] fol(1) fin n' n'c la' by (simp add: n1)
qed

end
