(* ===== verification/Raft_Replicate.thy ===== *)
theory Raft_Replicate
  imports Raft_Commit
begin

text \<open>
  The walk-back of \<^verbatim>\<open>replicateTo\<close>, run against a follower that is up and a network that
  delivers: how many attempts it needs, what the follower's log is afterwards, and why
  the bound of 64 attempts per call does not stop replication.
\<close>

subsection \<open>Where two logs part\<close>

fun agree_len :: "Record list \<Rightarrow> Record list \<Rightarrow> nat" where
  "agree_len (x # xs) (y # ys) = (if x = y then Suc (agree_len xs ys) else 0)"
| "agree_len _ _ = 0"

lemma agree_len_le: "agree_len xs ys \<le> length xs \<and> agree_len xs ys \<le> length ys"
  by (induction xs ys rule: agree_len.induct) auto

lemma take_agree_len: "take (agree_len xs ys) xs = take (agree_len xs ys) ys"
  by (induction xs ys rule: agree_len.induct) auto

lemma agree_len_max: "take k xs = take k ys \<Longrightarrow> k \<le> length xs \<Longrightarrow> k \<le> length ys \<Longrightarrow> k \<le> agree_len xs ys"
proof (induction xs ys arbitrary: k rule: agree_len.induct)
  case (1 x xs y ys)
  then show ?case by (cases k) auto
qed auto

lemma agree_len_sentinel: "indexed xs \<Longrightarrow> indexed ys \<Longrightarrow> 1 \<le> agree_len xs ys"
  using indexed_tl [of xs] indexed_tl [of ys] by (metis One_nat_def agree_len.simps(1) le_add1 plus_1_eq_Suc)

text \<open>
  Between matching logs the consistency check succeeds exactly below the point where they
  part.
\<close>

lemma Match_agree_len:
  assumes "log_wf l" and m: "matching lead (entries l)" and p: "unat p < length lead"
  shows "Match l p (Term (lead ! unat p)) \<longleftrightarrow> unat p < agree_len lead (entries l)"
proof
  assume "Match l p (Term (lead ! unat p))"
  then have lt: "unat p < length (entries l)" and "Term (lead ! unat p) = Term (entries l ! unat p)"
    using Match_wf [OF assms(1)] by auto
  with m p have "take (Suc (unat p)) lead = take (Suc (unat p)) (entries l)" by (auto simp: matching_def)
  then show "unat p < agree_len lead (entries l)"
    using agree_len_max [of "Suc (unat p)" lead "entries l"] lt p by simp
next
  assume lt: "unat p < agree_len lead (entries l)"
  then have "unat p < length (entries l)" using agree_len_le [of lead "entries l"] by linarith
  moreover have "lead ! unat p = entries l ! unat p"
    using take_agree_len [of lead "entries l"] lt by (metis nth_take)
  ultimately show "Match l p (Term (lead ! unat p))" using Match_wf [OF assms(1)] by auto
qed

subsection \<open>A direct line\<close>

text \<open>
  The environment in which nothing else happens and the only peer, the world itself,
  answers at once. A handler's error is a failed call.
\<close>

definition answer :: "'e + 'a \<Rightarrow> 'a option" where
  "answer r = (case r of Inl _ \<Rightarrow> None | Inr a \<Rightarrow> Some a)"

definition direct :: "int \<Rightarrow> ('s, 's Node) env" where
  "direct now = \<lparr>others = \<lambda>n u. (n, u),
     send_append = \<lambda>p req u. (case HandleAppendEntries u req now of (r, u') \<Rightarrow> (answer r, u')),
     send_vote = \<lambda>p req u. (case HandleRequestVote u req now of (r, u') \<Rightarrow> (answer r, u')),
     send_read = \<lambda>p req u. (None, u),
     send_forward = \<lambda>p req u. (None, u)\<rparr>"

lemma direct_sel [simp]: "others (direct now) n u = (n, u)"
  "send_append (direct now) p req u = (case HandleAppendEntries u req now of (r, u') \<Rightarrow> (answer r, u'))"
  by (simp_all add: direct_def)

text \<open>A leader and a follower of its term whose logs match and whose file works.\<close>

definition in_step :: "Peer \<Rightarrow> 's Node \<Rightarrow> 's Node \<Rightarrow> bool" where
  "in_step p n u \<longleftrightarrow> role n = Leader \<and> log_wf (nlog n) \<and> currentTerm u = currentTerm n \<and> healthy (nlog u) \<and>
     matching (entries (nlog n)) (entries (nlog u)) \<and>
     (\<exists>nx. nextIndex n (peer_ID p) = Some nx \<and> 1 \<le> unat nx \<and> unat nx \<le> length (entries (nlog n)))"

text \<open>The number of attempts still needed.\<close>

definition distance :: "Peer \<Rightarrow> 's Node \<Rightarrow> 's Node \<Rightarrow> nat" where
  "distance p n u =
     (let a = agree_len (entries (nlog n)) (entries (nlog u)); len = length (entries (nlog u));
          nx = unat (at0 (nextIndex n) (peer_ID p)) in
      if nx \<le> a then 1 else if nx \<le> len then nx - a + 1 else len - a + 2)"

definition caught_up :: "Peer \<Rightarrow> 's Node \<Rightarrow> 's Node \<Rightarrow> bool" where
  "caught_up p n u \<longleftrightarrow>
     take (length (entries (nlog n))) (entries (nlog u)) = entries (nlog n) \<and>
     matchIndex n (peer_ID p) = Some (LastIndex (nlog n)) \<and>
     nextIndex n (peer_ID p) = Some (LastIndex (nlog n) + 1)"

lemma distance_pos: "1 \<le> distance p n u"
  by (simp add: distance_def Let_def)

lemma distance_bound:
  "distance p n u \<le> length (entries (nlog u)) - agree_len (entries (nlog n)) (entries (nlog u)) + 2"
  by (auto simp: distance_def Let_def)

text \<open>What a working follower of the same term does with a message.\<close>

lemma HandleAppendEntries_healthy:
  assumes t: "aq_Term req = currentTerm u" and h: "healthy (nlog u)"
    and sz: "unat (PrevLogIndex req) + 1 + length (Entries req) < slice_max"
    and num: "numbered_from (PrevLogIndex req) (Entries req)"
  obtains u' l where "HandleAppendEntries u req now = (Inr (replyLocked u' (Match (nlog u) (PrevLogIndex req) (PrevLogTerm req))), u')"
    and "nlog u' = l" and "currentTerm u' = currentTerm u"
    and "AppendAfter (nlog u) (PrevLogIndex req) (PrevLogTerm req) (Entries req) =
      (Inr (Match (nlog u) (PrevLogIndex req) (PrevLogTerm req)), l)"
    and "healthy l" and "\<not> Match (nlog u) (PrevLogIndex req) (PrevLogTerm req) \<Longrightarrow> l = nlog u"
proof -
  let ?ok = "Match (nlog u) (PrevLogIndex req) (PrevLogTerm req)"
  obtain l where l: "AppendAfter (nlog u) (PrevLogIndex req) (PrevLogTerm req) (Entries req) = (Inr ?ok, l)"
      "healthy l" "\<not> ?ok \<Longrightarrow> l = nlog u"
    using AppendAfter_healthy [OF h sz num] by metis
  obtain r u1 where run: "handleAppendEntries u req now = (r, u1)" by fastforce
  have a: "adopt u (aq_Term req) = (None, u)" using t by (simp add: adopt_def)
  have u1: "r = Inr (replyLocked u1 ?ok)" "nlog u1 = l" "currentTerm u1 = currentTerm u"
    using run by (rule handleAppendEntries_cases; use a l t in auto)+
  have sel: "nlog (applyCommitted u1) = nlog u1" "currentTerm (applyCommitted u1) = currentTerm u1"
    by (subst applyCommitted_frame, simp)+
  then have rep: "replyLocked (applyCommitted u1) = replyLocked u1" by (simp add: replyLocked_def fun_eq_iff)
  have "HandleAppendEntries u req now = (Inr (replyLocked (applyCommitted u1) ?ok), applyCommitted u1)"
    using run u1(1) rep by (simp add: HandleAppendEntries_def)
  then show thesis
    using u1(2,3) sel l by (intro that [of "applyCommitted u1" l]) simp_all
qed

subsection \<open>One attempt\<close>

lemma replicate_request_filled:
  assumes "role n = Leader" and wf: "log_wf (nlog n)" and nx: "at0 (nextIndex n) (peer_ID p) = nx"
    and r: "1 \<le> unat nx" "unat nx \<le> length (entries (nlog n))"
  defines "lead \<equiv> entries (nlog n)"
  obtains req where "replicate_request n p = Some req" and
    "fill_entries (nlog n) (fill_prev (nlog n) req) = \<lparr>aq_Term = currentTerm n, aq_LeaderID = cfg_ID (cfg n),
       PrevLogIndex = nx - 1, PrevLogTerm = Term (lead ! unat (nx - 1)), Entries = drop (unat nx) lead,
       LeaderCommit = commitIndex n\<rparr>"
proof -
  let ?req = "\<lparr>aq_Term = currentTerm n, aq_LeaderID = cfg_ID (cfg n), PrevLogIndex = nx - 1, PrevLogTerm = 0,
     Entries = [], LeaderCommit = commitIndex n\<rparr>"
  have pred: "unat (nx - 1) = unat nx - 1" using r(1) by (intro unat_pred_u64) auto
  have tm: "(case At (nlog n) (nx - 1) of None \<Rightarrow> 0 | Some e \<Rightarrow> Term e) = Term (lead ! unat (nx - 1))"
  proof (cases "unat (nx - 1) = 0")
    case True
    have "lead ! 0 = sentinel" using wf by (simp add: log_wf_def indexed_def lead_def)
    with True wf show ?thesis by (simp add: At_wf sentinel_def zero_record_def)
  next
    case False
    moreover have "unat (nx - 1) < length lead" using r pred unfolding lead_def by linarith
    ultimately show ?thesis using wf by (simp add: At_wf lead_def)
  qed
  have "EntriesFrom (nlog n) (nx - 1 + 1) = drop (unat nx) lead"
    using r(1) by (simp add: EntriesFrom_wf [OF wf] lead_def max_def)
  then have "fill_entries (nlog n) (fill_prev (nlog n) ?req) = ?req\<lparr>PrevLogTerm := Term (lead ! unat (nx - 1)),
      Entries := drop (unat nx) lead\<rparr>"
    using tm by (simp add: fill_entries_def fill_prev_def)
  then show thesis using assms(1) nx by (intro that [of ?req]) (simp_all add: replicate_request_def)
qed

lemma attempt:
  assumes s: "in_step p n u"
  shows "(distance p n u = 1 \<longrightarrow>
      (\<exists>n' u'. replicate_attempts (Suc k) (direct now) p n u = (True, n', u') \<and> in_step p n' u' \<and>
         nlog n' = nlog n \<and> caught_up p n' u')) \<and>
    (1 < distance p n u \<longrightarrow>
      (\<exists>n' u'. replicate_attempts (Suc k) (direct now) p n u = replicate_attempts k (direct now) p n' u' \<and>
         in_step p n' u' \<and> nlog n' = nlog n \<and> distance p n' u' = distance p n u - 1))"
proof -
  let ?lead = "entries (nlog n)" and ?es = "entries (nlog u)"
  let ?a = "agree_len ?lead ?es"
  obtain nx where nx: "nextIndex n (peer_ID p) = Some nx" "1 \<le> unat nx" "unat nx \<le> length ?lead"
    using s by (auto simp: in_step_def)
  have at: "at0 (nextIndex n) (peer_ID p) = nx" using nx(1) by (simp add: at0_def)
  have f: "role n = Leader" "log_wf (nlog n)" "currentTerm u = currentTerm n" "healthy (nlog u)"
      "matching ?lead ?es" "log_wf (nlog u)"
    using s by (auto simp: in_step_def healthy_def)
  have ind: "indexed ?lead" "indexed ?es" using f by (simp_all add: log_wf_def)
  have pred: "unat (nx - 1) = unat nx - 1" using nx(2) by (intro unat_pred_u64) auto
  obtain req0 where req0: "replicate_request n p = Some req0" and
    req: "fill_entries (nlog n) (fill_prev (nlog n) req0) = \<lparr>aq_Term = currentTerm n, aq_LeaderID = cfg_ID (cfg n),
       PrevLogIndex = nx - 1, PrevLogTerm = Term (?lead ! unat (nx - 1)), Entries = drop (unat nx) ?lead,
       LeaderCommit = commitIndex n\<rparr>" (is "_ = ?req")
    using replicate_request_filled [OF f(1,2) at nx(2,3)] by blast
  have p1: "unat (nx - 1) < length ?lead" using nx(2,3) pred by linarith
  have k: "Entries ?req = take (length ?lead) (drop (unat (PrevLogIndex ?req) + 1) ?lead)"
    using nx(2) pred by simp
  have sz: "unat (PrevLogIndex ?req) + 1 + length (Entries ?req) < slice_max"
    and num: "numbered_from (PrevLogIndex ?req) (Entries ?req)"
    using ind(1) nx(2,3) pred by (auto simp: indexed_def numbered_from_def)
  let ?ok = "Match (nlog u) (nx - 1) (Term (?lead ! unat (nx - 1)))"
  have ok: "?ok \<longleftrightarrow> unat nx \<le> ?a"
    using Match_agree_len [OF f(6,5) p1] pred nx(2) by linarith
  have tq: "aq_Term ?req = currentTerm u" using f(3) by simp
  obtain u' l where h: "HandleAppendEntries u ?req now = (Inr (replyLocked u' ?ok), u')" "nlog u' = l"
      "currentTerm u' = currentTerm u" "AppendAfter (nlog u) (nx - 1) (Term (?lead ! unat (nx - 1)))
        (drop (unat nx) ?lead) = (Inr ?ok, l)" "healthy l" "\<not> ?ok \<Longrightarrow> l = nlog u"
    using HandleAppendEntries_healthy [OF tq f(4) sz num] by auto
  have drp: "drop (unat nx) ?lead = take (length ?lead) (drop (unat (nx - 1) + 1) ?lead)"
    using k by simp
  note from_leader = AppendAfter_from_leader [OF f(6) h(4) ind(1) p1 refl drp f(5)]
  then have m': "matching ?lead (entries l)" using f(5) matching_refl by blast
  have run: "replicate_attempts (Suc k) (direct now) p n u =
      (case replicate_reply n p ?req (replyLocked u' ?ok) of (Some b, n') \<Rightarrow> (b, n', u')
       | (None, n') \<Rightarrow> replicate_attempts k (direct now) p n' u')"
    by (simp add: req0 req h(1) Let_def answer_def split: prod.split option.split)
  have tr: "ar_Term (replyLocked u' ?ok) = currentTerm n" "Success (replyLocked u' ?ok) = ?ok"
      "ar_LastLogIndex (replyLocked u' ?ok) = LastIndex l"
    using h(2,3) f(3) by (simp_all add: replyLocked_def)
  have L64: "length ?lead < 2 ^ 64" "length ?es < 2 ^ 64" using ind indexed_length by auto
  have Last: "LastIndex (nlog n) + 1 = of_nat (length ?lead)" using LastIndex_wf [OF f(2)] .
  have unL: "unat (of_nat (length ?lead) :: u64) = length ?lead" "unat (of_nat (length ?es) :: u64) = length ?es"
    using L64 unat_of_nat_u64 by blast+
  show ?thesis
  proof (cases "unat nx \<le> ?a")
    case True
    have m: "nx - 1 + of_nat (length (Entries ?req)) = LastIndex (nlog n)"
    proof -
      have "nx + of_nat (length ?lead - unat nx) = of_nat (unat nx + (length ?lead - unat nx))" by simp
      also have "\<dots> = LastIndex (nlog n) + 1" using nx(3) Last by simp
      finally show ?thesis by (simp add: algebra_simps)
    qed
    let ?n = "n\<lparr>matchIndex := (matchIndex n)(peer_ID p \<mapsto> LastIndex (nlog n)),
                nextIndex := (nextIndex n)(peer_ID p \<mapsto> LastIndex (nlog n) + 1)\<rparr>"
    have "replicate_reply n p ?req (replyLocked u' ?ok) = (Some True, ?n)"
      using True ok tr m by (simp add: replicate_reply_def Let_def)
    then have "replicate_attempts (Suc k) (direct now) p n u = (True, ?n, u')" using run by simp
    moreover have "take (length ?lead) (entries l) = ?lead"
    proof -
      have "take (unat (nx - 1) + 1 + length (drop (unat nx) ?lead)) (entries l) =
          take (unat (nx - 1) + 1 + length (drop (unat nx) ?lead)) ?lead"
        using from_leader True ok by simp
      moreover have "unat (nx - 1) + 1 + length (drop (unat nx) ?lead) = length ?lead" using pred nx by simp
      ultimately show ?thesis by simp
    qed
    then have "caught_up p ?n u'" using h(2) by (simp add: caught_up_def)
    moreover have "in_step p ?n u'"
      using f h m' Last unL(1) ind(1) indexed_nonempty [OF ind(1)] by (simp add: in_step_def Suc_le_eq)
    moreover have "distance p n u = 1" using True at by (simp add: distance_def)
    ultimately show ?thesis by auto
  next
    case False
    then have l: "l = nlog u" and no: "\<not> ?ok" using h(6) ok by auto
    have a1: "1 \<le> ?a" using agree_len_sentinel [OF ind] .
    have nx1: "1 < nx" using False a1 by (simp add: word_less_nat_alt)
    have lt: "LastIndex (nlog u) + 1 < nx \<longleftrightarrow> length ?es < unat nx"
      using LastIndex_wf [OF f(6)] unL(2) by (simp add: word_less_nat_alt)
    define nx' where "nx' = (if length ?es < unat nx then of_nat (length ?es) else nx - 1)"
    let ?n = "n\<lparr>nextIndex := (nextIndex n)(peer_ID p \<mapsto> nx')\<rparr>"
    have "replicate_reply n p ?req (replyLocked u' ?ok) = (None, ?n)"
      using no tr at nx1 lt LastIndex_wf [OF f(6)] l by (simp add: replicate_reply_def Let_def nx'_def)
    then have "replicate_attempts (Suc k) (direct now) p n u = replicate_attempts k (direct now) p ?n u'"
      using run by simp
    moreover have un': "unat nx' = (if length ?es < unat nx then length ?es else unat nx - 1)"
      using pred unL(2) by (simp add: nx'_def)
    have "in_step p ?n u'"
      using f h m' l un' nx False a1 agree_len_le [of ?lead ?es] by (auto simp: in_step_def)
    moreover have "distance p ?n u' = distance p n u - 1 \<and> 1 < distance p n u"
      using False a1 agree_len_le [of ?lead ?es] un' h(2) l at by (auto simp: distance_def Let_def at0_def)
    moreover have "nlog ?n = nlog n" by simp
    ultimately have "1 < distance p n u \<and> (\<exists>n' u'. replicate_attempts (Suc k) (direct now) p n u =
        replicate_attempts k (direct now) p n' u' \<and> in_step p n' u' \<and> nlog n' = nlog n \<and>
        distance p n' u' = distance p n u - 1)"
      by blast
    then show ?thesis by (simp del: replicate_attempts.simps)
  qed
qed

text \<open>
  So \<open>k\<close> attempts either bring the follower up to date or come \<open>k\<close> attempts closer to it,
  and what one call leaves undone the next ones do.
\<close>

lemma attempts:
  assumes "in_step p n u"
  shows "\<exists>n' u'. replicate_attempts k (direct now) p n u = (distance p n u \<le> k, n', u') \<and> in_step p n' u' \<and>
    nlog n' = nlog n \<and> (if distance p n u \<le> k then caught_up p n' u' else distance p n' u' = distance p n u - k)"
  using assms
proof (induction k arbitrary: n u)
  case 0
  with distance_pos [of p n u] show ?case by auto
next
  case (Suc k)
  note at = attempt [OF Suc.prems, of k now]
  show ?case
  proof (cases "distance p n u = 1")
    case True
    with at obtain n' u' where "replicate_attempts (Suc k) (direct now) p n u = (True, n', u')" "in_step p n' u'"
        "nlog n' = nlog n" "caught_up p n' u'" by blast
    with True show ?thesis by (auto simp del: replicate_attempts.simps)
  next
    case False
    then have gt: "1 < distance p n u" using distance_pos [of p n u] by linarith
    with at obtain n1 u1 where one: "replicate_attempts (Suc k) (direct now) p n u = replicate_attempts k (direct now) p n1 u1"
        "in_step p n1 u1" "nlog n1 = nlog n" "distance p n1 u1 = distance p n u - 1" by blast
    obtain n' u' where "replicate_attempts k (direct now) p n1 u1 = (distance p n1 u1 \<le> k, n', u')"
        "in_step p n' u'" "nlog n' = nlog n1"
        "if distance p n1 u1 \<le> k then caught_up p n' u' else distance p n' u' = distance p n1 u1 - k"
      using Suc.IH [OF one(2)] by blast
    moreover have "distance p n1 u1 \<le> k \<longleftrightarrow> distance p n u \<le> Suc k" using gt one(4) by linarith
    ultimately show ?thesis using one gt by (auto simp del: replicate_attempts.simps)
  qed
qed

lemma caught_up_distance: "caught_up p n u \<Longrightarrow> in_step p n u \<Longrightarrow> distance p n u = 1"
proof -
  assume c: "caught_up p n u" and s: "in_step p n u"
  have "length (entries (nlog n)) \<le> length (entries (nlog u))"
    using c arg_cong [of _ _ length] by (fastforce simp: caught_up_def)
  then have "length (entries (nlog n)) \<le> agree_len (entries (nlog n)) (entries (nlog u))"
    using c by (intro agree_len_max) (simp_all add: caught_up_def)
  with s show ?thesis by (auto simp: in_step_def distance_def at0_def)
qed

lemma replicateTo_converges:
  assumes "in_step p n u" and "distance p n u \<le> maxWalkbackAttempts"
  shows "\<exists>n' u'. replicateTo (direct now) p n u = (True, n', u') \<and> caught_up p n' u' \<and> nlog n' = nlog n"
  using attempts [OF assms(1), of maxWalkbackAttempts now] assms(2) by (auto simp: replicateTo_def)

lemma rounds_converge:
  assumes "in_step p n u" and "distance p n u \<le> m * maxWalkbackAttempts"
  shows "\<exists>n' u'. round_all (direct now) (replicate m p) n u = (n', u') \<and> in_step p n' u' \<and> caught_up p n' u' \<and>
    nlog n' = nlog n"
  using assms
proof (induction m arbitrary: n u)
  case 0
  with distance_pos [of p n u] show ?case by simp
next
  case (Suc m)
  let ?k = maxWalkbackAttempts
  obtain n1 u1 where one: "replicateTo (direct now) p n u = (distance p n u \<le> ?k, n1, u1)" "in_step p n1 u1"
      "nlog n1 = nlog n" "if distance p n u \<le> ?k then caught_up p n1 u1 else distance p n1 u1 = distance p n u - ?k"
    using attempts [OF Suc.prems(1), of ?k now] by (auto simp: replicateTo_def)
  show ?case
  proof (cases "m = 0")
    case True
    with one Suc.prems(2) show ?thesis by simp
  next
    case False
    have "distance p n1 u1 \<le> m * ?k"
    proof (cases "distance p n u \<le> ?k")
      case True
      then have "distance p n1 u1 = 1" using one caught_up_distance by simp
      with False show ?thesis by (simp add: maxWalkbackAttempts_def)
    next
      case no: False
      with one(4) Suc.prems(2) show ?thesis by simp
    qed
    from Suc.IH [OF one(2) this] one show ?thesis by auto
  qed
qed

end
