(* ===== verification/Raft_Transport.thy ===== *)
theory Raft_Transport
  imports Raft_Wire Raft_Read Raft_Replicate
begin

text \<open>
  \<^verbatim>\<open>src/internal/raft/transport.go\<close>: the messages over HTTP. The client side turns a call
  into a POST of the message's JSON, the server side decodes it (from a body of limited
  size), runs the node's handler and encodes the answer. The theorems: composed, they
  run the peer's handler on the message as JSON leaves it, unless the body is over the
  limit, in which case the peer is not touched.
\<close>

definition appendEntriesPath :: string where "appendEntriesPath = ''/raft/append-entries''"
definition requestVotePath :: string where "requestVotePath = ''/raft/request-vote''"
definition readIndexPath :: string where "readIndexPath = ''/raft/read-index''"
definition forwardPath :: string where "forwardPath = ''/raft/forward''"

text \<open>
  An HTTP response: its status, the bytes of its body, and whether reading the body failed
  after them.
\<close>

record http_response =
  StatusCode :: nat
  Body :: string
  Broken :: bool

subsection \<open>The client\<close>

text \<open>
  \<^verbatim>\<open>net/http\<close> is a parameter: \<open>valid_url\<close> is what \<^verbatim>\<open>http.NewRequest\<close> accepts, \<open>exchange\<close> what
  \<^verbatim>\<open>client.Do\<close> does with a POST to a URL (\<^const>\<open>None\<close>: an error, a timeout among them).
\<close>

record 'w http_client =
  valid_url :: "string \<Rightarrow> bool"
  exchange :: "string \<Rightarrow> string \<Rightarrow> 'w \<Rightarrow> http_response option \<times> 'w"

datatype transport_error = ErrBuildRequest | ErrCall NodeID | ErrPeerStatus NodeID nat | ErrDecodeResponse

text \<open>
  \<^verbatim>\<open>post\<close>. The body is the marshalled request, \<open>decode\<close> reads the response into \<^verbatim>\<open>out\<close>;
  marshalling these structs never fails.
\<close>

definition post ::
  "'w http_client \<Rightarrow> Peer \<Rightarrow> string \<Rightarrow> string \<Rightarrow> (string \<Rightarrow> bool \<Rightarrow> 'r option) \<Rightarrow> 'w \<Rightarrow>
   (transport_error + 'r) \<times> 'w" where
  "post t peer path body decode u =
     (let url = ''http://'' @ peer_Addr peer @ path in
      if \<not> valid_url t url then (Inl ErrBuildRequest, u)
      else case exchange t url body u of
        (None, u) \<Rightarrow> (Inl (ErrCall (peer_ID peer)), u)
      | (Some resp, u) \<Rightarrow>
          if StatusCode resp \<noteq> 200 then (Inl (ErrPeerStatus (peer_ID peer) (StatusCode resp)), u)
          else (case decode (Body resp) (Broken resp) of
                  None \<Rightarrow> (Inl ErrDecodeResponse, u)
                | Some r \<Rightarrow> (Inr r, u)))"

definition HTTP_AppendEntries ::
  "'w http_client \<Rightarrow> Peer \<Rightarrow> AppendEntriesRequest \<Rightarrow> 'w \<Rightarrow> (transport_error + AppendEntriesResponse) \<times> 'w" where
  "HTTP_AppendEntries t peer req u =
     post t peer appendEntriesPath (render_obj (append_request_fields req))
       (decode_body append_response_names set_append_response zero_append_response) u"

definition HTTP_RequestVote ::
  "'w http_client \<Rightarrow> Peer \<Rightarrow> RequestVoteRequest \<Rightarrow> 'w \<Rightarrow> (transport_error + RequestVoteResponse) \<times> 'w" where
  "HTTP_RequestVote t peer req u =
     post t peer requestVotePath (render_obj (vote_request_fields req))
       (decode_body vote_response_names set_vote_response zero_vote_response) u"

definition HTTP_ReadIndex ::
  "'w http_client \<Rightarrow> Peer \<Rightarrow> ReadIndexRequest \<Rightarrow> 'w \<Rightarrow> (transport_error + ReadIndexResponse) \<times> 'w" where
  "HTTP_ReadIndex t peer req u =
     post t peer readIndexPath (render_obj (read_request_fields req))
       (decode_body read_response_names set_read_response zero_read_response) u"

definition HTTP_Forward ::
  "'w http_client \<Rightarrow> Peer \<Rightarrow> ForwardRequest \<Rightarrow> 'w \<Rightarrow> (transport_error + ForwardResponse) \<times> 'w" where
  "HTTP_Forward t peer req u =
     post t peer forwardPath (render_obj (forward_request_fields req))
       (decode_body forward_response_names set_forward_response zero_forward_response) u"

text \<open>The transport as the node sees it: any error is "no reply".\<close>

definition http_env ::
  "'w http_client \<Rightarrow> ('s Node \<Rightarrow> 'w \<Rightarrow> 's Node \<times> 'w) \<Rightarrow> ('s, 'w) env" where
  "http_env t oth = \<lparr>others = oth,
     send_append = \<lambda>p req u. (case HTTP_AppendEntries t p req u of (r, u) \<Rightarrow> (answer r, u)),
     send_vote = \<lambda>p req u. (case HTTP_RequestVote t p req u of (r, u) \<Rightarrow> (answer r, u)),
     send_read = \<lambda>p req u. (case HTTP_ReadIndex t p req u of (r, u) \<Rightarrow> (answer r, u)),
     send_forward = \<lambda>p req u. (case HTTP_Forward t p req u of (r, u) \<Rightarrow> (answer r, u))\<rparr>"

subsection \<open>The server\<close>

text \<open>
  \<^verbatim>\<open>http.Error\<close> writes the text and a newline, \<^verbatim>\<open>json.NewEncoder(w).Encode\<close> the JSON and a
  newline, with status 200.
\<close>

definition http_error :: "string \<Rightarrow> nat \<Rightarrow> http_response" where
  "http_error text code = \<lparr>StatusCode = code, Body = text @ [CHR 0x0A], Broken = False\<rparr>"

definition http_ok :: "(string \<times> jfield) list \<Rightarrow> http_response" where
  "http_ok ms = \<lparr>StatusCode = 200, Body = render_obj ms @ [CHR 0x0A], Broken = False\<rparr>"

definition bad_request :: http_response where
  "bad_request = http_error (''bad request'' @ [CHR 0x0A]) 400"

definition serve_append :: "'s Node \<Rightarrow> string \<Rightarrow> int \<Rightarrow> http_response \<times> 's Node" where
  "serve_append n body now =
     (case decode_limited 8388608 append_request_names set_append_request zero_append_request body of
        None \<Rightarrow> (bad_request, n)
      | Some req \<Rightarrow>
          (case HandleAppendEntries n req now of
             (Inl _, n) \<Rightarrow> (http_error (''append failed'' @ [CHR 0x0A]) 500, n)
           | (Inr resp, n) \<Rightarrow> (http_ok (append_response_fields resp), n)))"

definition serve_read ::
  "('s, 'w) env \<Rightarrow> ('s Node \<Rightarrow> 'w \<Rightarrow> (node_error + u64) \<times> 's Node \<times> 'w) \<Rightarrow> string \<Rightarrow> 's Node \<Rightarrow> 'w \<Rightarrow>
   http_response \<times> 's Node \<times> 'w" where
  "serve_read env confirm body n u =
     (case decode_limited 1048576 read_request_names set_read_request zero_read_request body of
        None \<Rightarrow> (bad_request, n, u)
      | Some req \<Rightarrow>
          (case HandleReadIndex env confirm req n u of
             (Inl _, n, u) \<Rightarrow> (http_error (''read index failed'' @ [CHR 0x0A]) 500, n, u)
           | (Inr resp, n, u) \<Rightarrow> (http_ok (read_response_fields resp), n, u)))"

definition serve_forward ::
  "('s, 'w) env \<Rightarrow> (node_error \<Rightarrow> string) \<Rightarrow> Peer list \<Rightarrow> string \<Rightarrow> 's Node \<Rightarrow> 'w \<Rightarrow> http_response \<times> 's Node \<times> 'w" where
  "serve_forward env text_of ps body n u =
     (case decode_limited 8388608 forward_request_names set_forward_request zero_forward_request body of
        None \<Rightarrow> (bad_request, n, u)
      | Some req \<Rightarrow>
          (case HandleForward env text_of ps req n u of
             (resp, n, u) \<Rightarrow> (http_ok (forward_response_fields resp), n, u)))"

definition serve_vote :: "'s Node \<Rightarrow> string \<Rightarrow> int \<Rightarrow> http_response \<times> 's Node" where
  "serve_vote n body now =
     (case decode_limited 1048576 vote_request_names set_vote_request zero_vote_request body of
        None \<Rightarrow> (bad_request, n)
      | Some req \<Rightarrow>
          (case HandleRequestVote n req now of
             (Inl _, n) \<Rightarrow> (http_error (''vote failed'' @ [CHR 0x0A]) 500, n)
           | (Inr resp, n) \<Rightarrow> (http_ok (vote_response_fields resp), n)))"

text \<open>
  \<^verbatim>\<open>PeerHandler\<close>: the routes of \<^verbatim>\<open>http.ServeMux\<close>. A path of a route with another method
  is answered with 405, any other path with 404.
\<close>

record ('s, 'w) serving =
  s_env :: "('s, 'w) env"
  s_confirm :: "'s Node \<Rightarrow> 'w \<Rightarrow> (node_error + u64) \<times> 's Node \<times> 'w"
  s_text :: "node_error \<Rightarrow> string"
  s_order :: "Peer list"
  s_now :: int

definition PeerHandler ::
  "('s, 'w) serving \<Rightarrow> string \<Rightarrow> string \<Rightarrow> string \<Rightarrow> 's Node \<Rightarrow> 'w \<Rightarrow> http_response \<times> 's Node \<times> 'w" where
  "PeerHandler sv meth path body n u =
     (if path \<notin> {appendEntriesPath, readIndexPath, forwardPath, requestVotePath}
      then (http_error ''404 page not found'' 404, n, u)
      else if meth \<noteq> ''POST'' then (http_error ''Method Not Allowed'' 405, n, u)
      else if path = appendEntriesPath
      then (case serve_append n body (s_now sv) of (resp, n) \<Rightarrow> (resp, n, u))
      else if path = readIndexPath then serve_read (s_env sv) (s_confirm sv) body n u
      else if path = forwardPath then serve_forward (s_env sv) (s_text sv) (s_order sv) body n u
      else (case serve_vote n body (s_now sv) of (resp, n) \<Rightarrow> (resp, n, u)))"

lemma paths_distinct [simp]:
  "appendEntriesPath \<noteq> readIndexPath" "appendEntriesPath \<noteq> forwardPath" "appendEntriesPath \<noteq> requestVotePath"
  "readIndexPath \<noteq> appendEntriesPath" "readIndexPath \<noteq> forwardPath" "readIndexPath \<noteq> requestVotePath"
  "forwardPath \<noteq> appendEntriesPath" "forwardPath \<noteq> readIndexPath" "forwardPath \<noteq> requestVotePath"
  "requestVotePath \<noteq> appendEntriesPath" "requestVotePath \<noteq> readIndexPath" "requestVotePath \<noteq> forwardPath"
  by (simp_all add: appendEntriesPath_def readIndexPath_def forwardPath_def requestVotePath_def)

subsection \<open>Client and server together\<close>

text \<open>A network on which the server of \<open>addr\<close> is reached at once, and nobody else is.\<close>

definition loopback :: "('s, 'w) serving \<Rightarrow> string \<Rightarrow> ('s Node \<times> 'w) http_client" where
  "loopback sv addr = \<lparr>valid_url = (\<lambda>_. True),
     exchange = (\<lambda>url body (n, u).
       let base = ''http://'' @ addr in
       if take (length base) url = base
       then (case PeerHandler sv ''POST'' (drop (length base) url) body n u of
               (resp, n, u) \<Rightarrow> (Some resp, (n, u)))
       else (None, (n, u)))\<rparr>"

lemma post_loopback:
  "post (loopback sv (peer_Addr p)) p path body decode (n, u) =
     (case PeerHandler sv ''POST'' path body n u of
        (resp, n, u) \<Rightarrow>
          (if StatusCode resp \<noteq> 200 then Inl (ErrPeerStatus (peer_ID p) (StatusCode resp))
           else case decode (Body resp) (Broken resp) of None \<Rightarrow> Inl ErrDecodeResponse | Some r \<Rightarrow> Inr r, (n, u)))"
  by (simp add: post_def loopback_def Let_def split: prod.split option.split)

lemmas served_parts = http_ok_def http_error_def bad_request_def

lemma append_over_http:
  "HTTP_AppendEntries (loopback sv (peer_Addr p)) p req (n, u) =
     (if length (render_obj (append_request_fields req)) \<le> 8388608
      then case HandleAppendEntries n (sanitize_append_request req) (s_now sv) of
             (Inl _, n') \<Rightarrow> (Inl (ErrPeerStatus (peer_ID p) 500), (n', u))
           | (Inr resp, n') \<Rightarrow> (Inr resp, (n', u))
      else (Inl (ErrPeerStatus (peer_ID p) 400), (n, u)))"
  by (auto simp: HTTP_AppendEntries_def post_loopback PeerHandler_def serve_append_def append_request.decode_limit
      append_response.decode_whole served_parts split: prod.split sum.split)

lemma vote_over_http:
  "HTTP_RequestVote (loopback sv (peer_Addr p)) p req (n, u) =
     (if length (render_obj (vote_request_fields req)) \<le> 1048576
      then case HandleRequestVote n (sanitize_vote_request req) (s_now sv) of
             (Inl _, n') \<Rightarrow> (Inl (ErrPeerStatus (peer_ID p) 500), (n', u))
           | (Inr resp, n') \<Rightarrow> (Inr resp, (n', u))
      else (Inl (ErrPeerStatus (peer_ID p) 400), (n, u)))"
  by (auto simp: HTTP_RequestVote_def post_loopback PeerHandler_def serve_vote_def vote_request.decode_limit
      vote_response.decode_whole served_parts split: prod.split sum.split)

lemma read_over_http:
  "HTTP_ReadIndex (loopback sv (peer_Addr p)) p req (n, u) =
     (if length (render_obj (read_request_fields req)) \<le> 1048576
      then case HandleReadIndex (s_env sv) (s_confirm sv) (sanitize_read_request req) n u of
             (Inl _, n', u') \<Rightarrow> (Inl (ErrPeerStatus (peer_ID p) 500), (n', u'))
           | (Inr resp, n', u') \<Rightarrow> (Inr resp, (n', u'))
      else (Inl (ErrPeerStatus (peer_ID p) 400), (n, u)))"
  by (auto simp: HTTP_ReadIndex_def post_loopback PeerHandler_def serve_read_def read_request.decode_limit
      read_response.decode_whole served_parts split: prod.split sum.split)

lemma forward_over_http:
  "HTTP_Forward (loopback sv (peer_Addr p)) p req (n, u) =
     (if length (render_obj (forward_request_fields req)) \<le> 8388608
      then case HandleForward (s_env sv) (s_text sv) (s_order sv) (sanitize_forward_request req) n u of
             (resp, n', u') \<Rightarrow> (Inr (sanitize_forward_response resp), (n', u'))
      else (Inl (ErrPeerStatus (peer_ID p) 400), (n, u)))"
  by (auto simp: HTTP_Forward_def post_loopback PeerHandler_def serve_forward_def forward_request.decode_limit
      forward_response.decode_whole served_parts split: prod.split sum.split)

text \<open>A message whose strings are UTF-8 arrives as it was sent.\<close>

lemma sanitize_append_request_valid:
  "valid_utf8 (aq_LeaderID req) \<Longrightarrow> \<forall>r \<in> set (Entries req). utf8_record r \<Longrightarrow> sanitize_append_request req = req"
  by (simp add: sanitize_append_request_def sanitize_valid map_idI sanitize_record_valid)

subsection \<open>A follower too far behind\<close>

text \<open>
  \<^verbatim>\<open>replicateTo\<close> sends all the entries from the follower's \<^verbatim>\<open>nextIndex\<close> on in one message. Once
  they render to more than the limit, every attempt ends in status 400, and nothing that the
  next attempt would do differently changes.
\<close>

definition too_long :: "'s Node \<Rightarrow> Peer \<Rightarrow> bool" where
  "too_long n p \<longleftrightarrow> (case replicate_request n p of None \<Rightarrow> False
     | Some req \<Rightarrow> 8388608 <
         length (render_obj (append_request_fields (fill_entries (nlog n) (fill_prev (nlog n) req)))))"

lemma replicateTo_too_long:
  assumes "too_long n p"
  shows "replicateTo (http_env (loopback sv (peer_Addr p)) (\<lambda>n u. (n, u))) p n v = (False, n, v)"
proof -
  obtain req where req: "replicate_request n p = Some req"
    using assms by (auto simp: too_long_def split: option.splits)
  define req' where "req' = fill_entries (nlog n) (fill_prev (nlog n) req)"
  have long: "8388608 < length (render_obj (append_request_fields req'))"
    using assms req by (simp add: too_long_def req'_def)
  have "send_append (http_env (loopback sv (peer_Addr p)) (\<lambda>n u. (n, u))) p req' v = (None, v)"
    using long by (cases v) (simp add: http_env_def append_over_http answer_def)
  then have "replicate_attempts (Suc 63) (http_env (loopback sv (peer_Addr p)) (\<lambda>n u. (n, u))) p n v = (False, n, v)"
    by (subst replicate_attempts.simps) (simp add: req req'_def [symmetric] http_env_def)
  then show ?thesis by (simp add: replicateTo_def maxWalkbackAttempts_def del: replicate_attempts.simps)
qed

lemma rounds_too_long:
  assumes "too_long n p"
  shows "round_all (http_env (loopback sv (peer_Addr p)) (\<lambda>n u. (n, u))) (replicate m p) n v = (n, v)"
  by (induction m) (simp_all add: replicateTo_too_long [OF assms])

end
