(* ===== verification/Loadgen.thy ===== *)
theory Loadgen
  imports Go_Float Raft_Transport "HOL-Library.Multiset"
begin

text \<open>
  \<^verbatim>\<open>src/cmd/loadgen/main.go\<close>: the benchmark client. Times and durations are nanoseconds. The clock, the
  random numbers and the HTTP client are parameters, functions of a state of the world that may
  change in any way from call to call, so a goroutine's view of it includes what the others
  do. What is printed is the value of the functions below; the layout of the lines is not modelled.
\<close>

subsection \<open>Flags, the world, HTTP\<close>

record lg_flags =
  lg_addr :: string
  lg_follower :: string
  lg_workers :: nat
  lg_duration :: int
  lg_mode :: string
  lg_consistency :: string
  lg_samples :: nat
  lg_label :: string
  lg_jitter :: int

text \<open>
  \<open>lg_accepts\<close> is what \<^verbatim>\<open>http.NewRequest\<close> accepts, \<open>lg_perform\<close> what \<^verbatim>\<open>client.Do\<close> does with method, URL and body
  (\<^const>\<open>None\<close>: an error), \<open>lg_draw n\<close> is \<^verbatim>\<open>rand.Int63n\<close>, a number from 0 up to \<open>n\<close>.
\<close>

record 'w lg_world =
  lg_accepts :: "string \<Rightarrow> string \<Rightarrow> bool"
  lg_perform :: "string \<Rightarrow> string \<Rightarrow> string \<Rightarrow> 'w \<Rightarrow> http_response option \<times> 'w"
  lg_now :: "'w \<Rightarrow> int \<times> 'w"
  lg_draw :: "int \<Rightarrow> 'w \<Rightarrow> int \<times> 'w"
  lg_sleep :: "int \<Rightarrow> 'w \<Rightarrow> 'w"

datatype lg_error = ErrNewRequest | ErrDo | ErrStatusCode nat

definition do_request :: "'w lg_world \<Rightarrow> string \<Rightarrow> string \<Rightarrow> string \<Rightarrow> 'w \<Rightarrow> lg_error option \<times> 'w" where
  "do_request c method url body u =
     (if \<not> lg_accepts c method url then (Some ErrNewRequest, u)
      else case lg_perform c method url body u of
        (None, u) \<Rightarrow> (Some ErrDo, u)
      | (Some resp, u) \<Rightarrow>
          if 400 \<le> StatusCode resp then (Some (ErrStatusCode (StatusCode resp)), u) else (None, u))"

definition lg_put :: "'w lg_world \<Rightarrow> string \<Rightarrow> string \<Rightarrow> string \<Rightarrow> 'w \<Rightarrow> lg_error option \<times> 'w" where
  "lg_put c base key val u = do_request c ''PUT'' (base @ ''/kv/'' @ key) val u"

text \<open>\<^verbatim>\<open>get\<close> ignores an error while it reads the body: what had arrived is the value.\<close>

definition lg_get :: "'w lg_world \<Rightarrow> string \<Rightarrow> string \<Rightarrow> string \<Rightarrow> 'w \<Rightarrow> (lg_error + string) \<times> 'w" where
  "lg_get c base key mode u =
     (let url = base @ ''/kv/'' @ key @ ''?consistency='' @ mode in
      if \<not> lg_accepts c ''GET'' url then (Inl ErrNewRequest, u)
      else case lg_perform c ''GET'' url [] u of
        (None, u) \<Rightarrow> (Inl ErrDo, u)
      | (Some resp, u) \<Rightarrow>
          if 400 \<le> StatusCode resp then (Inl (ErrStatusCode (StatusCode resp)), u) else (Inr (Body resp), u))"

definition oneRequest :: "lg_flags \<Rightarrow> 'w lg_world \<Rightarrow> nat \<Rightarrow> 'w \<Rightarrow> lg_error option \<times> 'w" where
  "oneRequest fl c worker u =
     (if lg_mode fl = ''read''
      then do_request c ''GET'' (lg_addr fl @ ''/kv/bench?consistency='' @ lg_consistency fl) [] u
      else do_request c ''PUT'' (lg_addr fl @ ''/kv/worker-'' @ dec worker) ''some-value'' u)"

subsection \<open>Durations and percentiles\<close>

text \<open>\<^verbatim>\<open>Duration.Round\<close>: to the nearest multiple, halves away from zero.\<close>

definition duration_round :: "int \<Rightarrow> int \<Rightarrow> int" where
  "duration_round d m =
     (if m \<le> 0 then d
      else if 0 \<le> d then (let r = d mod m in if r + r < m then d - r else d + m - r)
      else (let r = (- d) mod m in if r + r < m then d + r else d - m + r))"

definition microsecond :: int where "microsecond = 1000"
definition millisecond :: int where "millisecond = 1000000"

definition duration_seconds :: "int \<Rightarrow> rat" where
  "duration_seconds d =
     float_add (float64 (of_int (d div 1000000000))) (float_div (float64 (of_int (d mod 1000000000))) 1000000000)"

text \<open>The closure \<^verbatim>\<open>pct\<close> of \<^verbatim>\<open>report\<close> and of \<^verbatim>\<open>staleness\<close>, on a sorted list that is not empty.\<close>

definition pct_index :: "nat \<Rightarrow> rat \<Rightarrow> int" where
  "pct_index n p = (let i = trunc (float_mul (float64 (of_nat n)) p) - 1 in if i < 0 then 0 else i)"

definition pct :: "int list \<Rightarrow> rat \<Rightarrow> int" where
  "pct lat p = lat ! nat (pct_index (length lat) p)"

definition p50 :: rat where "p50 = float64 (1 / 2)"
definition p99 :: rat where "p99 = float64 (99 / 100)"

subsection \<open>Throughput\<close>

text \<open>
  A client's loop: the latencies it has kept and its errors. Fuel bounds the rounds; \<^const>\<open>None\<close> is a
  loop that has not ended within it.
\<close>

fun load_worker :: "nat \<Rightarrow> lg_flags \<Rightarrow> 'w lg_world \<Rightarrow> int \<Rightarrow> nat \<Rightarrow> int list \<Rightarrow> nat \<Rightarrow> 'w \<Rightarrow> (int list \<times> nat) option" where
  "load_worker 0 fl c deadline i local errs u = None"
| "load_worker (Suc k) fl c deadline i local errs u =
     (let (t, u) = lg_now c u in
      if \<not> t < deadline then Some (local, errs)
      else
        let (t0, u) = lg_now c u; (e, u) = oneRequest fl c i u; (t1, u) = lg_now c u; took = t1 - t0 in
        case e of
          Some _ \<Rightarrow> load_worker k fl c deadline i local (errs + 1) u
        | None \<Rightarrow> load_worker k fl c deadline i (local @ [took]) errs u)"

datatype lg_report =
    NoSuccess string nat
  | Report string rat int int int nat nat  \<comment> \<open>name, rate, p50, p99, maximum, successes, errors\<close>

definition report :: "lg_flags \<Rightarrow> int \<Rightarrow> int list \<Rightarrow> nat \<Rightarrow> lg_report" where
  "report fl elapsed lat errs =
     (let name = (if lg_label fl = [] then lg_mode fl else lg_label fl) in
      if lat = [] then NoSuccess name errs
      else let lat = sort lat in
        Report name (float_div (float64 (of_nat (length lat))) (duration_seconds elapsed))
          (duration_round (pct lat p50) microsecond) (duration_round (pct lat p99) microsecond)
          (duration_round (lat ! (length lat - 1)) microsecond) (length lat) errs)"

text \<open>
  \<open>view i\<close> is the world as client \<open>i\<close> meets it, \<open>order\<close> the order in which the clients add
  their results under \<^verbatim>\<open>mu\<close>.
\<close>

definition throughput :: "nat \<Rightarrow> lg_flags \<Rightarrow> 'w lg_world \<Rightarrow> (nat \<Rightarrow> 'w) \<Rightarrow> nat list \<Rightarrow> 'w \<Rightarrow> lg_report option" where
  "throughput fuel fl c view order u =
     (let u = (if lg_mode fl = ''read'' then snd (lg_put c (lg_addr fl) ''bench'' ''seed-value'' u) else u);
          (t, u) = lg_now c u; deadline = t + lg_duration fl; (start, u) = lg_now c u in
      case those (map (\<lambda>i. load_worker fuel fl c deadline i [] 0 (view i)) order) of
        None \<Rightarrow> None
      | Some rs \<Rightarrow>
          (let (t, u) = lg_now c u in
           Some (report fl (t - start) (concat (map fst rs)) (sum_list (map snd rs)))))"

subsection \<open>Staleness\<close>

text \<open>One sample's polling: how long until the follower showed the value; \<open>Some None\<close> if it did not in time.\<close>

fun poll :: "nat \<Rightarrow> lg_flags \<Rightarrow> 'w lg_world \<Rightarrow> int \<Rightarrow> int \<Rightarrow> string \<Rightarrow> 'w \<Rightarrow> (int option \<times> 'w) option" where
  "poll 0 fl c deadline acked val u = None"
| "poll (Suc k) fl c deadline acked val u =
     (let (t, u) = lg_now c u in
      if \<not> t < deadline then Some (None, u)
      else let (r, u) = lg_get c (lg_follower fl) ''staleness'' ''eventual'' u in
        if r = Inr val then let (t1, u) = lg_now c u in Some (Some (t1 - acked), u)
        else poll k fl c deadline acked val u)"

text \<open>\<^verbatim>\<open>%d\<close> of an integer.\<close>

definition int_text :: "int \<Rightarrow> string" where
  "int_text z = (if z < 0 then ''-'' @ dec (nat (- z)) else dec (nat z))"

fun stale_samples :: "nat \<Rightarrow> lg_flags \<Rightarrow> 'w lg_world \<Rightarrow> nat \<Rightarrow> nat \<Rightarrow> int list \<Rightarrow> nat \<Rightarrow> 'w \<Rightarrow> (int list \<times> nat \<times> 'w) option" where
  "stale_samples fuel fl c i 0 windows misses u = Some (windows, misses, u)"
| "stale_samples fuel fl c i (Suc left) windows misses u =
     (let (d, u) = lg_draw c (lg_jitter fl) u; u = lg_sleep c d u; (t, u) = lg_now c u;
          val = ''v'' @ dec i @ ''-'' @ int_text t; (e, u) = lg_put c (lg_addr fl) ''staleness'' val u in
      case e of
        Some _ \<Rightarrow> stale_samples fuel fl c (i + 1) left windows (misses + 1) u
      | None \<Rightarrow>
          (let (acked, u) = lg_now c u; deadline = acked + 2000000000 in
           case poll fuel fl c deadline acked val u of
             None \<Rightarrow> None
           | Some (seen, u) \<Rightarrow>
               stale_samples fuel fl c (i + 1) left (case seen of None \<Rightarrow> windows | Some t \<Rightarrow> windows @ [t]) misses u))"

datatype stale_report = StalePanic | StaleNone | Stale int int int nat  \<comment> \<open>p50, p99, maximum, windows\<close>

text \<open>\<^verbatim>\<open>rand.Int63n\<close> panics unless the jitter is positive (if there is a sample to take).\<close>

definition staleness :: "nat \<Rightarrow> lg_flags \<Rightarrow> 'w lg_world \<Rightarrow> 'w \<Rightarrow> stale_report option" where
  "staleness fuel fl c u =
     (if lg_jitter fl \<le> 0 \<and> 0 < lg_samples fl then Some StalePanic
      else case stale_samples fuel fl c 0 (lg_samples fl) [] 0 u of
        None \<Rightarrow> None
      | Some (windows, misses, u) \<Rightarrow>
          Some (if windows = [] then StaleNone
            else let windows = sort windows in
              Stale (duration_round (pct windows p50) microsecond) (duration_round (pct windows p99) microsecond)
                (duration_round (windows ! (length windows - 1)) microsecond) (length windows)))"

subsection \<open>Availability\<close>

record sample =
  s_at :: int
  s_ok :: bool

fun avail_worker :: "nat \<Rightarrow> lg_flags \<Rightarrow> 'w lg_world \<Rightarrow> int \<Rightarrow> nat \<Rightarrow> sample list \<Rightarrow> 'w \<Rightarrow> sample list option" where
  "avail_worker 0 fl c deadline i local u = None"
| "avail_worker (Suc k) fl c deadline i local u =
     (let (t, u) = lg_now c u in
      if \<not> t < deadline then Some local
      else let (e, u) = do_request c ''PUT'' (lg_addr fl @ ''/kv/avail-'' @ dec i) ''v'' u; (t, u) = lg_now c u in
        avail_worker k fl c deadline i (local @ [\<lparr>s_at = t, s_ok = (e = None)\<rparr>]) u)"

text \<open>The pass over the history in order of time. \<open>gapStart\<close> is \<^const>\<open>None\<close> while it has the zero \<^verbatim>\<open>time.Time\<close>.\<close>

record gaps =
  okCount :: nat
  failCount :: nat
  lastOK :: int
  maxGap :: int
  gapStart :: "int option"

definition gap_step :: "gaps \<Rightarrow> sample \<Rightarrow> gaps" where
  "gap_step g s =
     (if s_ok s
      then (let gap = s_at s - lastOK g;
                g = (if maxGap g < gap then g\<lparr>maxGap := gap, gapStart := Some (lastOK g)\<rparr> else g) in
            g\<lparr>lastOK := s_at s, okCount := okCount g + 1\<rparr>)
      else g\<lparr>failCount := failCount g + 1\<rparr>)"

definition gaps_of :: "int \<Rightarrow> sample list \<Rightarrow> gaps" where
  "gaps_of start history =
     foldl gap_step \<lparr>okCount = 0, failCount = 0, lastOK = start, maxGap = 0, gapStart = None\<rparr> history"

text \<open>
  \<^verbatim>\<open>timeline\<close>. A length of zero would divide by zero, and a sample before the start would be out of
  range: \<^const>\<open>None\<close>.
\<close>

definition bucket_of :: "int \<Rightarrow> int \<Rightarrow> sample \<Rightarrow> int" where
  "bucket_of start whole s =
     (let i = trunc (float_mul (float_div (float64 (of_int (s_at s - start))) (float64 (of_int whole))) 50)
      in if 50 \<le> i then 49 else i)"

fun fill_buckets :: "int \<Rightarrow> int \<Rightarrow> sample list \<Rightarrow> int list \<Rightarrow> int list option" where
  "fill_buckets start whole [] b = Some b"
| "fill_buckets start whole (s # ss) b =
     (let i = bucket_of start whole s in
      if i < 0 \<or> whole = 0 then None
      else fill_buckets start whole ss
        (if \<not> s_ok s then b[nat i := - 1] else if b ! nat i = 0 then b[nat i := 1] else b))"

definition bucket_char :: "int \<Rightarrow> char" where
  "bucket_char v = (if v = - 1 then CHR ''_'' else if v = 1 then CHR ''#'' else CHR ''.'')"

definition timeline :: "sample list \<Rightarrow> int \<Rightarrow> int \<Rightarrow> string option" where
  "timeline history start whole = map_option (map bucket_char) (fill_buckets start whole history (replicate 50 0))"

record avail_report =
  a_ok :: nat
  a_failed :: nat
  a_over :: int
  a_outage :: int
  a_offset :: int
  a_timeline :: "string option"

text \<open>
  The offset of the outage: with \<^verbatim>\<open>gapStart\<close> still zero the difference is below any \<^verbatim>\<open>Duration\<close>, and
  \<^verbatim>\<open>Sub\<close> and \<^verbatim>\<open>Round\<close> return the smallest one.
\<close>

definition availability ::
  "nat \<Rightarrow> lg_flags \<Rightarrow> 'w lg_world \<Rightarrow> (nat \<Rightarrow> 'w) \<Rightarrow> nat list \<Rightarrow> 'w \<Rightarrow> avail_report option" where
  "availability fuel fl c view order u =
     (let (t, u) = lg_now c u; deadline = t + lg_duration fl; (start, u) = lg_now c u in
      case those (map (\<lambda>i. avail_worker fuel fl c deadline i [] (view i)) order) of
        None \<Rightarrow> None
      | Some rs \<Rightarrow>
          (let history = sort_key s_at (concat rs); g = gaps_of start history;
               (t1, u) = lg_now c u; (t2, u) = lg_now c u in
           Some \<lparr>a_ok = okCount g, a_failed = failCount g, a_over = duration_round (t1 - start) millisecond,
             a_outage = duration_round (maxGap g) millisecond,
             a_offset = (case gapStart g of None \<Rightarrow> - (2 ^ 63) | Some x \<Rightarrow> duration_round (x - start) millisecond),
             a_timeline = timeline history start (t2 - start)\<rparr>))"

subsection \<open>main\<close>

datatype lg_output = Throughput lg_report | Staleness stale_report | Availability avail_report | UnknownMode string

definition loadgen_main :: "nat \<Rightarrow> lg_flags \<Rightarrow> 'w lg_world \<Rightarrow> (nat \<Rightarrow> 'w) \<Rightarrow> nat list \<Rightarrow> 'w \<Rightarrow> lg_output option" where
  "loadgen_main fuel fl c view order u =
     (if lg_mode fl = ''write'' \<or> lg_mode fl = ''read''
      then map_option Throughput (throughput fuel fl c view order u)
      else if lg_mode fl = ''staleness'' then map_option Staleness (staleness fuel fl c u)
      else if lg_mode fl = ''availability'' then map_option Availability (availability fuel fl c view order u)
      else Some (UnknownMode (lg_mode fl)))"

subsection \<open>Percentiles\<close>

lemma float64_close:
  assumes "0 \<le> x"
  shows "999 / 1000 * x \<le> float64 x" "float64 x \<le> 1001 / 1000 * x"
proof -
  have "x / 2 ^ 53 \<le> x / 1000" using assms by (intro divide_left_mono) simp_all
  then show "999 / 1000 * x \<le> float64 x" "float64 x \<le> 1001 / 1000 * x"
    using float64_bounds [OF assms] by linarith+
qed

lemma p_bounds: "499 / 1000 \<le> p50" "p50 \<le> 501 / 1000" "989 / 1000 \<le> p99" "p99 \<le> 991 / 1000"
  using float64_close [of "1 / 2"] float64_close [of "99 / 100"] by (simp_all add: p50_def p99_def)

lemma float_mul_close:
  assumes "0 \<le> p"
  shows "998 / 1000 * (of_nat n * p) \<le> float_mul (float64 (of_nat n)) p"
    "float_mul (float64 (of_nat n)) p \<le> 1003 / 1000 * (of_nat n * p)"
proof -
  let ?x = "float64 (of_nat n)"
  have x: "999 / 1000 * of_nat n \<le> ?x" "?x \<le> 1001 / 1000 * of_nat n" using float64_close [of "of_nat n"] by simp_all
  have xp: "999 / 1000 * of_nat n * p \<le> ?x * p" by (rule mult_right_mono [OF x(1) assms])
  have xq: "?x * p \<le> 1001 / 1000 * of_nat n * p" by (rule mult_right_mono [OF x(2) assms])
  have "0 \<le> of_nat n * p" using assms by simp
  moreover have "0 \<le> ?x * p" using float64_nonneg [of "of_nat n"] assms by simp
  ultimately show "998 / 1000 * (of_nat n * p) \<le> float_mul ?x p" "float_mul ?x p \<le> 1003 / 1000 * (of_nat n * p)"
    using float64_close [of "?x * p"] xp xq unfolding float_mul_def by linarith+
qed

lemma pct_index_max: "pct_index n p = max 0 (trunc (float_mul (float64 (of_nat n)) p) - 1)"
  by (simp add: pct_index_def Let_def max_def)

lemma pct_index_range:
  assumes "0 < n"
  shows "0 \<le> pct_index n p50" "pct_index n p50 \<le> pct_index n p99" "pct_index n p99 < int n"
proof -
  let ?v = "\<lambda>p. float_mul (float64 (of_nat n)) p"
  have n: "(0 :: rat) < of_nat n" using assms by simp
  have a: "?v p50 \<le> 7 / 10 * of_nat n"
    using float_mul_close(2) [of p50 n] mult_left_mono [OF p_bounds(2), of "of_nat n"] p_bounds(1) n by linarith
  have b: "9 / 10 * of_nat n \<le> ?v p99"
    using float_mul_close(1) [of p99 n] mult_left_mono [OF p_bounds(3), of "of_nat n"] p_bounds(3) n by linarith
  have c: "?v p99 < of_nat n"
    using float_mul_close(2) [of p99 n] mult_left_mono [OF p_bounds(4), of "of_nat n"] p_bounds(3) n by linarith
  have nn: "0 \<le> ?v p50" "0 \<le> ?v p99"
    using float_mul_close(1) [of p50 n] mult_left_mono [OF p_bounds(1), of "of_nat n"] p_bounds(1) n b by linarith+
  have t: "trunc (?v p50) = \<lfloor>?v p50\<rfloor>" "trunc (?v p99) = \<lfloor>?v p99\<rfloor>" using nn by (simp_all add: trunc_def)
  have m: "\<lfloor>?v p50\<rfloor> \<le> \<lfloor>?v p99\<rfloor>" using a b n by (intro floor_mono) linarith
  have l: "\<lfloor>?v p99\<rfloor> < int n" using c by (simp add: floor_less_iff)
  show "0 \<le> pct_index n p50" unfolding pct_index_max by linarith
  show "pct_index n p50 \<le> pct_index n p99" unfolding pct_index_max t using m by linarith
  show "pct_index n p99 < int n" unfolding pct_index_max t using l assms by linarith
qed

lemma duration_round_mono:
  assumes "0 \<le> d" and "d \<le> e"
  shows "duration_round d microsecond \<le> duration_round e microsecond"
proof -
  have r: "duration_round x microsecond = (x + 500) div 1000 * 1000" if "0 \<le> x" for x
  proof -
    define q r where "q = x div 1000" and "r = x mod 1000"
    have x: "x = 1000 * q + r" "0 \<le> r" "r < 1000" and rr: "x mod 1000 = r" by (simp_all add: q_def r_def)
    show ?thesis
    proof (cases "r + r < 1000")
      case True
      have "(x + 500) div 1000 = q" by (rule int_div_pos_eq [of _ _ _ "r + 500"]) (use x True in linarith)+
      then show ?thesis unfolding duration_round_def microsecond_def Let_def rr using that True x(1) by simp
    next
      case False
      have "x + 500 = 1000 * (q + 1) + (r - 500)" using x(1) by simp
      then have "(x + 500) div 1000 = q + 1" by (rule int_div_pos_eq) (use x False in linarith)+
      then show ?thesis unfolding duration_round_def microsecond_def Let_def rr using that False x(1) by simp
    qed
  qed
  have "(d + 500) div 1000 \<le> (e + 500) div 1000" using assms(2) by (intro zdiv_mono1) simp_all
  then show ?thesis using assms by (simp add: r)
qed

text \<open>The three numbers of a sorted list of latencies.\<close>

lemma percentiles_ordered:
  assumes ne: "lat \<noteq> []"
  defines "s \<equiv> sort lat"
  shows "pct s p50 \<in> set lat" "pct s p99 \<in> set lat" "s ! (length s - 1) = Max (set lat)"
    "pct s p50 \<le> pct s p99" "pct s p99 \<le> s ! (length s - 1)"
proof -
  have len: "length s = length lat" "0 < length lat" and so: "sorted s" and st: "set s = set lat"
    using ne by (simp_all add: s_def)
  note r = pct_index_range [OF len(2)]
  let ?i = "nat (pct_index (length s) p50)" and ?j = "nat (pct_index (length s) p99)"
  have ij: "?i \<le> ?j" "?j < length s" using r len by auto
  show "pct s p50 \<in> set lat" "pct s p99 \<in> set lat"
    using ij nth_mem [of _ s] unfolding st pct_def by auto
  show "pct s p50 \<le> pct s p99" using sorted_nth_mono [OF so ij] by (simp add: pct_def)
  show "pct s p99 \<le> s ! (length s - 1)" using sorted_nth_mono [OF so, of ?j "length s - 1"] ij by (simp add: pct_def)
  show "s ! (length s - 1) = Max (set lat)"
  proof (rule Max_eqI [symmetric])
    show "s ! (length s - 1) \<in> set lat" using ij nth_mem [of "length s - 1" s] unfolding st by simp
    fix y assume "y \<in> set lat"
    then obtain k where "k < length s" "y = s ! k" by (metis in_set_conv_nth st)
    then show "y \<le> s ! (length s - 1)" using sorted_nth_mono [OF so, of k "length s - 1"] by simp
  qed simp
qed

lemma report_ordered:
  assumes run: "report fl elapsed lat errs = Report nm rate a b m k e" and pos: "\<forall>x \<in> set lat. 0 \<le> x"
  shows "a \<le> b \<and> b \<le> m \<and> m = duration_round (Max (set lat)) microsecond \<and> k = length lat \<and> e = errs \<and>
    (\<exists>x \<in> set lat. a = duration_round x microsecond) \<and> (\<exists>x \<in> set lat. b = duration_round x microsecond)"
proof -
  have ne: "lat \<noteq> []" using run by (auto simp: report_def Let_def split: if_splits)
  note p = percentiles_ordered [OF ne]
  have r: "a = duration_round (pct (sort lat) p50) microsecond" "b = duration_round (pct (sort lat) p99) microsecond"
      "m = duration_round (sort lat ! (length (sort lat) - 1)) microsecond" "k = length lat" "e = errs"
    using run ne by (auto simp: report_def Let_def)
  have "a \<le> b" unfolding r using p(1,4) pos by (intro duration_round_mono) simp_all
  moreover have "b \<le> m" unfolding r using p(2,5) pos by (intro duration_round_mono) simp_all
  ultimately show ?thesis using r p(1-3) by auto
qed

lemma report_any_order: "mset lat = mset lat' \<Longrightarrow> report fl elapsed lat errs = report fl elapsed lat' errs"
proof -
  assume m: "mset lat = mset lat'"
  then have "sort lat = sort lat'" by (metis sorted_list_of_multiset_mset)
  moreover have "lat = [] \<longleftrightarrow> lat' = []" using m by (metis mset_zero_iff)
  ultimately show ?thesis by (simp add: report_def Let_def)
qed

subsection \<open>Outages\<close>

text \<open>The reference: the largest step between successive successes, the first step from the start.\<close>

fun largest_step :: "int \<Rightarrow> int list \<Rightarrow> int" where
  "largest_step t [] = 0"
| "largest_step t (x # xs) = max (x - t) (largest_step x xs)"

lemma gap_fold:
  "0 \<le> maxGap g \<Longrightarrow>
   maxGap (foldl gap_step g h) = max (maxGap g) (largest_step (lastOK g) (map s_at (filter s_ok h)))"
proof (induction h arbitrary: g)
  case (Cons s h)
  have "0 \<le> maxGap (gap_step g s)" using Cons.prems by (simp add: gap_step_def Let_def)
  from Cons.IH [OF this] show ?case
    by (cases "s_ok s") (simp_all add: gap_step_def Let_def max_def)
qed simp

lemma gap_counts:
  "okCount (foldl gap_step g h) = okCount g + length (filter s_ok h) \<and>
   failCount (foldl gap_step g h) = failCount g + length (filter (\<lambda>s. \<not> s_ok s) h)"
  by (induction h arbitrary: g) (simp_all add: gap_step_def Let_def)

lemma gaps_spec:
  "maxGap (gaps_of start h) = largest_step start (map s_at (filter s_ok h)) \<and>
   okCount (gaps_of start h) = length (filter s_ok h) \<and> failCount (gaps_of start h) = length (filter (\<lambda>s. \<not> s_ok s) h)"
proof -
  have "0 \<le> largest_step t xs" for t xs by (induction t xs rule: largest_step.induct) simp_all
  then show ?thesis
    using gap_fold [of "\<lparr>okCount = 0, failCount = 0, lastOK = start, maxGap = 0, gapStart = None\<rparr>" h] gap_counts
    by (simp add: gaps_of_def max_def)
qed

lemma gap_start_fails: "\<forall>s \<in> set h. \<not> s_ok s \<Longrightarrow> gapStart (foldl gap_step g h) = gapStart g \<and> maxGap (foldl gap_step g h) = maxGap g"
  by (induction h arbitrary: g) (simp_all add: gap_step_def)

text \<open>What fails after the last success is not seen: it moves neither the outage nor its start.\<close>

lemma outage_unended:
  assumes "\<forall>s \<in> set fs. \<not> s_ok s"
  shows "maxGap (gaps_of start (h @ fs)) = maxGap (gaps_of start h) \<and> gapStart (gaps_of start (h @ fs)) = gapStart (gaps_of start h)"
  using gap_start_fails [OF assms] by (simp add: gaps_of_def)

subsection \<open>The timeline\<close>

lemma bucket_range:
  assumes "start \<le> s_at s" and "0 < whole"
  shows "0 \<le> bucket_of start whole s" "bucket_of start whole s < 50"
proof -
  let ?a = "float64 (of_int (s_at s - start))" and ?b = "float64 (of_int whole)"
  have "0 \<le> ?a" "0 \<le> ?b" using assms by (auto intro!: float64_nonneg)
  then have "0 \<le> float_div ?a ?b" unfolding float_div_def by (rule float64_nonneg [OF divide_nonneg_nonneg])
  then have "0 \<le> float_div ?a ?b * 50" by simp
  then have "0 \<le> float_mul (float_div ?a ?b) 50" unfolding float_mul_def by (rule float64_nonneg)
  then show "0 \<le> bucket_of start whole s" by (simp add: bucket_of_def trunc_def Let_def)
  show "bucket_of start whole s < 50" by (simp add: bucket_of_def Let_def)
qed

text \<open>A mark's value after the samples \<open>ss\<close>, for what it was before.\<close>

definition mark :: "int \<Rightarrow> int \<Rightarrow> sample list \<Rightarrow> nat \<Rightarrow> int \<Rightarrow> int" where
  "mark start whole ss i v =
     (if v = - 1 \<or> (\<exists>s \<in> set ss. bucket_of start whole s = int i \<and> \<not> s_ok s) then - 1
      else if v = 1 \<or> (\<exists>s \<in> set ss. bucket_of start whole s = int i) then 1 else 0)"

lemma fill_buckets_spec:
  assumes "0 < whole" and "\<forall>s \<in> set ss. start \<le> s_at s" and "length b = 50" and "\<forall>i < 50. b ! i \<in> {-1, 0, 1}"
  shows "\<exists>b'. fill_buckets start whole ss b = Some b' \<and> length b' = 50 \<and> (\<forall>i < 50. b' ! i = mark start whole ss i (b ! i))"
  using assms(2-4)
proof (induction ss arbitrary: b)
  case Nil
  then show ?case by (auto simp: mark_def)
next
  case (Cons s ss)
  let ?j = "nat (bucket_of start whole s)"
  let ?b = "if \<not> s_ok s then b[?j := - 1] else if b ! ?j = 0 then b[?j := 1] else b"
  have j: "0 \<le> bucket_of start whole s" "bucket_of start whole s < 50"
    using bucket_range [OF _ assms(1), of start s] Cons.prems(1) by simp_all
  have jj: "?j < 50" using j by simp
  have l: "length ?b = 50" using Cons.prems(2) by simp
  have v: "\<forall>i < 50. ?b ! i \<in> {-1, 0, 1}"
  proof (intro allI impI)
    fix i :: nat assume "i < 50"
    with Cons.prems(3) have bi: "b ! i \<in> {-1, 0, 1}" by blast
    show "?b ! i \<in> {-1, 0, 1}"
    proof (cases "i = ?j")
      case True
      then have "?b ! i = (if \<not> s_ok s then - 1 else if b ! i = 0 then 1 else b ! i)" using jj Cons.prems(2) by simp
      then show ?thesis using bi by simp blast
    next
      case False
      then have "?b ! i = b ! i" by simp
      with bi show ?thesis by simp
    qed
  qed
  obtain b' where b': "fill_buckets start whole ss ?b = Some b'" "length b' = 50"
      "\<forall>i < 50. b' ! i = mark start whole ss i (?b ! i)"
    using Cons.IH [OF _ l v] Cons.prems(1) by auto
  have "mark start whole ss i (?b ! i) = mark start whole (s # ss) i (b ! i)" if i: "i < 50" for i
  proof (cases "i = ?j")
    case True
    then have e: "bucket_of start whole s = int i" using j by simp
    have bi: "b ! i = - 1 \<or> b ! i = 0 \<or> b ! i = 1" using Cons.prems(3) i by blast
    have "?b ! i = (if \<not> s_ok s then - 1 else if b ! i = 0 then 1 else b ! i)" using True Cons.prems(2) jj by simp
    then show ?thesis using bi e by (cases "s_ok s") (elim disjE; simp add: mark_def)+
  next
    case False
    then have "bucket_of start whole s \<noteq> int i" using j by auto
    then show ?thesis using False by (auto simp: mark_def)
  qed
  with b' j assms(1) show ?case by (simp add: Let_def)
qed

lemma timeline_spec:
  assumes "0 < whole" and "\<forall>s \<in> set h. start \<le> s_at s"
  shows "\<exists>t. timeline h start whole = Some t \<and> length t = 50 \<and> (\<forall>i < 50. t ! i =
    (if \<exists>s \<in> set h. bucket_of start whole s = int i \<and> \<not> s_ok s then CHR ''_''
     else if \<exists>s \<in> set h. bucket_of start whole s = int i then CHR ''#'' else CHR ''.''))"
proof -
  obtain b where b: "fill_buckets start whole h (replicate 50 0) = Some b" "length b = 50"
      "\<forall>i < 50. b ! i = mark start whole h i (replicate 50 0 ! i)"
    using fill_buckets_spec [OF assms, of "replicate 50 0"] by auto
  have "map bucket_char b ! i =
    (if \<exists>s \<in> set h. bucket_of start whole s = int i \<and> \<not> s_ok s then CHR ''_''
     else if \<exists>s \<in> set h. bucket_of start whole s = int i then CHR ''#'' else CHR ''.'')" if i: "i < 50" for i
    using b(2) b(3) [rule_format, OF i] i by (simp add: mark_def bucket_char_def)
  with b(1,2) show ?thesis by (simp add: timeline_def)
qed

subsection \<open>The loops end\<close>

text \<open>\<open>time\<close> is the clock behind the readings: it moves on between them, and never back.\<close>

definition clocked :: "'w lg_world \<Rightarrow> ('w \<Rightarrow> int) \<Rightarrow> bool" where
  "clocked c time \<longleftrightarrow> (\<forall>u. fst (lg_now c u) = time u \<and> time u < time (snd (lg_now c u))) \<and>
     (\<forall>m url body u. time u \<le> time (snd (lg_perform c m url body u)))"

lemma clocked_now: "clocked c time \<Longrightarrow> lg_now c u = (t, v) \<Longrightarrow> t = time u \<and> time u < time v"
  by (metis clocked_def fst_conv snd_conv)

lemma clocked_request:
  assumes "clocked c time" and "do_request c m url body u = (e, v)"
  shows "time u \<le> time v"
proof -
  have "time u \<le> time (snd (lg_perform c m url body u))" using assms(1) by (simp add: clocked_def)
  with assms(2) show ?thesis by (auto simp: do_request_def split: if_splits prod.splits option.splits)
qed

lemma load_worker_ends:
  assumes c: "clocked c time"
  shows "nat (deadline - time u) < k \<Longrightarrow> \<exists>lat e. load_worker k fl c deadline i local errs u = Some (lat, e) \<and>
    (\<exists>new. lat = local @ new) \<and> errs \<le> e"
proof (induction k arbitrary: local errs u)
  case (Suc k)
  obtain t v where v: "lg_now c u = (t, v)" by fastforce
  obtain t0 v0 where v0: "lg_now c v = (t0, v0)" by fastforce
  obtain e v1 where v1: "oneRequest fl c i v0 = (e, v1)" by fastforce
  obtain t1 v2 where v2: "lg_now c v1 = (t1, v2)" by fastforce
  have "time v0 \<le> time v1"
    using v1 clocked_request [OF c] unfolding oneRequest_def by (auto split: if_splits)
  then have lt: "time u < time v2" and t: "t = time u"
    using clocked_now [OF c v] clocked_now [OF c v0] clocked_now [OF c v2] by linarith+
  show ?case
  proof (cases "t < deadline")
    case False
    then show ?thesis by (simp add: v)
  next
    case True
    then have k: "nat (deadline - time v2) < k" using lt t Suc.prems by linarith
    show ?thesis
    proof (cases e)
      case None
      then have "load_worker (Suc k) fl c deadline i local errs u = load_worker k fl c deadline i (local @ [t1 - t0]) errs v2"
        using True by (simp add: v v0 v1 v2)
      with Suc.IH [OF k, of "local @ [t1 - t0]" errs] show ?thesis by fastforce
    next
      case (Some x)
      then have "load_worker (Suc k) fl c deadline i local errs u = load_worker k fl c deadline i local (errs + 1) v2"
        using True by (simp add: v v0 v1 v2)
      with Suc.IH [OF k, of local "errs + 1"] show ?thesis by fastforce
    qed
  qed
qed simp

end
