(* ===== verification/Kv_Store.thy ===== *)
theory Kv_Store
  imports Kv_Prelude "HOL-Library.Finite_Map"
begin

text \<open>
  \<^verbatim>\<open>src/internal/store/store.go\<close>: the map of one node. A Go \<^verbatim>\<open>map[string]string\<close> is a
  finite map; Go strings are byte sequences, modelled as \<^typ>\<open>string\<close> (a \<^typ>\<open>char\<close>
  is one byte). The lock makes every operation atomic, so an operation is a function of
  the state.
\<close>

record Store =
  data :: "(string, string) fmap"

definition store_New :: Store where
  "store_New = \<lparr>data = fmempty\<rparr>"

text \<open>The pair (value, ok) of Go is an option: \<^const>\<open>None\<close> for ok = false.\<close>

definition store_Get :: "Store \<Rightarrow> string \<Rightarrow> string option" where
  "store_Get s key = fmlookup (data s) key"

definition store_Set :: "Store \<Rightarrow> string \<Rightarrow> string \<Rightarrow> Store" where
  "store_Set s key value = s\<lparr>data := fmupd key value (data s)\<rparr>"

definition store_Delete :: "Store \<Rightarrow> string \<Rightarrow> Store" where
  "store_Delete s key = s\<lparr>data := fmdrop key (data s)\<rparr>"

definition store_Len :: "Store \<Rightarrow> nat" where
  "store_Len s = fcard (fmdom (data s))"

subsection \<open>The contract of a key-value map\<close>

text \<open>
  What the engine relies on: lookup after each operation, and the number of keys. The
  laws determine every lookup after any sequence of writes.
\<close>

locale kv_map =
  fixes new :: 's
    and get :: "'s \<Rightarrow> string \<Rightarrow> string option"
    and put :: "'s \<Rightarrow> string \<Rightarrow> string \<Rightarrow> 's"
    and del :: "'s \<Rightarrow> string \<Rightarrow> 's"
    and len :: "'s \<Rightarrow> nat"
  assumes get_new: "get new k = None"
    and get_put: "get (put s k v) k' = (if k' = k then Some v else get s k')"
    and get_del: "get (del s k) k' = (if k' = k then None else get s k')"
    and len_dom: "len s = card (dom (get s))"
    and fin_dom: "finite (dom (get s))"
begin

lemma get_put_fun: "get (put s k v) = (get s)(k \<mapsto> v)"
  by (auto simp: get_put)

lemma get_del_fun: "get (del s k) = (get s)(k := None)"
  by (auto simp: get_del)

lemma len_new: "len new = 0"
proof -
  have "dom (get new) = {}" by (auto simp: get_new)
  then show ?thesis by (simp add: len_dom)
qed

lemma len_put: "len (put s k v) = (if get s k = None then Suc (len s) else len s)"
  by (auto simp: len_dom get_put_fun fin_dom card_insert_if domIff)

lemma len_del: "len (del s k) = (if get s k = None then len s else len s - 1)"
  by (auto simp: len_dom get_del_fun fin_dom card_Diff_singleton domIff)

end

lemma store_Get_Set: "store_Get (store_Set s k v) k' = (if k' = k then Some v else store_Get s k')"
  by (simp add: store_Get_def store_Set_def)

lemma store_Get_Delete:
  "store_Get (store_Delete s k) k' = (if k' = k then None else store_Get s k')"
  by (simp add: store_Get_def store_Delete_def)

lemma dom_store_Get: "dom (store_Get s) = fset (fmdom (data s))"
  by (auto simp: store_Get_def dom_def fmlookup_dom_iff)

interpretation store: kv_map store_New store_Get store_Set store_Delete store_Len
proof unfold_locales
  show "store_Get store_New k = None" for k
    by (simp add: store_Get_def store_New_def)
  show "store_Len s = card (dom (store_Get s))" for s
    by (simp add: dom_store_Get store_Len_def fcard.rep_eq)
  show "finite (dom (store_Get s))" for s
    by (simp add: dom_store_Get)
qed (simp_all add: store_Get_Set store_Get_Delete)

lemma store_eqI: "store_Get s = store_Get t \<Longrightarrow> s = (t :: Store)"
  by (cases s, cases t) (simp add: fun_eq_iff fmap_ext store_Get_def)

lemmas store_simps = store_Get_Set store_Get_Delete store.get_new store.len_new
  store.len_put store.len_del

end
