(* ===== verification/Kv_Engine.thy ===== *)
theory Kv_Engine
  imports Kv_Store Wal_Record
begin

text \<open>
  \<^verbatim>\<open>src/internal/engine/engine.go\<close>: the state machine committed entries are applied to.
  The theorems give the state after any sequence of entries in terms of the last entry
  that touched a key, and say when two logs lead to the same state.
\<close>

record Engine =
  state :: Store

definition Engine_New :: Engine where
  "Engine_New = \<lparr>state = store_New\<rparr>"

definition Engine_Get :: "Engine \<Rightarrow> string \<Rightarrow> string option" where
  "Engine_Get e key = store_Get (state e) key"

definition Engine_Len :: "Engine \<Rightarrow> nat" where
  "Engine_Len e = store_Len (state e)"

definition Engine_Apply :: "Engine \<Rightarrow> Record \<Rightarrow> Engine" where
  "Engine_Apply e r =
     (if Op r = OpSet then e\<lparr>state := store_Set (state e) (Key r) (Value r)\<rparr>
      else if Op r = OpDelete then e\<lparr>state := store_Delete (state e) (Key r)\<rparr>
      else e)"

text \<open>Applying a log from the beginning, as a restarted node does.\<close>

definition replay :: "Record list \<Rightarrow> Engine" where
  "replay rs = foldl Engine_Apply Engine_New rs"

subsection \<open>What a log means\<close>

text \<open>
  A record's effect on one key: nothing, or a new content (\<^const>\<open>None\<close> for a deletion). The
  specification of a log looks for the last record with an effect on the key.
\<close>

definition touches :: "string \<Rightarrow> Record \<Rightarrow> bool" where
  "touches k r \<longleftrightarrow> Key r = k \<and> (Op r = OpSet \<or> Op r = OpDelete)"

definition effect :: "Record \<Rightarrow> string option" where
  "effect r = (if Op r = OpSet then Some (Value r) else None)"

definition last_write :: "Record list \<Rightarrow> string \<Rightarrow> string option" where
  "last_write rs k = (let ws = filter (touches k) rs in if ws = [] then None else effect (last ws))"

lemma ops_distinct [simp]: "OpSet \<noteq> OpDelete" "OpNoop \<noteq> OpSet" "OpNoop \<noteq> OpDelete"
  "OpDelete \<noteq> OpSet" "OpSet \<noteq> OpNoop" "OpDelete \<noteq> OpNoop"
  by (simp_all add: OpSet_def OpDelete_def OpNoop_def)

lemma Engine_Get_Apply:
  "Engine_Get (Engine_Apply e r) k = (if touches k r then effect r else Engine_Get e k)"
  by (auto simp: Engine_Get_def Engine_Apply_def touches_def effect_def store_simps)

lemma last_write_snoc:
  "last_write (rs @ [r]) k = (if touches k r then effect r else last_write rs k)"
  by (simp add: last_write_def Let_def)

lemma replay_Nil [simp]: "replay [] = Engine_New"
  by (simp add: replay_def)

lemma replay_snoc [simp]: "replay (rs @ [r]) = Engine_Apply (replay rs) r"
  by (simp add: replay_def)

lemma replay_get: "Engine_Get (replay rs) k = last_write rs k"
proof (induction rs rule: rev_induct)
  case Nil
  show ?case by (simp add: Engine_Get_def Engine_New_def last_write_def store_simps)
next
  case (snoc r rs)
  then show ?case by (simp add: Engine_Get_Apply last_write_snoc)
qed

lemma engine_eqI: "Engine_Get d = Engine_Get e \<Longrightarrow> d = (e :: Engine)"
  by (cases d, cases e) (auto simp: Engine_Get_def fun_eq_iff intro!: store_eqI)

lemma replay_eq_iff: "replay rs = replay ss \<longleftrightarrow> last_write rs = last_write ss"
  by (metis (no_types, lifting) engine_eqI ext replay_get)

lemma Apply_twice: "Engine_Apply (Engine_Apply e r) r = Engine_Apply e r"
  by (rule engine_eqI) (auto simp: Engine_Get_Apply)

lemma Apply_noop [simp]: "Op r = OpNoop \<Longrightarrow> Engine_Apply e r = e"
  by (simp add: Engine_Apply_def)

lemma Engine_Len_replay: "Engine_Len (replay rs) = card {k. last_write rs k \<noteq> None}"
proof -
  have "dom (store_Get (state (replay rs))) = {k. last_write rs k \<noteq> None}"
    by (auto simp: dom_def replay_get [symmetric] Engine_Get_def)
  then show ?thesis by (simp add: Engine_Len_def store.len_dom)
qed

subsection \<open>The contract of a replicated state machine\<close>

text \<open>
  What the Raft node asks of the function it feeds committed entries to: nothing but being
  a function of the state and the entry (\<open>app\<close> below is one by its type), that a no-op
  changes nothing, and queries that determine the state.
\<close>

locale state_machine =
  fixes app :: "'s \<Rightarrow> Record \<Rightarrow> 's"
    and query :: "'s \<Rightarrow> 'q \<Rightarrow> 'a"
  assumes app_noop: "Op r = OpNoop \<Longrightarrow> app s r = s"
    and query_ext: "(\<And>q. query s q = query t q) \<Longrightarrow> s = t"
begin

lemma fold_without_noops:
  "foldl app s (filter (\<lambda>r. Op r \<noteq> OpNoop) rs) = foldl app s rs"
  by (induction rs arbitrary: s) (auto simp: app_noop)

lemma same_answers:
  assumes "filter (\<lambda>r. Op r \<noteq> OpNoop) rs = filter (\<lambda>r. Op r \<noteq> OpNoop) ss"
  shows "query (foldl app s rs) q = query (foldl app s ss) q"
  using assms fold_without_noops by metis

end

interpretation engine: state_machine Engine_Apply Engine_Get
  by unfold_locales (auto intro: engine_eqI)

end
