(* ===== verification/Raft_Batch.thy ===== *)
theory Raft_Batch
  imports Raft_Read
begin

text \<open>
  The sharing of leadership confirmations between concurrent readers
  (\<^verbatim>\<open>ConfirmLeadership\<close> and \<^verbatim>\<open>runConfirm\<close> in \<^verbatim>\<open>src/internal/raft/read.go\<close>) as a transition
  system: readers join batches, a goroutine runs one round per batch. The theorems: there is
  never more than one such goroutine, no reader waits for a batch nobody will run, and the
  commit index a reader is given was read after the reader had asked.
\<close>

text \<open>
  The goroutine of \<^verbatim>\<open>runConfirm\<close>: about to start the round of a batch, exchanging heartbeats
  with the commit index it captured, about to close the batch with a result, or past that
  and about to look for another batch.
\<close>

datatype stage = Begins nat | Probing nat u64 | Closes nat "node_error + u64" | Looks

fun batch_of :: "stage \<Rightarrow> nat option" where
  "batch_of (Begins b) = Some b"
| "batch_of (Probing b i) = Some b"
| "batch_of (Closes b r) = Some b"
| "batch_of Looks = None"

text \<open>
  \<open>rounds\<close> are the goroutines, \<open>closed\<close> the batches whose \<^verbatim>\<open>done\<close> channel is closed, with their
  results, \<open>waiting\<close> the readers: who, which batch, and when it asked. \<open>clock\<close> counts the
  steps; \<open>captured\<close> says when the round of a batch read the commit index, and what it was.
\<close>

record 's confirming =
  node :: "'s Node"
  rounds :: "stage list"
  closed :: "nat \<rightharpoonup> node_error + u64"
  waiting :: "(nat \<times> nat \<times> nat) set"
  clock :: nat
  captured :: "nat \<rightharpoonup> nat \<times> u64"

definition tick :: "'s confirming \<Rightarrow> 's confirming" where
  "tick c = c\<lparr>clock := clock c + 1\<rparr>"

text \<open>The first section of a round: the commit index, unless this is no leader any more.\<close>

definition capture :: "'s Node \<Rightarrow> node_error + u64" where
  "capture n = (if role n \<noteq> Leader then Inl ErrNotLeader else Inr (commitIndex n))"

text \<open>What the rest of the round can return for the index it captured.\<close>

definition round_result :: "u64 \<Rightarrow> node_error + u64 \<Rightarrow> bool" where
  "round_result i r \<longleftrightarrow> r = Inl ErrLeadershipLost \<or> r = Inl ErrNotLeader \<or> r = Inr i"

inductive bstep :: "'s confirming \<Rightarrow> 's confirming \<Rightarrow> bool" where
  Join: "IsLeader (node c) \<Longrightarrow> join_batch (node c) = (b, start, n) \<Longrightarrow>
    bstep c (tick (c\<lparr>node := n, waiting := insert (reader, b, clock c) (waiting c),
      rounds := (if start then Begins b # rounds c else rounds c)\<rparr>))"
| Capture: "rounds c = ls @ Begins b # rs \<Longrightarrow> capture (node c) = Inr i \<Longrightarrow>
    bstep c (tick (c\<lparr>rounds := ls @ Probing b i # rs, captured := (captured c)(b \<mapsto> (clock c, i))\<rparr>))"
| Capture_fails: "rounds c = ls @ Begins b # rs \<Longrightarrow> capture (node c) = Inl e \<Longrightarrow>
    bstep c (tick (c\<lparr>rounds := ls @ Closes b (Inl e) # rs\<rparr>))"
| Round: "rounds c = ls @ Probing b i # rs \<Longrightarrow> round_result i r \<Longrightarrow>
    bstep c (tick (c\<lparr>rounds := ls @ Closes b r # rs\<rparr>))"
| Close: "rounds c = ls @ Closes b r # rs \<Longrightarrow>
    bstep c (tick (c\<lparr>rounds := ls @ Looks # rs, closed := (closed c)(b \<mapsto> r)\<rparr>))"
| Next_batch: "rounds c = ls @ Looks # rs \<Longrightarrow> next_batch (node c) = (Some b, n) \<Longrightarrow>
    bstep c (tick (c\<lparr>node := n, rounds := ls @ Begins b # rs\<rparr>))"
| Stops: "rounds c = ls @ Looks # rs \<Longrightarrow> next_batch (node c) = (None, n) \<Longrightarrow>
    bstep c (tick (c\<lparr>node := n, rounds := ls @ rs\<rparr>))"
| Leaves: "bstep c (tick (c\<lparr>waiting := waiting c - {x}\<rparr>))"
| Elsewhere: "confirmNext n = confirmNext (node c) \<Longrightarrow> confirmRunning n = confirmRunning (node c) \<Longrightarrow>
    confirmSeq n = confirmSeq (node c) \<Longrightarrow> bstep c (tick (c\<lparr>node := n\<rparr>))"

inductive_cases bstep_cases: "bstep c d"

definition at_rest :: "'s confirming \<Rightarrow> bool" where
  "at_rest c \<longleftrightarrow> confirmNext (node c) = None \<and> \<not> confirmRunning (node c) \<and> rounds c = [] \<and>
     closed c = Map.empty \<and> waiting c = {} \<and> captured c = Map.empty"

inductive bruns :: "'s confirming \<Rightarrow> 's confirming \<Rightarrow> bool" for c where
  bstart: "bruns c c"
| bmore: "bruns c d \<Longrightarrow> bstep d e \<Longrightarrow> bruns c e"

subsection \<open>The invariant\<close>

definition unstarted :: "'s confirming \<Rightarrow> nat \<Rightarrow> bool" where
  "unstarted c b \<longleftrightarrow> confirmNext (node c) = Some b \<or> Begins b \<in> set (rounds c) \<or> confirmSeq (node c) \<le> b"

definition served :: "'s confirming \<Rightarrow> nat \<Rightarrow> bool" where
  "served c b \<longleftrightarrow> closed c b \<noteq> None \<or> (\<exists>s \<in> set (rounds c). batch_of s = Some b) \<or>
     confirmNext (node c) = Some b \<and> rounds c \<noteq> []"

definition batch_inv :: "'s confirming \<Rightarrow> bool" where
  "batch_inv c \<longleftrightarrow>
     length (rounds c) \<le> 1 \<and> confirmRunning (node c) = (rounds c \<noteq> []) \<and>
     (confirmNext (node c) \<noteq> None \<longrightarrow> rounds c \<noteq> []) \<and>
     (\<forall>b. confirmNext (node c) = Some b \<longrightarrow> b < confirmSeq (node c) \<and> Some b \<notin> batch_of ` set (rounds c)) \<and>
     (\<forall>s \<in> set (rounds c). \<forall>b. batch_of s = Some b \<longrightarrow> b < confirmSeq (node c)) \<and>
     (\<forall>b. unstarted c b \<longrightarrow> captured c b = None) \<and>
     (\<forall>(r, b, t) \<in> waiting c. t < clock c \<and> b < confirmSeq (node c) \<and> served c b \<and>
        (\<forall>t' i. captured c b = Some (t', i) \<longrightarrow> t \<le> t')) \<and>
     (\<forall>b i. Probing b i \<in> set (rounds c) \<or> Closes b (Inr i) \<in> set (rounds c) \<or> closed c b = Some (Inr i) \<longrightarrow>
        (\<exists>t. captured c b = Some (t, i)))"

lemma tick_sel [simp]:
  "node (tick c) = node c" "rounds (tick c) = rounds c" "closed (tick c) = closed c"
  "waiting (tick c) = waiting c" "clock (tick c) = clock c + 1" "captured (tick c) = captured c"
  by (simp_all add: tick_def)

lemma batch_inv_rest: "at_rest c \<Longrightarrow> batch_inv c"
  by (simp add: at_rest_def batch_inv_def)

lemma inv_single:
  assumes "batch_inv c" and "rounds c = ls @ s # rs"
  shows "rounds c = [s]" "ls = []" "rs = []"
  using assms by (auto simp: batch_inv_def)

lemma batch_inv_bstep:
  assumes "bstep c d" and inv: "batch_inv c"
  shows "batch_inv d"
  using assms(1)
proof (cases rule: bstep.cases)
  case (Join b start n reader)
  show ?thesis
  proof (cases "rounds c")
    case Nil
    with inv Join show ?thesis
      by (auto simp: batch_inv_def join_batch_def served_def unstarted_def Let_def)
  next
    case (Cons s ss)
    with inv have r: "rounds c = [s]" and run: "confirmRunning (node c)" by (auto simp: batch_inv_def)
    show ?thesis
    proof (cases "confirmNext (node c)")
      case None
      have new: "batch_of s \<noteq> Some (confirmSeq (node c))" "captured c (confirmSeq (node c)) = None"
        using inv r by (auto simp: batch_inv_def unstarted_def)
      show ?thesis
        using inv Join None r run new
        by (auto simp: batch_inv_def join_batch_def served_def unstarted_def Let_def)
    next
      case (Some b')
      have new: "captured c b' = None" "b' < confirmSeq (node c)"
        using inv Some by (auto simp: batch_inv_def unstarted_def)
      show ?thesis
        using inv Join Some r run new
        by (auto simp: batch_inv_def join_batch_def served_def unstarted_def Let_def)
    qed
  qed
next
  case (Capture ls b rs i)
  note r = inv_single [OF inv Capture(2)]
  have none: "captured c b = None" using inv r(1) by (auto simp: batch_inv_def unstarted_def)
  then have "closed c b \<noteq> Some (Inr ia)" for ia using inv by (fastforce simp: batch_inv_def)
  with none show ?thesis
    using inv Capture(1) r(1) unfolding r(2,3)
    by (auto simp: batch_inv_def served_def unstarted_def split: if_splits)
next
  case (Capture_fails ls b rs e)
  note r = inv_single [OF inv Capture_fails(2)]
  show ?thesis
    using inv Capture_fails(1) r(1) unfolding r(2,3)
    by (auto simp: batch_inv_def served_def unstarted_def)
next
  case (Round ls b i rs r)
  note r = inv_single [OF inv Round(2)]
  show ?thesis
    using inv Round(1,3) r(1) unfolding r(2,3)
    by (auto simp: batch_inv_def served_def unstarted_def round_result_def)
next
  case (Close ls b r rs)
  note r = inv_single [OF inv Close(2)]
  show ?thesis
    using inv Close(1) r(1) unfolding r(2,3)
    by (auto simp: batch_inv_def served_def unstarted_def)
next
  case (Next_batch ls rs b n)
  note r = inv_single [OF inv Next_batch(2)]
  show ?thesis
    using inv Next_batch(1,3) r(1) unfolding r(2,3)
    by (auto simp: batch_inv_def served_def unstarted_def next_batch_def split: option.splits)
next
  case (Stops ls rs n)
  note r = inv_single [OF inv Stops(2)]
  show ?thesis
    using inv Stops(1,3) r(1) unfolding r(2,3)
    by (auto simp: batch_inv_def served_def unstarted_def next_batch_def split: option.splits)
next
  case (Leaves x)
  then show ?thesis using inv by (auto simp: batch_inv_def served_def unstarted_def)
next
  case (Elsewhere n)
  then show ?thesis using inv by (auto simp: batch_inv_def served_def unstarted_def)
qed

lemma batch_inv_bruns: "bruns c d \<Longrightarrow> at_rest c \<Longrightarrow> batch_inv d"
  by (induction rule: bruns.induct) (auto intro: batch_inv_rest batch_inv_bstep)

text \<open>What the invariant says of the readers.\<close>

lemma one_round: "batch_inv c \<Longrightarrow> length (rounds c) \<le> 1 \<and> confirmRunning (node c) = (rounds c \<noteq> [])"
  by (simp add: batch_inv_def)

lemma nobody_stranded:
  "batch_inv c \<Longrightarrow> (reader, b, t) \<in> waiting c \<Longrightarrow> served c b"
  by (auto simp: batch_inv_def)

lemma fresh_index:
  assumes inv: "batch_inv c" and r: "(reader, b, t) \<in> waiting c" and i: "closed c b = Some (Inr i)"
  shows "\<exists>t'. captured c b = Some (t', i) \<and> t \<le> t'"
proof -
  obtain t' where "captured c b = Some (t', i)" using inv i unfolding batch_inv_def by blast
  moreover have "\<forall>t' i. captured c b = Some (t', i) \<longrightarrow> t \<le> t'" using inv r unfolding batch_inv_def by blast
  ultimately show ?thesis by blast
qed

subsection \<open>Every batch is closed\<close>

text \<open>
  How many steps of the goroutine are left until a batch is closed. Seven at most: the batch
  waits for one round before its own.
\<close>

fun stages_left :: "nat \<Rightarrow> stage \<Rightarrow> nat" where
  "stages_left b (Begins b') = (if b' = b then 3 else 7)"
| "stages_left b (Probing b' i) = (if b' = b then 2 else 6)"
| "stages_left b (Closes b' r) = (if b' = b then 1 else 5)"
| "stages_left b Looks = 4"

definition left_until :: "'s confirming \<Rightarrow> nat \<Rightarrow> nat" where
  "left_until c b = (if closed c b \<noteq> None then 0 else case rounds c of s # _ \<Rightarrow> stages_left b s | [] \<Rightarrow> 8)"

lemma stages_left_bounds: "1 \<le> stages_left b s \<and> stages_left b s \<le> 7"
  by (cases s) simp_all

lemma closed_stays: "bstep c d \<Longrightarrow> closed c b \<noteq> None \<Longrightarrow> closed d b \<noteq> None"
  by (erule bstep.cases) auto

lemma served_step:
  assumes step: "bstep c d" and inv: "batch_inv c" and s: "served c b" and op: "closed d b = None"
  shows "served d b \<and> left_until d b \<le> left_until c b \<and>
    (rounds d \<noteq> rounds c \<longrightarrow> left_until d b < left_until c b)"
proof -
  have opc: "closed c b = None" using closed_stays [OF step] op by blast
  then obtain x where r: "rounds c = [x]"
    and x: "batch_of x = Some b \<or> confirmNext (node c) = Some b"
    using s inv by (cases "rounds c") (auto simp: served_def batch_inv_def)
  have run: "confirmRunning (node c)" using inv r by (simp add: batch_inv_def)
  show ?thesis
    using step
  proof (cases rule: bstep.cases)
    case (Join b' start n reader)
    then show ?thesis
      using r run x opc op
      by (auto simp: served_def left_until_def join_batch_def Let_def split: option.splits if_splits)
  next
    case (Next_batch ls rs b' n)
    then show ?thesis
      using inv_single [OF inv Next_batch(2)] r x opc op
      by (auto simp: served_def left_until_def next_batch_def split: option.splits)
  next
    case (Stops ls rs n)
    then show ?thesis
      using inv_single [OF inv Stops(2)] r x by (auto simp: next_batch_def split: option.splits)
  next
    case (Capture ls b' rs i)
    then show ?thesis
      using inv_single [OF inv Capture(2)] r x opc op by (auto simp: served_def left_until_def)
  next
    case (Capture_fails ls b' rs e)
    then show ?thesis
      using inv_single [OF inv Capture_fails(2)] r x opc op by (auto simp: served_def left_until_def)
  next
    case (Round ls b' i rs res)
    then show ?thesis
      using inv_single [OF inv Round(2)] r x opc op by (auto simp: served_def left_until_def)
  next
    case (Close ls b' res rs)
    then show ?thesis
      using inv_single [OF inv Close(2)] r x opc op
      by (auto simp: served_def left_until_def split: if_splits)
  next
    case (Leaves y)
    then show ?thesis using r x opc by (simp add: served_def left_until_def)
  next
    case (Elsewhere n)
    then show ?thesis using r x opc by (simp add: served_def left_until_def)
  qed
qed

text \<open>A run in which the goroutine takes \<open>k\<close> steps, with any other steps in between.\<close>

inductive round_runs :: "'s confirming \<Rightarrow> nat \<Rightarrow> 's confirming \<Rightarrow> bool" for c where
  rnone: "round_runs c 0 c"
| rother: "round_runs c k d \<Longrightarrow> bstep d e \<Longrightarrow> rounds e = rounds d \<Longrightarrow> round_runs c k e"
| rstep: "round_runs c k d \<Longrightarrow> bstep d e \<Longrightarrow> rounds e \<noteq> rounds d \<Longrightarrow> round_runs c (Suc k) e"

lemma round_runs_left:
  assumes "round_runs c k d" and inv: "batch_inv c" and s: "served c b"
  shows "batch_inv d \<and> (closed d b = None \<longrightarrow> served d b \<and> left_until d b + k \<le> left_until c b)"
  using assms(1)
proof (induction rule: round_runs.induct)
  case rnone
  then show ?case using inv s by simp
next
  case (rother k d e)
  then show ?case using batch_inv_bstep served_step [of d e b] closed_stays [of d e b] by fastforce
next
  case (rstep k d e)
  then show ?case using batch_inv_bstep served_step [of d e b] closed_stays [of d e b] by fastforce
qed

lemma every_batch_closes:
  assumes "round_runs c 7 d" and inv: "batch_inv c" and s: "served c b"
  shows "closed d b \<noteq> None"
proof
  assume op: "closed d b = None"
  with round_runs_left [OF assms] have d: "batch_inv d" "served d b" and le: "left_until d b + 7 \<le> left_until c b"
    by auto
  have pos: "1 \<le> left_until d b"
    using d op stages_left_bounds by (auto simp: left_until_def split: list.split)
  have "left_until c b \<le> 7"
  proof (cases "closed c b = None")
    case True
    then have "rounds c \<noteq> []" using s inv by (auto simp: served_def batch_inv_def)
    then show ?thesis using stages_left_bounds by (auto simp: left_until_def split: list.split)
  qed (simp add: left_until_def)
  with le pos show False by simp
qed

text \<open>And while there is a goroutine, it has a step to take.\<close>

lemma goroutine_enabled:
  assumes "rounds c = s # ss"
  shows "\<exists>d. bstep c d \<and> rounds d \<noteq> rounds c \<and> role (node d) = role (node c)"
proof (cases s)
  case (Begins b)
  show ?thesis
  proof (cases "capture (node c)")
    case (Inl e)
    let ?d = "tick (c\<lparr>rounds := [] @ Closes b (Inl e) # ss\<rparr>)"
    have "bstep c ?d"
      using assms Begins Inl by (intro bstep.Capture_fails) simp_all
    moreover have "rounds ?d \<noteq> rounds c \<and> role (node ?d) = role (node c)" using assms Begins by simp
    ultimately show ?thesis by blast
  next
    case (Inr i)
    let ?d = "tick (c\<lparr>rounds := [] @ Probing b i # ss, captured := (captured c)(b \<mapsto> (clock c, i))\<rparr>)"
    have "bstep c ?d"
      using assms Begins Inr by (intro bstep.Capture) simp_all
    moreover have "rounds ?d \<noteq> rounds c \<and> role (node ?d) = role (node c)" using assms Begins by simp
    ultimately show ?thesis by blast
  qed
next
  case (Probing b i)
  let ?d = "tick (c\<lparr>rounds := [] @ Closes b (Inr i) # ss\<rparr>)"
  have "bstep c ?d"
    using assms Probing by (intro bstep.Round [where i = i]) (simp_all add: round_result_def)
  moreover have "rounds ?d \<noteq> rounds c \<and> role (node ?d) = role (node c)" using assms Probing by simp
  ultimately show ?thesis by blast
next
  case (Closes b r)
  let ?d = "tick (c\<lparr>rounds := [] @ Looks # ss, closed := (closed c)(b \<mapsto> r)\<rparr>)"
  have "bstep c ?d"
    using assms Closes by (intro bstep.Close) simp_all
  moreover have "rounds ?d \<noteq> rounds c \<and> role (node ?d) = role (node c)" using assms Closes by simp
  ultimately show ?thesis by blast
next
  case Looks
  obtain x n where nb: "next_batch (node c) = (x, n)" by fastforce
  then have r: "role n = role (node c)" by (auto simp: next_batch_def split: option.splits)
  show ?thesis
  proof (cases x)
    case None
    let ?d = "tick (c\<lparr>node := n, rounds := [] @ ss\<rparr>)"
    have "bstep c ?d"
      using assms Looks nb None by (intro bstep.Stops) simp_all
    moreover have "rounds ?d \<noteq> rounds c \<and> role (node ?d) = role (node c)" using assms r by simp
    ultimately show ?thesis by blast
  next
    case (Some b)
    let ?d = "tick (c\<lparr>node := n, rounds := [] @ Begins b # ss\<rparr>)"
    have "bstep c ?d"
      using assms Looks nb Some by (intro bstep.Next_batch) simp_all
    moreover have "rounds ?d \<noteq> rounds c \<and> role (node ?d) = role (node c)" using assms Looks r by simp
    ultimately show ?thesis by blast
  qed
qed

text \<open>So on a leader there are runs with any number of steps of the goroutine.\<close>

lemma round_runs_exist:
  assumes "role (node c) = Leader" and "batch_inv c"
  shows "\<exists>d. round_runs c k d \<and> role (node d) = Leader \<and> batch_inv d"
proof (induction k)
  case 0
  then show ?case using assms round_runs.rnone by blast
next
  case (Suc k)
  then obtain d where d: "round_runs c k d" "role (node d) = Leader" "batch_inv d" by blast
  have "\<exists>e. bstep d e \<and> rounds e \<noteq> rounds d \<and> role (node e) = role (node d)"
  proof (cases "rounds d")
    case Nil
    obtain b start n where j: "join_batch (node d) = (b, start, n)" by (metis prod_cases3)
    with d(3) Nil have st: "start" "role n = role (node d)"
      by (auto simp: batch_inv_def join_batch_def Let_def split: option.splits if_splits)
    let ?e = "tick (d\<lparr>node := n, waiting := insert (0, b, clock d) (waiting d),
      rounds := (if start then Begins b # rounds d else rounds d)\<rparr>)"
    have "bstep d ?e" using d(2) j by (intro bstep.Join) (simp_all add: IsLeader_def)
    moreover have "rounds ?e \<noteq> rounds d \<and> role (node ?e) = role (node d)" using st Nil by simp
    ultimately show ?thesis by blast
  qed (rule goroutine_enabled)
  then show ?case using d round_runs.rstep batch_inv_bstep by metis
qed

end
