(* ===== verification/Raft_Races.thy ===== *)
theory Raft_Races
  imports Raft_Voting Raft_Commit Raft_Read
begin

text \<open>
  Interleavings of the critical sections that the code leaves open, and what they lead to:
  the two sections of a probe's answer with a vote in between, a reply to a request of
  an earlier term, a message put together from the logs of two moments, and a confirmation that
  spans terms. The first three are why the cluster's \<open>Probe_set\<close> step has its \<open>strict\<close> condition and others have their \<open>orderly\<close> ones.
\<close>

subsection \<open>A vote between the two sections of a probe's answer\<close>

text \<open>A node without a state directory: nothing can fail.\<close>

lemma setTermLocked_memory:
  "nstate n = None \<Longrightarrow>
   setTermLocked n t = (None, n\<lparr>currentTerm := t, votedFor := [], leaderID := [], role := Follower\<rparr>)"
  by (simp add: setTermLocked_def persistLocked_def)

lemma HandleRequestVote_grants:
  assumes "nstate n = None" and "currentTerm n < vq_Term req"
    and "logUpToDateLocked n (vq_LastLogIndex req) (vq_LastLogTerm req)"
  shows "HandleRequestVote n req now = (Inr \<lparr>vr_Term = vq_Term req, VoteGranted = True\<rparr>,
    n\<lparr>currentTerm := vq_Term req, votedFor := CandidateID req, leaderID := [], role := Follower, lastHeard := now\<rparr>)"
proof -
  have "\<not> vq_Term req < currentTerm n" using assms(2) by simp
  with assms show ?thesis
    by (simp add: HandleRequestVote_def setTermLocked_memory persistLocked_def noteContactLocked_def
        logUpToDateLocked_def Let_def)
qed

text \<open>
  \<^verbatim>\<open>probe\<close> compares the term of the answer with the node's under the lock, releases it, and
  then sets the term: if the node has voted in a later term in between, the vote is gone
  and can be cast again.
\<close>

lemma probe_race:
  assumes st: "nstate n = None" and newer: "probe_newer n resp"
    and ra: "ar_Term resp < vq_Term ra" and same: "vq_Term rb = vq_Term ra"
    and up: "logUpToDateLocked n (vq_LastLogIndex ra) (vq_LastLogTerm ra)"
      "logUpToDateLocked n (vq_LastLogIndex rb) (vq_LastLogTerm rb)"
  shows "let (a, n1) = HandleRequestVote n ra now; n2 = probe_set n1 resp; (b, n3) = HandleRequestVote n2 rb now' in
    a = Inr \<lparr>vr_Term = vq_Term ra, VoteGranted = True\<rparr> \<and> votedFor n1 = CandidateID ra \<and>
    currentTerm n2 < currentTerm n1 \<and>
    b = Inr \<lparr>vr_Term = vq_Term ra, VoteGranted = True\<rparr> \<and> votedFor n3 = CandidateID rb"
proof -
  have lt: "currentTerm n < vq_Term ra" using newer ra by (simp add: probe_newer_def)
  note a = HandleRequestVote_grants [OF st lt up(1), of now]
  let ?n1 = "n\<lparr>currentTerm := vq_Term ra, votedFor := CandidateID ra, leaderID := [], role := Follower, lastHeard := now\<rparr>"
  have s: "probe_set ?n1 resp =
      ?n1\<lparr>currentTerm := ar_Term resp, votedFor := [], leaderID := [], role := Follower\<rparr>" (is "_ = ?n2")
    using st by (simp add: probe_set_def setTermLocked_memory)
  have "HandleRequestVote ?n2 rb now' = (Inr \<lparr>vr_Term = vq_Term rb, VoteGranted = True\<rparr>,
      ?n2\<lparr>currentTerm := vq_Term rb, votedFor := CandidateID rb, leaderID := [], role := Follower, lastHeard := now'\<rparr>)"
    using st ra same up(2) by (intro HandleRequestVote_grants) (simp_all add: logUpToDateLocked_def)
  with a s ra same show ?thesis by simp
qed

subsection \<open>A reply to a request of an earlier term\<close>

text \<open>
  \<^verbatim>\<open>replicateTo\<close> does not ask whether the term in which it built the request is still the
  node's term: a success from an earlier leadership counts as a replica of whatever the log
  holds at that index now.
\<close>

lemma stale_reply:
  assumes lead: "role n = Leader" and peers: "cfg_Peers (cfg n) = [p, q]" and wf: "log_wf (nlog n)"
    and top: "At (nlog n) (LastIndex (nlog n)) = Some e" "Term e = currentTerm n"
    and old: "aq_Term req < currentTerm n" and idx: "last_new req = LastIndex (nlog n)"
    and resp: "Success resp" "ar_Term resp \<le> currentTerm n" and c: "commitIndex n < LastIndex (nlog n)"
  shows "commitIndex (advanceCommit (snd (replicate_reply n p req resp))) = LastIndex (nlog n)"
proof -
  let ?L = "LastIndex (nlog n)"
  let ?n = "n\<lparr>matchIndex := (matchIndex n)(peer_ID p \<mapsto> ?L), nextIndex := (nextIndex n)(peer_ID p \<mapsto> ?L + 1)\<rparr>"
  have "\<not> ar_Term resp > currentTerm n" using resp(2) by simp
  then have r: "snd (replicate_reply n p req resp) = ?n"
    using resp(1) idx by (simp add: replicate_reply_def last_new_def Let_def)
  have "Majority (cfg n) = 2" using peers by (simp add: Majority_def ClusterSize_def)
  moreover have "2 \<le> replicas ?n ?L" using peers by (simp add: replicas_def at0_def)
  ultimately have "commit_loop ?n ?L = ?L"
    using c top by (subst commit_loop.simps) auto
  then show ?thesis using lead by (simp add: r advanceCommit_def)
qed

subsection \<open>A message put together from two logs\<close>

text \<open>
  \<^verbatim>\<open>replicateTo\<close> takes the header of a message under \<^verbatim>\<open>n.mu\<close>, releases it, and reads the log twice.
  If the node is deposed in between and the new leader replaces the entry at \<open>PrevLogIndex\<close>,
  the message has the old term there and the new leader's entries after it. A follower that still has
  the old entry accepts it: its log then agrees with the new leader's in the terms after the
  entry, not in the entry, so no later message will find the difference.
\<close>

lemma mixed_message:
  assumes wf: "log_wf l" "log_wf l'" and f: "healthy lf" "entries lf = entries l"
    and p: "Suc (unat (PrevLogIndex req)) = length (entries l)" "PrevLogIndex req \<noteq> 0"
    and new: "length (entries l) < length (entries l')"
    and differ: "Term (entries l' ! unat (PrevLogIndex req)) \<noteq> Term (last (entries l))"
  defines "q \<equiv> fill_entries l' (fill_prev l req)"
  obtains lf' where "AppendAfter lf (PrevLogIndex q) (PrevLogTerm q) (Entries q) = (Inr True, lf')"
    and "entries lf' = entries l @ drop (length (entries l)) (entries l')" and "\<not> matching (entries l') (entries lf')"
    and "Match lf' (LastIndex l') (LastTerm l')"
proof -
  let ?p = "unat (PrevLogIndex req)" and ?es = "entries l" and ?fs = "entries l'"
  have len: "length ?fs < slice_max" using wf(2) by (simp add: log_wf_def indexed_def)
  then have "Suc ?p < 2 ^ 64" using p(1) new by (intro slice_max_u64) simp
  then have un: "unat (of_nat (Suc ?p) :: u64) = Suc ?p" by (rule unat_of_nat_u64)
  have "PrevLogIndex req + 1 = of_nat (Suc ?p)" by (simp add: add.commute)
  then have p1: "unat (PrevLogIndex req + 1) = length ?es" using un p(1) by (simp only:)
  have last: "last ?es = ?es ! ?p" using p(1) [symmetric] by (cases "?es = []") (auto simp: last_conv_nth)
  have "At l (PrevLogIndex req) = Some (last ?es)" using wf(1) p last by (simp add: At_wf unat_gt_0)
  then have q: "PrevLogIndex q = PrevLogIndex req" "PrevLogTerm q = Term (last ?es)" "Entries q = drop (length ?es) ?fs"
    using p1 EntriesFrom_wf [OF wf(2), of "PrevLogIndex req + 1"] p(1)
    by (simp_all add: q_def fill_entries_def fill_prev_def max_def)
  have wff: "log_wf lf" using f(1) by (simp add: healthy_def)
  have m: "Match lf (PrevLogIndex q) (PrevLogTerm q)" using wff f(2) p(1) q last by (simp add: Match_wf)
  have sz: "unat (PrevLogIndex q) + 1 + length (Entries q) < slice_max" using q p(1) new len by simp
  have num: "numbered_from (PrevLogIndex q) (Entries q)"
    using wf(2) q p(1) by (simp add: numbered_from_def log_wf_def indexed_def)
  obtain lf' where run: "AppendAfter lf (PrevLogIndex q) (PrevLogTerm q) (Entries q) = (Inr True, lf')" "healthy lf'"
    using AppendAfter_healthy [OF f(1) sz num] m by metis
  have e: "entries lf' = ?es @ drop (length ?es) ?fs"
    using AppendAfter_spec [OF wff run(1) sz num] m f(2) q p(1) by (simp add: loop_result_def repair_at_end)
  have le: "length (entries lf') = length ?fs" using e new by simp
  have lastf: "entries lf' ! (length ?fs - 1) = ?fs ! (length ?fs - 1)"
    using new unfolding e by (simp add: nth_append)
  have "\<not> matching ?fs (entries lf')"
  proof
    assume "matching ?fs (entries lf')"
    then have "take (Suc (length ?fs - 1)) ?fs = take (Suc (length ?fs - 1)) (entries lf')"
      using new le lastf unfolding matching_def by (metis diff_less length_0_conv less_nat_zero_code min.idem neq0_conv zero_less_one)
    then have "?fs = entries lf'" using le new by simp
    then have "?fs ! ?p = (?es @ drop (length ?es) ?fs) ! ?p" using e by simp
    then have "?fs ! ?p = last ?es" using p(1) last by (simp add: nth_append)
    with differ show False by simp
  qed
  moreover have "Match lf' (LastIndex l') (LastTerm l')"
  proof -
    have wff': "log_wf lf'" using run(2) by (simp add: healthy_def)
    have "unat (LastIndex l') = length ?fs - 1" using LastIndex_Log_Len [OF wf(2)] by (simp add: Log_Len_def)
    moreover have "?fs \<noteq> []" using new by auto
    ultimately show ?thesis using lastf le new
      by (simp add: Match_wf [OF wff'] LastTerm_def last_conv_nth)
  qed
  ultimately show thesis using run(1) e that by blast
qed

subsection \<open>A confirmation round that spans terms\<close>

text \<open>
  \<^verbatim>\<open>confirmRound\<close> captures the commit index in one section and starts the probes after it; each
  probe takes the term from the node as it is then. Here the node has become \<open>m\<close> before the first
  probe, and the peers say yes to \<open>m\<close>.
\<close>

definition interrupted :: "'s Node \<Rightarrow> ('s, bool) env" where
  "interrupted m = \<lparr>others = (\<lambda>n u. if u then (n, u) else (m, True)),
     send_append = (\<lambda>p req u. (Some \<lparr>ar_Term = aq_Term req, Success = True, ar_LastLogIndex = 0\<rparr>, u)),
     send_vote = (\<lambda>p req u. (None, u)), send_read = (\<lambda>p req u. (None, u)), send_forward = (\<lambda>p req u. (None, u))\<rparr>"

lemma confirm_any_term:
  assumes "role n = Leader" and "role m = Leader" and "cfg_Peers (cfg n) = [p, q]" and "cfg m = cfg n"
  shows "confirmRound (interrupted m) [p] n False = (Inr (commitIndex n), m, True)"
proof -
  have "probe (interrupted m) p m True = (True, m, True)"
    using assms(2) by (simp add: probe_def probe_request_def probe_newer_def interrupted_def)
  moreover have "Majority (cfg n) = 2" using assms(3) by (simp add: Majority_def ClusterSize_def)
  ultimately have "gather (probe (interrupted m)) (Majority (cfg n)) (length (cfg_Peers (cfg n))) 1 0 [p] m True =
      (Reached, m, True)"
    using assms(3) by (simp add: gather.simps)
  moreover have "others (interrupted m) k u = (if u then (k, u) else (m, True))" for k u by (simp add: interrupted_def)
  ultimately show ?thesis using assms by (simp add: confirmRound_def IsLeader_def)
qed

text \<open>
  How it can: the leader of a later term replicates an entry to the node, which makes it two of three
  that hold it, and commits it; then the node wins an election of its own. The round
  returns the index of the first term, which leaves the entry out, and so does the state machine.
\<close>

lemma applyCommitted_nothing:
  assumes "commitIndex n \<le> lastApplied n"
  shows "applyCommitted n = n"
proof -
  have "apply_next n = None" using apply_next_Some [of n] assms by (cases "apply_next n") (auto simp: word_le_nat_alt)
  then show ?thesis by (simp add: applyCommitted.simps [of n])
qed

lemma confirmation_race:
  assumes n: "role n = Leader" "nstate n = None" "cfg_Peers (cfg n) = [p, q]" "healthy (nlog n)"
    and idle: "commitIndex n \<le> lastApplied n" and newer: "currentTerm n < aq_Term req"
    and req: "PrevLogIndex req = LastIndex (nlog n)" "PrevLogTerm req = LastTerm (nlog n)" "Entries req = [e]"
      "LeaderCommit req \<le> commitIndex n" "Index e = of_nat (length (entries (nlog n)))"
    and room: "Suc (length (entries (nlog n))) < slice_max"
  obtains resp n1 vq n2 m where "HandleAppendEntries n req now = (Inr resp, n1)" and "Success resp"
    and "campaign_start n1 now' = (Inr vq, n2)" and "promote n2 (vq_Term vq) = (True, m)"
    and "entries (nlog m) = entries (nlog n) @ [e]" and "machine m = machine n" and "lastApplied m = lastApplied n"
    and "confirmRound (interrupted m) [p] n False = (Inr (commitIndex n), m, True)"
proof -
  let ?l = "nlog n" and ?t = "aq_Term req"
  have wf: "log_wf ?l" using n(4) by (simp add: healthy_def)
  have ne: "entries ?l \<noteq> []" using wf by (auto simp: log_wf_def indexed_def)
  have ix: "unat (LastIndex ?l) = length (entries ?l) - 1" using LastIndex_Log_Len [OF wf] by (simp add: Log_Len_def)
  have m: "Match ?l (LastIndex ?l) (LastTerm ?l)"
    using ne ix by (simp add: Match_wf [OF wf] LastTerm_def last_conv_nth)
  have sz: "unat (LastIndex ?l) + 1 + length [e] < slice_max" using ix ne room by simp
  have num: "numbered_from (LastIndex ?l) [e]" using req(5) ix ne by (simp add: numbered_from_def)
  obtain l where run: "AppendAfter ?l (LastIndex ?l) (LastTerm ?l) [e] = (Inr True, l)"
    using AppendAfter_healthy [OF n(4) sz num, of "LastTerm ?l"] m by auto
  have l: "entries l = entries ?l @ [e]"
    using AppendAfter_spec [OF wf run sz num] m ix ne by (simp add: loop_result_def repair_at_end)
  let ?n1 = "n\<lparr>currentTerm := ?t, votedFor := [], leaderID := aq_LeaderID req, role := Follower, lastHeard := now, nlog := l\<rparr>"
  have no: "\<not> ?t < currentTerm n" "\<not> commitIndex n < LeaderCommit req" using newer req(4) by simp_all
  have "handleAppendEntries n req now = (Inr (replyLocked ?n1 True), ?n1)"
    using newer no req(1-3) run n(2)
    by (simp add: handleAppendEntries_def setTermLocked_memory noteContactLocked_def replyLocked_def)
  moreover have "applyCommitted ?n1 = ?n1" using idle by (intro applyCommitted_nothing) simp
  ultimately have h: "HandleAppendEntries n req now = (Inr (replyLocked ?n1 True), ?n1)"
    by (simp add: HandleAppendEntries_def)
  let ?n2 = "?n1\<lparr>currentTerm := ?t + 1, votedFor := cfg_ID (cfg n), role := Candidate, leaderID := [], lastHeard := now'\<rparr>"
  obtain vq where c: "campaign_start ?n1 now' = (Inr vq, ?n2)" "vq_Term vq = ?t + 1"
    using n(2) by (simp add: campaign_start_def persistLocked_def Let_def)
  let ?m = "becomeLeaderLocked ?n2"
  have w: "promote ?n2 (vq_Term vq) = (True, ?m)" using c(2) by (simp add: promote_def)
  have "role ?m = Leader" "cfg ?m = cfg n" by (simp_all add: becomeLeaderLocked_eq)
  with n(1,3) have r: "confirmRound (interrupted ?m) [p] n False = (Inr (commitIndex n), ?m, True)"
    by (intro confirm_any_term)
  show thesis
    by (rule that [OF h _ c(1) w _ _ _ r]) (simp_all add: replyLocked_def becomeLeaderLocked_eq l)
qed

end
