(* ===== verification/Raft_Cluster.thy ===== *)
theory Raft_Cluster
  imports Raft_Voting
begin

text \<open>
  The cluster: every critical section of every node is a step, messages stay in the network
  and may be delivered late, repeatedly or never, and any node may crash and restart at
  any moment. The theorem is Election Safety: in the life of a cluster, at most one node
  is ever promoted to leader of a term.
\<close>

text \<open>
  \<open>started\<close> are the elections (candidate and term) whose candidacy reached the disk,
  \<open>running\<close> those whose goroutine is still counting, \<open>answered\<close> and \<open>tally\<close> the peers that
  have answered it and those that said yes, \<open>won\<close> those whose candidate was promoted.
  \<open>drafts\<close> are append requests between their first section and the log reads that
  complete them; \<open>probes\<close> are answers to a probe between the two sections that handle it;
  \<open>applying\<close> the entry an apply loop has read but not yet applied.
\<close>

record 's cluster =
  nodes :: "NodeID \<Rightarrow> 's Node"
  started :: "(NodeID \<times> u64) set"
  running :: "(NodeID \<times> u64) set"
  answered :: "NodeID \<times> u64 \<Rightarrow> NodeID set"
  tally :: "NodeID \<times> u64 \<Rightarrow> NodeID set"
  won :: "(NodeID \<times> u64) set"
  vote_requests :: "RequestVoteRequest set"
  vote_replies :: "(NodeID \<times> RequestVoteRequest \<times> RequestVoteResponse) set"
  drafts :: "(nat \<times> NodeID \<times> AppendEntriesRequest) set"
  append_requests :: "AppendEntriesRequest set"
  append_replies :: "(NodeID \<times> AppendEntriesRequest \<times> AppendEntriesResponse) set"
  probes :: "(NodeID \<times> AppendEntriesResponse) set"
  read_requests :: "ReadIndexRequest set"
  proposals :: "(NodeID \<times> u64 \<times> Record) set"
  applying :: "NodeID \<Rightarrow> Record option"

definition set_node :: "'s cluster \<Rightarrow> NodeID \<Rightarrow> 's Node \<Rightarrow> 's cluster" where
  "set_node c i n = c\<lparr>nodes := (nodes c)(i := n)\<rparr>"

definition peer_ids :: "'s Node \<Rightarrow> NodeID set" where
  "peer_ids n = peer_ID ` set (cfg_Peers (cfg n))"

definition reached :: "'s cluster \<Rightarrow> NodeID \<times> u64 \<Rightarrow> bool" where
  "reached c e \<longleftrightarrow> Majority (cfg (nodes c (fst e))) \<le> 1 + card (tally c e)"

text \<open>What dies with a process: its goroutines.\<close>

definition forget :: "NodeID \<Rightarrow> 's cluster \<Rightarrow> 's cluster" where
  "forget i c = c\<lparr>running := {e \<in> running c. fst e \<noteq> i}, drafts := {d \<in> drafts c. fst (snd d) \<noteq> i},
     probes := {p \<in> probes c. fst p \<noteq> i}, proposals := {p \<in> proposals c. fst p \<noteq> i},
     applying := (applying c)(i := None)\<rparr>"

text \<open>
  The steps. \<open>M\<close> is the set of nodes, \<open>m0\<close> the initial state of the state machine.
  Two steps are narrower than the code, and the theorems below say what the code does
  outside of them: \<open>Campaign\<close> does not pass the last term (\<open>2 ^ 64 - 1\<close>), and, if
  \<open>strict\<close>, the second section of a probe's answer runs while the comparison of the first
  still holds. If \<open>orderly\<close>, five more are: the two log reads that complete an append
  request, the handling of its reply, and a proposal's append happen while the node still leads
  the term they were begun in (the code reads the log and appends to it outside \<^verbatim>\<open>n.mu\<close>,
  and does not compare terms), and a restart brings back the term and the entries the process had
  (it does when no write to the disk has failed). Election Safety needs only the former.
\<close>

definition leads :: "'s Node \<Rightarrow> u64 \<Rightarrow> bool" where
  "leads n t \<longleftrightarrow> role n = Leader \<and> currentTerm n = t"

definition keeps_memory :: "'s Node \<Rightarrow> 's Node \<Rightarrow> bool" where
  "keeps_memory n n' \<longleftrightarrow> currentTerm n' = currentTerm n \<and> entries (nlog n') = entries (nlog n)"

inductive cstep :: "NodeID set \<Rightarrow> 's \<Rightarrow> bool \<Rightarrow> bool \<Rightarrow> 's cluster \<Rightarrow> 's cluster \<Rightarrow> bool"
  for M :: "NodeID set" and m0 :: 's and strict orderly :: bool where
  Campaign: "i \<in> M \<Longrightarrow> currentTerm (nodes c i) < currentTerm (nodes c i) + 1 \<Longrightarrow>
    campaign_start (nodes c i) now = (Inr req, n) \<Longrightarrow>
    cstep M m0 strict orderly c ((set_node c i n)\<lparr>started := insert (i, vq_Term req) (started c),
      running := insert (i, vq_Term req) (running c), vote_requests := insert req (vote_requests c)\<rparr>)"
| Campaign_unsaved: "i \<in> M \<Longrightarrow> currentTerm (nodes c i) < currentTerm (nodes c i) + 1 \<Longrightarrow>
    campaign_start (nodes c i) now = (Inl e, n) \<Longrightarrow> cstep M m0 strict orderly c (set_node c i n)"
| Vote: "j \<in> M \<Longrightarrow> req \<in> vote_requests c \<Longrightarrow> j \<in> peer_ids (nodes c (CandidateID req)) \<Longrightarrow>
    HandleRequestVote (nodes c j) req now = (Inr resp, n) \<Longrightarrow>
    cstep M m0 strict orderly c ((set_node c j n)\<lparr>vote_replies := insert (j, req, resp) (vote_replies c)\<rparr>)"
| Vote_error: "j \<in> M \<Longrightarrow> req \<in> vote_requests c \<Longrightarrow> j \<in> peer_ids (nodes c (CandidateID req)) \<Longrightarrow>
    HandleRequestVote (nodes c j) req now = (Inl e, n) \<Longrightarrow> cstep M m0 strict orderly c (set_node c j n)"
| Count: "i \<in> M \<Longrightarrow> (i, t) \<in> running c \<Longrightarrow> (j, req, resp) \<in> vote_replies c \<Longrightarrow> CandidateID req = i \<Longrightarrow>
    vq_Term req = t \<Longrightarrow> j \<notin> answered c (i, t) \<Longrightarrow> vote_reply (nodes c i) resp = (ok, n) \<Longrightarrow>
    cstep M m0 strict orderly c ((set_node c i n)\<lparr>
      answered := (answered c)((i, t) := insert j (answered c (i, t))),
      tally := (tally c)((i, t) := (if ok then insert j (tally c (i, t)) else tally c (i, t)))\<rparr>)"
| Lose: "e \<in> running c \<Longrightarrow> cstep M m0 strict orderly c (c\<lparr>running := running c - {e}\<rparr>)"
| Win: "i \<in> M \<Longrightarrow> (i, t) \<in> running c \<Longrightarrow> reached c (i, t) \<Longrightarrow> promote (nodes c i) t = (ok, n) \<Longrightarrow>
    cstep M m0 strict orderly c ((set_node c i n)\<lparr>running := running c - {(i, t)},
      won := (if ok then insert (i, t) (won c) else won c)\<rparr>)"
| Draft: "i \<in> M \<Longrightarrow> p \<in> set (cfg_Peers (cfg (nodes c i))) \<Longrightarrow> replicate_request (nodes c i) p = Some req \<Longrightarrow>
    cstep M m0 strict orderly c (c\<lparr>drafts := insert (0, i, req) (drafts c)\<rparr>)"
| Draft_prev: "(0, i, req) \<in> drafts c \<Longrightarrow> orderly \<longrightarrow> leads (nodes c i) (aq_Term req) \<Longrightarrow>
    cstep M m0 strict orderly c (c\<lparr>drafts := insert (1, i, fill_prev (nlog (nodes c i)) req) (drafts c)\<rparr>)"
| Send: "(1, i, req) \<in> drafts c \<Longrightarrow> orderly \<longrightarrow> leads (nodes c i) (aq_Term req) \<Longrightarrow>
    cstep M m0 strict orderly c (c\<lparr>append_requests :=
      insert (fill_entries (nlog (nodes c i)) req) (append_requests c)\<rparr>)"
| Probe: "i \<in> M \<Longrightarrow> probe_request (nodes c i) = Some req \<Longrightarrow>
    cstep M m0 strict orderly c (c\<lparr>append_requests := insert req (append_requests c)\<rparr>)"
| Handle_append: "j \<in> M \<Longrightarrow> req \<in> append_requests c \<Longrightarrow> j \<in> peer_ids (nodes c (aq_LeaderID req)) \<Longrightarrow>
    handleAppendEntries (nodes c j) req now = (r, n) \<Longrightarrow>
    cstep M m0 strict orderly c ((set_node c j n)\<lparr>append_replies :=
      (case r of Inr resp \<Rightarrow> insert (j, req, resp) (append_replies c) | Inl _ \<Rightarrow> append_replies c)\<rparr>)"
| Reply: "i \<in> M \<Longrightarrow> (j, req, resp) \<in> append_replies c \<Longrightarrow> aq_LeaderID req = i \<Longrightarrow>
    p \<in> set (cfg_Peers (cfg (nodes c i))) \<Longrightarrow> peer_ID p = j \<Longrightarrow> replicate_reply (nodes c i) p req resp = (b, n) \<Longrightarrow>
    orderly \<longrightarrow> leads (nodes c i) (aq_Term req) \<Longrightarrow>
    cstep M m0 strict orderly c (set_node c i n)"
| Probe_newer: "i \<in> M \<Longrightarrow> (j, req, resp) \<in> append_replies c \<Longrightarrow> aq_LeaderID req = i \<Longrightarrow>
    probe_newer (nodes c i) resp \<Longrightarrow> cstep M m0 strict orderly c (c\<lparr>probes := insert (i, resp) (probes c)\<rparr>)"
| Probe_set: "i \<in> M \<Longrightarrow> (i, resp) \<in> probes c \<Longrightarrow> strict \<longrightarrow> probe_newer (nodes c i) resp \<Longrightarrow>
    cstep M m0 strict orderly c ((set_node c i (probe_set (nodes c i) resp))\<lparr>probes := probes c - {(i, resp)}\<rparr>)"
| Ask_read: "i \<in> M \<Longrightarrow>
    cstep M m0 strict orderly c (c\<lparr>read_requests :=
      insert \<lparr>rq_Term = currentTerm (nodes c i), FromNodeID = i\<rparr> (read_requests c)\<rparr>)"
| Handle_read: "j \<in> M \<Longrightarrow> req \<in> read_requests c \<Longrightarrow> read_term (nodes c j) req = (r, n) \<Longrightarrow>
    cstep M m0 strict orderly c (set_node c j n)"
| Propose_start: "i \<in> M \<Longrightarrow> propose_term (nodes c i) = Some t \<Longrightarrow>
    cstep M m0 strict orderly c (c\<lparr>proposals := insert (i, t, cmd) (proposals c)\<rparr>)"
| Propose_append: "i \<in> M \<Longrightarrow> (i, t, cmd) \<in> proposals c \<Longrightarrow> propose_append (nodes c i) t cmd = (r, n) \<Longrightarrow>
    orderly \<longrightarrow> leads (nodes c i) t \<and> Suc (length (entries (nlog (nodes c i)))) < slice_max \<Longrightarrow>
    cstep M m0 strict orderly c ((set_node c i n)\<lparr>proposals := proposals c - {(i, t, cmd)}\<rparr>)"
| Advance: "i \<in> M \<Longrightarrow> cstep M m0 strict orderly c (set_node c i (advanceCommit (nodes c i)))"
| Apply_read: "i \<in> M \<Longrightarrow> applying c i = None \<Longrightarrow> apply_next (nodes c i) = Some e \<Longrightarrow>
    cstep M m0 strict orderly c (c\<lparr>applying := (applying c)(i := Some e)\<rparr>)"
| Apply_do: "i \<in> M \<Longrightarrow> applying c i = Some e \<Longrightarrow>
    cstep M m0 strict orderly c ((set_node c i (apply_one (nodes c i) e))\<lparr>applying := (applying c)(i := None)\<rparr>)"
| Restart: "i \<in> M \<Longrightarrow> restarts m0 (nodes c i) n \<Longrightarrow> orderly \<longrightarrow> keeps_memory (nodes c i) n \<Longrightarrow>
    cstep M m0 strict orderly c (forget i (set_node c i n))"

inductive reachable :: "NodeID set \<Rightarrow> 's \<Rightarrow> bool \<Rightarrow> bool \<Rightarrow> 's cluster \<Rightarrow> 's cluster \<Rightarrow> bool"
  for M :: "NodeID set" and m0 :: 's and strict orderly :: bool and c :: "'s cluster" where
  start: "reachable M m0 strict orderly c c"
| more: "reachable M m0 strict orderly c d \<Longrightarrow> cstep M m0 strict orderly d e \<Longrightarrow> reachable M m0 strict orderly c e"

inductive_cases cstep_cases: "cstep M m0 strict orderly c d"

text \<open>
  A cluster that has just been set up: the nodes agree on who the members are, each has a
  state directory (with whatever is in it), none is a leader, nothing is under way. The
  IDs are UTF-8, so that the vote survives the JSON file.
\<close>

definition configured :: "NodeID set \<Rightarrow> NodeID \<Rightarrow> 's Node \<Rightarrow> bool" where
  "configured M i n \<longleftrightarrow> cfg_ID (cfg n) = i \<and> Validate (cfg n) = None \<and> members (cfg n) = M \<and> nstate n \<noteq> None"

definition initial :: "NodeID set \<Rightarrow> 's cluster \<Rightarrow> bool" where
  "initial M c \<longleftrightarrow> (\<forall>i \<in> M. valid_utf8 i \<and> configured M i (nodes c i) \<and> role (nodes c i) \<noteq> Leader) \<and>
     started c = {} \<and> running c = {} \<and> tally c = (\<lambda>_. {}) \<and> answered c = (\<lambda>_. {}) \<and> won c = {} \<and>
     vote_requests c = {} \<and> vote_replies c = {} \<and> drafts c = {} \<and> append_requests c = {} \<and>
     append_replies c = {} \<and> probes c = {} \<and> read_requests c = {} \<and> proposals c = {} \<and>
     applying c = (\<lambda>_. None)"

subsection \<open>The invariant\<close>

text \<open>
  Every vote that was ever cast: voter, term, candidate. A candidate votes for itself
  when its candidacy reaches the disk, the others when they answer yes.
\<close>

definition cast :: "'s cluster \<Rightarrow> (NodeID \<times> u64 \<times> NodeID) set" where
  "cast c = {(i, t, i) |i t. (i, t) \<in> started c} \<union>
     {(j, vq_Term req, CandidateID req) |j req resp. (j, req, resp) \<in> vote_replies c \<and> VoteGranted resp}"

definition election_inv :: "NodeID set \<Rightarrow> 's cluster \<Rightarrow> bool" where
  "election_inv M c \<longleftrightarrow>
     (\<forall>i \<in> M. valid_utf8 i \<and> configured M i (nodes c i)) \<and>
     (\<forall>(v, t, k) \<in> cast c. v \<in> M \<and> k \<in> M \<and> honours (nodes c v) t k) \<and>
     (\<forall>v t k k'. (v, t, k) \<in> cast c \<and> (v, t, k') \<in> cast c \<longrightarrow> k = k') \<and>
     (\<forall>i t. tally c (i, t) \<subseteq> {v. (v, t, i) \<in> cast c} - {i}) \<and>
     (\<forall>i \<in> M. role (nodes c i) = Leader \<longrightarrow> (i, currentTerm (nodes c i)) \<in> won c) \<and>
     (\<forall>(i, t) \<in> won c. (i, t) \<in> started c \<and> reached c (i, t)) \<and>
     (\<forall>e \<in> running c. e \<in> started c) \<and>
     (\<forall>(i, t) \<in> started c. i \<in> M) \<and>
     (\<forall>req \<in> vote_requests c. (CandidateID req, vq_Term req) \<in> started c) \<and>
     (\<forall>(j, req, resp) \<in> vote_replies c. j \<noteq> CandidateID req)"

text \<open>The steps that cast no vote and count none.\<close>

definition same_votes :: "'s cluster \<Rightarrow> 's cluster \<Rightarrow> bool" where
  "same_votes c d \<longleftrightarrow> started d = started c \<and> vote_replies d = vote_replies c \<and> tally d = tally c \<and>
     won d = won c \<and> vote_requests d = vote_requests c \<and> running d \<subseteq> running c"

lemma cast_iff:
  "(v, t, k) \<in> cast c \<longleftrightarrow> v = k \<and> (k, t) \<in> started c \<or>
     (\<exists>req resp. (v, req, resp) \<in> vote_replies c \<and> VoteGranted resp \<and> t = vq_Term req \<and> k = CandidateID req)"
  by (auto simp: cast_def)

lemma cast_reply:
  "cast (c\<lparr>vote_replies := insert (j, req, resp) (vote_replies c)\<rparr>) =
     (if VoteGranted resp then insert (j, vq_Term req, CandidateID req) (cast c) else cast c)"
  (is "?l = ?r")
proof -
  have "(v, t, k) \<in> ?l \<longleftrightarrow> (v, t, k) \<in> ?r" for v t k
    by (auto simp: cast_iff)
  then show ?thesis by (simp add: set_eq_iff split_paired_all)
qed

lemma cast_start:
  "cast (c\<lparr>started := insert (i, t) (started c), running := r, vote_requests := q\<rparr>) = insert (i, t, i) (cast c)"
  (is "?l = ?r")
proof -
  have "(v, u, k) \<in> ?l \<longleftrightarrow> (v, u, k) \<in> ?r" for v u k
    by (auto simp: cast_iff)
  then show ?thesis by (simp add: set_eq_iff split_paired_all)
qed

lemma cast_same: "same_votes c d \<Longrightarrow> cast d = cast c"
  by (simp add: same_votes_def cast_def)

lemma configured_cfg: "configured M i n \<Longrightarrow> cfg n' = cfg n \<Longrightarrow> (nstate n' = None) = (nstate n = None) \<Longrightarrow>
    configured M i n'"
  by (simp add: configured_def)

lemma member_nonempty: "election_inv M c \<Longrightarrow> k \<in> M \<Longrightarrow> k \<noteq> []"
  by (auto simp: election_inv_def configured_def Validate_iff)

lemma members_fin: "election_inv M c \<Longrightarrow> i \<in> M \<Longrightarrow> finite M"
  using cluster.members_finite by (auto simp: election_inv_def configured_def)

lemma peer_not_self: "configured M i n \<Longrightarrow> j \<in> peer_ids n \<Longrightarrow> j \<noteq> i"
  by (auto simp: configured_def Validate_iff peer_ids_def) (metis imageI)

lemma inv_member: "election_inv M c \<Longrightarrow> i \<in> M \<Longrightarrow> valid_utf8 i \<and> configured M i (nodes c i)"
  by (auto simp: election_inv_def)

lemma inv_requester: "election_inv M c \<Longrightarrow> req \<in> vote_requests c \<Longrightarrow> CandidateID req \<in> M"
  by (auto simp: election_inv_def)

lemma election_inv_step:
  assumes inv: "election_inv M c" and same: "same_votes c d" and nodes: "nodes d = (nodes c)(i := n)"
    and conf: "cfg n = cfg (nodes c i)" "(nstate n = None) = (nstate (nodes c i) = None)"
    and hon: "\<And>t k. k \<noteq> [] \<Longrightarrow> honours (nodes c i) t k \<Longrightarrow> honours n t k"
    and lead: "role n = Leader \<Longrightarrow> role (nodes c i) = Leader \<and> currentTerm n = currentTerm (nodes c i)"
  shows "election_inv M d"
proof -
  have r: "reached d e = reached c e" for e
    using same conf by (simp add: reached_def same_votes_def nodes)
  have "honours (nodes d v) t k" if "k \<in> M" "honours (nodes c v) t k" for v t k
    using hon that member_nonempty [OF inv that(1)] by (cases "v = i") (simp_all add: nodes)
  moreover have "configured M j (nodes d j)" if "configured M j (nodes c j)" for j
    using that conf by (cases "j = i") (simp_all add: nodes configured_def)
  moreover have "(j, currentTerm (nodes d j)) \<in> won d"
    if "j \<in> M" "role (nodes d j) = Leader" for j
    using that lead inv same by (auto simp: nodes election_inv_def same_votes_def split: if_splits)
  ultimately show ?thesis
    using inv same cast_same [OF same] unfolding election_inv_def r
    by (auto simp: same_votes_def)
qed

lemma election_inv_quiet:
  assumes "election_inv M c" and "same_votes c d" and "nodes d = (nodes c)(i := n)"
    and q: "votes_nothing (nodes c i) n"
  shows "election_inv M d"
  using assms(1-3)
proof (rule election_inv_step)
  show "cfg n = cfg (nodes c i)" "(nstate n = None) = (nstate (nodes c i) = None)"
    using q by (auto simp: votes_nothing_def)
  show "honours n t k" if "honours (nodes c i) t k" for t k using q that by (rule honours_quiet)
  show "role n = Leader \<Longrightarrow> role (nodes c i) = Leader \<and> currentTerm n = currentTerm (nodes c i)"
    using q by (auto simp: votes_nothing_def)
qed

text \<open>One more vote cast, by a node that has it on record.\<close>

lemma election_inv_cast:
  assumes inv: "election_inv M c"
    and same: "nodes d = nodes c" "tally d = tally c" "won d = won c"
    and cast: "cast d \<subseteq> insert (j, t, k) (cast c)" "cast c \<subseteq> cast d" and st: "started c \<subseteq> started d"
    and vote: "honours (nodes c j) t k" "currentTerm (nodes c j) = t" "votedFor (nodes c j) = k" "j \<in> M" "k \<in> M"
    and rest: "\<forall>e \<in> running d. e \<in> started d" "\<forall>(i, t) \<in> started d. i \<in> M"
      "\<forall>req \<in> vote_requests d. (CandidateID req, vq_Term req) \<in> started d"
      "\<forall>(j, req, resp) \<in> vote_replies d. j \<noteq> CandidateID req"
  shows "election_inv M d"
proof -
  have r: "reached d e = reached c e" for e using same by (simp add: reached_def)
  have hon: "honours (nodes c v) u l \<and> v \<in> M \<and> l \<in> M" if "(v, u, l) \<in> cast d" for v u l
    using that cast(1) vote inv by (auto simp: election_inv_def)
  have "l = l'" if a: "(v, u, l) \<in> cast d" "(v, u, l') \<in> cast d" for v u l l'
  proof (cases "v = j \<and> u = t")
    case True
    with hon [OF a(1)] hon [OF a(2)] vote show ?thesis by (auto simp: honours_def)
  next
    case False
    with a cast(1) have "(v, u, l) \<in> cast c" "(v, u, l') \<in> cast c" by auto
    with inv show ?thesis by (auto simp: election_inv_def)
  qed
  moreover have "tally d (i, u) \<subseteq> {v. (v, u, i) \<in> cast d} - {i}" for i u
    using inv cast(2) same by (fastforce simp: election_inv_def)
  moreover have "\<forall>(i, u) \<in> won d. (i, u) \<in> started d \<and> reached d (i, u)"
    using inv st same r by (auto simp: election_inv_def)
  moreover have "\<forall>i \<in> M. valid_utf8 i \<and> configured M i (nodes d i)"
    and "\<forall>i \<in> M. role (nodes d i) = Leader \<longrightarrow> (i, currentTerm (nodes d i)) \<in> won d"
    using inv same by (auto simp: election_inv_def)
  moreover have "\<forall>(v, u, l) \<in> cast d. v \<in> M \<and> l \<in> M \<and> honours (nodes d v) u l"
    using hon same by auto
  ultimately show ?thesis
    using rest unfolding election_inv_def by blast
qed

text \<open>One more yes counted.\<close>

lemma election_inv_count:
  assumes inv: "election_inv M c" and j: "(j, t, i) \<in> cast c" "j \<noteq> i" and iM: "i \<in> M"
    and d: "d = c\<lparr>answered := a, tally := (tally c)((i, t) := insert j (tally c (i, t)))\<rparr>"
  shows "election_inv M d"
proof -
  have "tally c e \<subseteq> M" for e
    using inv by (cases e) (fastforce simp: election_inv_def)
  then have fin: "finite (tally c e)" for e using members_fin [OF inv iM] finite_subset by blast
  have r: "reached c e \<Longrightarrow> reached d e" for e
    using fin by (auto simp: reached_def d card_insert_if)
  have cast: "cast d = cast c" by (simp add: cast_def d)
  have "\<forall>(i, u) \<in> won d. (i, u) \<in> started d \<and> reached d (i, u)"
    using inv r by (auto simp: election_inv_def d)
  moreover have "tally d (k, u) \<subseteq> {v. (v, u, k) \<in> cast d} - {k}" for k u
    using inv j unfolding cast by (auto simp: election_inv_def d)
  ultimately show ?thesis
    using inv unfolding election_inv_def cast by (simp add: d)
qed

lemma same_votes_refl [simp]: "same_votes c (set_node c i n)"
  by (simp add: same_votes_def set_node_def)

lemma nodes_set_node [simp]: "nodes (set_node c i n) = (nodes c)(i := n)"
  by (simp add: set_node_def)

lemma set_node_same [simp]:
  "started (set_node c i n) = started c" "running (set_node c i n) = running c" "tally (set_node c i n) = tally c"
  "won (set_node c i n) = won c" "vote_requests (set_node c i n) = vote_requests c"
  "vote_replies (set_node c i n) = vote_replies c" "answered (set_node c i n) = answered c"
  "cast (set_node c i n) = cast c"
  by (simp_all add: set_node_def cast_def)

text \<open>The node's side of a vote request.\<close>

lemma election_inv_vote_node:
  assumes inv: "election_inv M c" and j: "j \<in> M" and req: "req \<in> vote_requests c"
    and run: "HandleRequestVote (nodes c j) req now = (r, n)"
  shows "election_inv M (set_node c j n)"
proof -
  have k: "CandidateID req \<in> M" using inv req by (rule inv_requester)
  have st: "nstate (nodes c j) \<noteq> None" and u: "valid_utf8 (CandidateID req)"
    using inv_member [OF inv j] inv_member [OF inv k] by (simp_all add: configured_def)
  from HandleRequestVote_votes [OF run st]
  consider (quiet) "votes_nothing (nodes c j) n"
    | (vote) "votes_for (CandidateID req) (vq_Term req) (nodes c j) n"
        "role n = role (nodes c j) \<or> role n = Follower" "currentTerm (nodes c j) < vq_Term req \<longrightarrow> role n = Follower"
    by blast
  then show ?thesis
  proof cases
    case quiet
    show ?thesis using inv same_votes_refl nodes_set_node quiet by (rule election_inv_quiet)
  next
    case vote
    show ?thesis
    proof (rule election_inv_step [OF inv same_votes_refl nodes_set_node])
      show "honours n t k" if "k \<noteq> []" "honours (nodes c j) t k" for t k
        using vote(1) u that(2,1) by (rule honours_vote)
      show "role n = Leader \<Longrightarrow> role (nodes c j) = Leader \<and> currentTerm n = currentTerm (nodes c j)"
        using vote by (auto simp: votes_for_def)
    qed (use vote(1) in \<open>simp_all add: votes_for_def\<close>)
  qed
qed

lemma election_inv_Vote:
  assumes inv: "election_inv M c" and j: "j \<in> M" and req: "req \<in> vote_requests c"
    and peer: "j \<in> peer_ids (nodes c (CandidateID req))"
    and run: "HandleRequestVote (nodes c j) req now = (Inr resp, n)"
  shows "election_inv M ((set_node c j n)\<lparr>vote_replies := insert (j, req, resp) (vote_replies c)\<rparr>)"
    (is "election_inv M ?d")
proof -
  have k: "CandidateID req \<in> M" using inv req by (rule inv_requester)
  have st: "nstate (nodes c j) \<noteq> None" and u: "valid_utf8 (CandidateID req)"
    and kc: "configured M (CandidateID req) (nodes c (CandidateID req))"
    using inv_member [OF inv j] inv_member [OF inv k] by (simp_all add: configured_def)
  have jk: "j \<noteq> CandidateID req" using peer_not_self [OF kc peer] .
  have inv1: "election_inv M (set_node c j n)" using inv j req run by (rule election_inv_vote_node)
  show ?thesis
  proof (cases "VoteGranted resp")
    case True
    with HandleRequestVote_votes [OF run st]
    have v: "votes_for (CandidateID req) (vq_Term req) (nodes c j) n" "recorded (CandidateID req) (vq_Term req) n"
      by auto
    show ?thesis
    proof (rule election_inv_cast [OF inv1, of ?d j "vq_Term req" "CandidateID req"])
      show "honours (nodes (set_node c j n) j) (vq_Term req) (CandidateID req)"
        using honours_new [OF v u] by simp
      show "cast ?d \<subseteq> insert (j, vq_Term req, CandidateID req) (cast (set_node c j n))"
        and "cast (set_node c j n) \<subseteq> cast ?d"
        using cast_reply [where c = "set_node c j n"] True by auto
    qed (use v j k inv jk in \<open>auto simp: votes_for_def election_inv_def\<close>)
  next
    case False
    then have cast: "cast ?d = cast (set_node c j n)" using cast_reply [where c = "set_node c j n"] by simp
    have "reached ?d e = reached (set_node c j n) e" for e by (simp add: reached_def)
    with inv1 jk show ?thesis unfolding election_inv_def cast by auto
  qed
qed

lemma election_inv_campaign_node:
  assumes inv: "election_inv M c" and i: "i \<in> M" and grows: "currentTerm (nodes c i) < currentTerm (nodes c i) + 1"
    and run: "campaign_start (nodes c i) now = (r, n)"
  shows "election_inv M (set_node c i n)"
proof -
  have st: "nstate (nodes c i) \<noteq> None" and id: "cfg_ID (cfg (nodes c i)) = i" and u: "valid_utf8 i"
    using inv_member [OF inv i] by (simp_all add: configured_def)
  have v: "votes_for i (currentTerm (nodes c i) + 1) (nodes c i) n" and r: "role n = Candidate"
    using campaign_start_votes [OF run st grows] id by auto
  show ?thesis
  proof (rule election_inv_step [OF inv same_votes_refl nodes_set_node])
    show "honours n t k" if "k \<noteq> []" "honours (nodes c i) t k" for t k
      using v u that(2,1) by (rule honours_vote)
  qed (use v r in \<open>simp_all add: votes_for_def\<close>)
qed

lemma election_inv_Campaign:
  assumes inv: "election_inv M c" and i: "i \<in> M" and grows: "currentTerm (nodes c i) < currentTerm (nodes c i) + 1"
    and run: "campaign_start (nodes c i) now = (Inr req, n)"
  shows "election_inv M ((set_node c i n)\<lparr>started := insert (i, vq_Term req) (started c),
    running := insert (i, vq_Term req) (running c), vote_requests := insert req (vote_requests c)\<rparr>)"
    (is "election_inv M ?d")
proof -
  have st: "nstate (nodes c i) \<noteq> None" and id: "cfg_ID (cfg (nodes c i)) = i" and u: "valid_utf8 i"
    using inv_member [OF inv i] by (simp_all add: configured_def)
  have v: "votes_for i (vq_Term req) (nodes c i) n" "recorded i (vq_Term req) n" "CandidateID req = i"
    using campaign_start_votes [OF run st grows] id by auto
  have inv1: "election_inv M (set_node c i n)" using inv i grows run by (rule election_inv_campaign_node)
  show ?thesis
  proof (rule election_inv_cast [OF inv1, of ?d i "vq_Term req" i])
    show "honours (nodes (set_node c i n) i) (vq_Term req) i" using honours_new [OF v(1,2) u] by simp
    show "cast ?d \<subseteq> insert (i, vq_Term req, i) (cast (set_node c i n))" and "cast (set_node c i n) \<subseteq> cast ?d"
      using cast_start [where c = "set_node c i n"] by auto
  qed (use v i inv in \<open>auto simp: votes_for_def election_inv_def\<close>)
qed

lemma election_inv_Count:
  assumes inv: "election_inv M c" and i: "i \<in> M" and rep: "(j, req, resp) \<in> vote_replies c"
    and c: "CandidateID req = i" "vq_Term req = t" and run: "vote_reply (nodes c i) resp = (ok, n)"
  shows "election_inv M ((set_node c i n)\<lparr>answered := a,
    tally := (tally c)((i, t) := (if ok then insert j (tally c (i, t)) else tally c (i, t)))\<rparr>)"
proof -
  have q: "votes_nothing (nodes c i) n" using vote_reply_quiet [of "nodes c i" resp] run by simp
  have inv1: "election_inv M (set_node c i n)"
    using inv same_votes_refl nodes_set_node q by (rule election_inv_quiet)
  show ?thesis
  proof (cases ok)
    case True
    then have "VoteGranted resp" using run by (auto simp: vote_reply_def split: if_splits)
    then have "(j, t, i) \<in> cast (set_node c i n)" unfolding cast_iff using rep c by auto
    moreover have "j \<noteq> i" using rep c(1) inv by (auto simp: election_inv_def)
    ultimately have this: "(j, t, i) \<in> cast (set_node c i n)" "j \<noteq> i" .
    from election_inv_count [OF inv1 this i refl, of a] True show ?thesis by simp
  next
    case False
    let ?d = "(set_node c i n)\<lparr>answered := a, tally := tally c\<rparr>"
    have "cast ?d = cast (set_node c i n)" by (simp add: cast_def)
    moreover have "reached ?d e = reached (set_node c i n) e" for e by (simp add: reached_def)
    ultimately have "election_inv M ?d" using inv1 unfolding election_inv_def by simp
    with False show ?thesis by simp
  qed
qed

lemma election_inv_Win:
  assumes inv: "election_inv M c" and i: "i \<in> M" and run: "(i, t) \<in> running c" and r: "reached c (i, t)"
    and p: "promote (nodes c i) t = (ok, n)"
  shows "election_inv M ((set_node c i n)\<lparr>running := running c - {(i, t)},
    won := (if ok then insert (i, t) (won c) else won c)\<rparr>)" (is "election_inv M ?d")
proof -
  have n: "cfg n = cfg (nodes c i)" "nstate n = nstate (nodes c i)" "currentTerm n = currentTerm (nodes c i)"
      "votedFor n = votedFor (nodes c i)"
    and ok: "ok \<Longrightarrow> currentTerm n = t" and no: "\<not> ok \<Longrightarrow> n = nodes c i"
    using p by (auto simp: promote_def becomeLeaderLocked_eq split: if_splits)
  have hon: "honours n = honours (nodes c i)" by (simp add: honours_def on_record_def n fun_eq_iff)
  have conf: "configured M j n = configured M j (nodes c i)" for j by (simp add: configured_def n)
  have cast: "cast ?d = cast c" by (simp add: cast_def)
  have rr: "reached ?d e = reached c e" for e by (simp add: reached_def n)
  have st: "(i, t) \<in> started c" using inv run by (auto simp: election_inv_def)
  have "\<forall>j \<in> M. role (nodes ?d j) = Leader \<longrightarrow> (j, currentTerm (nodes ?d j)) \<in> won ?d"
    using inv ok no by (cases ok) (auto simp: election_inv_def)
  moreover have "\<forall>(j, u) \<in> won ?d. (j, u) \<in> started ?d \<and> reached ?d (j, u)"
    using inv st r unfolding rr by (auto simp: election_inv_def)
  moreover have "\<forall>j \<in> M. valid_utf8 j \<and> configured M j (nodes ?d j)"
    using inv by (auto simp: election_inv_def conf)
  moreover have "\<forall>(v, u, k) \<in> cast c. v \<in> M \<and> k \<in> M \<and> honours (nodes ?d v) u k"
    using inv by (auto simp: election_inv_def hon)
  ultimately show ?thesis
    using inv unfolding election_inv_def cast by auto
qed

lemma election_inv_Restart:
  assumes inv: "election_inv M c" and r: "restarts m0 (nodes c i) n" and i: "i \<in> M"
  shows "election_inv M (forget i (set_node c i n))"
proof (rule election_inv_step [OF inv])
  show "same_votes c (forget i (set_node c i n))" by (auto simp: same_votes_def forget_def)
  show "nodes (forget i (set_node c i n)) = (nodes c)(i := n)" by (simp add: forget_def)
  show "cfg n = cfg (nodes c i)" "role n = Leader \<Longrightarrow> role (nodes c i) = Leader \<and> currentTerm n = currentTerm (nodes c i)"
    using restarts_sel [OF r] by auto
  show "(nstate n = None) = (nstate (nodes c i) = None)"
    using restarts_sel [OF r] inv_member [OF inv i] by (auto simp: configured_def)
  show "honours n t k" if "honours (nodes c i) t k" for t k using r that by (rule honours_restart)
qed

text \<open>The steps that cast, count and win nothing, all at once.\<close>

lemma election_inv_silent:
  assumes "election_inv M c" and "same_votes c d" and "nodes d = nodes c"
  shows "election_inv M d"
proof -
  have "nodes d = (nodes c)(i := nodes c i)" for i using assms(3) by simp
  with assms show ?thesis by (intro election_inv_quiet [OF assms(1,2)]) auto
qed

text \<open>A step of one node that casts no vote, with changes elsewhere that do not concern votes.\<close>

lemma election_inv_other:
  assumes inv: "election_inv M c" and q: "votes_nothing (nodes c i) n" and "nodes d = (nodes c)(i := n)"
    and "started d = started c" "vote_replies d = vote_replies c" "tally d = tally c" "won d = won c"
    "vote_requests d = vote_requests c" "running d = running c"
  shows "election_inv M d"
  by (rule election_inv_quiet [OF inv _ _ q]) (simp_all add: assms same_votes_def)

theorem election_inv_cstep:
  assumes "cstep M m0 True orderly c d" and inv: "election_inv M c"
  shows "election_inv M d"
  using assms(1)
proof (cases rule: cstep.cases)
  case (Campaign i now req n)
  show ?thesis unfolding Campaign(1) using inv Campaign(2-4) by (rule election_inv_Campaign)
next
  case (Campaign_unsaved i now e n)
  show ?thesis unfolding Campaign_unsaved(1) using inv Campaign_unsaved(2-4) by (rule election_inv_campaign_node)
next
  case (Vote j req now resp n)
  show ?thesis unfolding Vote(1) using inv Vote(2-5) by (rule election_inv_Vote)
next
  case (Vote_error j req now e n)
  show ?thesis unfolding Vote_error(1) using inv Vote_error(2,3,5) by (rule election_inv_vote_node)
next
  case (Count i t j req resp ok n)
  show ?thesis unfolding Count(1) using inv Count(2,4,5,6,8) by (rule election_inv_Count)
next
  case (Win i t ok n)
  show ?thesis unfolding Win(1) using inv Win(2-5) by (rule election_inv_Win)
next
  case (Restart i n)
  show ?thesis unfolding Restart(1) using inv Restart(3,2) by (rule election_inv_Restart)
next
  case (Handle_append j req now r n)
  show ?thesis
    by (rule election_inv_other [OF inv handleAppendEntries_quiet [OF Handle_append(5)]]) (simp_all add: Handle_append(1))
next
  case (Reply i j req resp p b n)
  have "votes_nothing (nodes c i) n" using replicate_reply_quiet [of "nodes c i" p req resp] Reply(7) by simp
  then show ?thesis by (rule election_inv_other [OF inv]) (simp_all add: Reply(1))
next
  case (Probe_set i resp)
  have "votes_nothing (nodes c i) (probe_set (nodes c i) resp)"
    using Probe_set(4) by (intro probe_set_quiet) (simp add: probe_newer_def)
  then show ?thesis by (rule election_inv_other [OF inv]) (simp_all add: Probe_set(1))
next
  case (Handle_read j req r n)
  show ?thesis
    by (rule election_inv_other [OF inv read_term_quiet [OF Handle_read(4)]]) (simp_all add: Handle_read(1))
next
  case (Propose_append i t cmd r n)
  show ?thesis
    by (rule election_inv_other [OF inv propose_append_quiet [OF Propose_append(4)]]) (simp_all add: Propose_append(1))
next
  case (Advance i)
  show ?thesis by (rule election_inv_other [OF inv advanceCommit_quiet]) (simp add: Advance(1), simp_all add: Advance(1))
next
  case (Apply_do i e)
  show ?thesis by (rule election_inv_other [OF inv apply_one_quiet]) (simp add: Apply_do(1), simp_all add: Apply_do(1))
next
  case (Lose e)
  show ?thesis by (rule election_inv_silent [OF inv]) (auto simp: Lose(1) same_votes_def)
qed (rule election_inv_silent [OF inv]; simp add: same_votes_def)+

lemma election_inv_initial: "initial M c \<Longrightarrow> election_inv M c"
  by (auto simp: initial_def election_inv_def cast_def)

lemma election_inv_reachable:
  "reachable M m0 True orderly c d \<Longrightarrow> initial M c \<Longrightarrow> election_inv M d"
  by (induction rule: reachable.induct) (auto intro: election_inv_initial election_inv_cstep)

subsection \<open>Election Safety\<close>

lemma inv_cast: "election_inv M c \<Longrightarrow> (v, t, k) \<in> cast c \<Longrightarrow> v \<in> M"
  by (auto simp: election_inv_def)

lemma inv_unique: "election_inv M c \<Longrightarrow> \<forall>v t k k'. (v, t, k) \<in> cast c \<and> (v, t, k') \<in> cast c \<longrightarrow> k = k'"
  unfolding election_inv_def by (elim conjE)

lemma inv_cast_unique: "election_inv M c \<Longrightarrow> (v, t, k) \<in> cast c \<Longrightarrow> (v, t, k') \<in> cast c \<Longrightarrow> k = k'"
  using inv_unique [of M c] by blast

lemma inv_tallies: "election_inv M c \<Longrightarrow> \<forall>i t. tally c (i, t) \<subseteq> {v. (v, t, i) \<in> cast c} - {i}"
  unfolding election_inv_def by (elim conjE)

lemma inv_tally: "election_inv M c \<Longrightarrow> v \<in> tally c (i, t) \<Longrightarrow> (v, t, i) \<in> cast c \<and> v \<noteq> i"
  using inv_tallies [of M c] by blast

lemma inv_won: "election_inv M c \<Longrightarrow> (i, t) \<in> won c \<Longrightarrow> (i, t) \<in> started c \<and> reached c (i, t) \<and> i \<in> M"
  by (auto simp: election_inv_def)

text \<open>Who voted for the winner of an election.\<close>

definition electorate :: "'s cluster \<Rightarrow> NodeID \<Rightarrow> u64 \<Rightarrow> NodeID set" where
  "electorate c i t = insert i (tally c (i, t))"

lemma electorate_cast:
  assumes inv: "election_inv M c" and w: "(i, t) \<in> won c" and v: "v \<in> electorate c i t"
  shows "(v, t, i) \<in> cast c"
proof (cases "v = i")
  case True
  with inv_won [OF inv w] show ?thesis by (simp add: cast_iff)
next
  case False
  with v inv_tally [OF inv] show ?thesis by (simp add: electorate_def)
qed

lemma electorate_majority:
  assumes inv: "election_inv M c" and w: "(i, t) \<in> won c"
  shows "electorate c i t \<subseteq> M \<and> Majority (cfg (nodes c i)) \<le> card (electorate c i t)"
proof -
  have iM: "i \<in> M" and r: "reached c (i, t)" using inv_won [OF inv w] by auto
  have sub: "electorate c i t \<subseteq> M"
    using inv_cast [OF inv electorate_cast [OF inv w]] by (rule subsetI)
  then have "finite (tally c (i, t))"
    using members_fin [OF inv iM] finite_subset [of "electorate c i t" M] by (simp add: electorate_def)
  moreover have "i \<notin> tally c (i, t)" using inv_tally [OF inv, of i i t] by auto
  ultimately show ?thesis using r sub by (simp add: reached_def electorate_def)
qed

lemma won_unique:
  assumes inv: "election_inv M c" and i: "(i, t) \<in> won c" and k: "(k, t) \<in> won c"
  shows "i = k"
proof -
  note A = electorate_majority [OF inv i] and B = electorate_majority [OF inv k]
  have ci: "configured M i (nodes c i)" and ck: "configured M k (nodes c k)"
    using inv_member [OF inv] inv_won [OF inv i] inv_won [OF inv k] by auto
  then have maj: "Majority (cfg (nodes c k)) = Majority (cfg (nodes c i))"
    using card_members [of "cfg (nodes c i)"] card_members [of "cfg (nodes c k)"]
    by (simp add: Majority_def configured_def)
  have M: "members (cfg (nodes c i)) = M" using ci by (simp add: configured_def)
  obtain v where v: "v \<in> electorate c i t" "v \<in> electorate c k t"
    by (rule cluster.quorums_meet [of "electorate c i t" "cfg (nodes c i)" "electorate c k t"])
       (use A B maj M in simp_all)
  show ?thesis
    using electorate_cast [OF inv i v(1)] electorate_cast [OF inv k v(2)] by (rule inv_cast_unique [OF inv])
qed

text \<open>
  The abstract specification of elections: a table of which node leads which term, to which
  a step may add a line for a term that has none.
\<close>

definition elects :: "(NodeID \<times> u64) set \<Rightarrow> (NodeID \<times> u64) set \<Rightarrow> bool" where
  "elects L L' \<longleftrightarrow> L' = L \<or> (\<exists>i t. L' = insert (i, t) L \<and> (\<forall>k. (k, t) \<in> L \<longrightarrow> k = i))"

lemma won_step: "cstep M m0 strict orderly c d \<Longrightarrow> won d = won c \<or> (\<exists>e. won d = insert e (won c))"
  by (erule cstep_cases) (simp_all add: forget_def, metis)

lemma cstep_elects:
  assumes "election_inv M c" and step: "cstep M m0 True orderly c d"
  shows "elects (won c) (won d)"
proof -
  have inv: "election_inv M d" using step assms(1) by (rule election_inv_cstep)
  from won_step [OF step] show ?thesis
  proof
    assume "\<exists>e. won d = insert e (won c)"
    then obtain i t where "won d = insert (i, t) (won c)" by auto
    with won_unique [OF inv] show ?thesis by (fastforce simp: elects_def)
  qed (simp add: elects_def)
qed

end
