(* ===== verification/Raft_History.thy ===== *)
theory Raft_History
  imports Raft_Cluster Raft_Commit
begin

text \<open>
  What the logs of a cluster have to do with each other. Beside the state of the cluster we keep
  a history: for every term the log its leader has had, and for every candidacy the log of the
  candidate. Every log of the cluster can be traced to these. The lemmas of this theory are about
  lists; \<open>Raft_Safety\<close> states the invariant of the cluster over them.
\<close>

record history =
  glog :: "u64 \<Rightarrow> Record list"
  clog :: "NodeID \<times> u64 \<Rightarrow> Record list"

abbreviation log_of :: "'s cluster \<Rightarrow> NodeID \<Rightarrow> Record list" where
  "log_of c i \<equiv> entries (nlog (nodes c i))"

subsection \<open>Logs and the leaders their entries come from\<close>

text \<open>
  A log of a node in term \<open>t\<close>: its entries are in the order of their terms, none of a later term,
  and each came with everything before it from the log of the leader of its term.
\<close>

definition traced :: "(u64 \<Rightarrow> Record list) \<Rightarrow> u64 \<Rightarrow> Record list \<Rightarrow> bool" where
  "traced G t es \<longleftrightarrow> indexed es \<and> sorted (map Term es) \<and> (\<forall>k < length es. Term (es ! k) \<le> t) \<and>
     (\<forall>k. 0 < k \<and> k < length es \<longrightarrow> Term (es ! k) \<noteq> 0 \<and> take (Suc k) es = take (Suc k) (G (Term (es ! k))))"

definition grows :: "(u64 \<Rightarrow> Record list) \<Rightarrow> (u64 \<Rightarrow> Record list) \<Rightarrow> bool" where
  "grows G G' \<longleftrightarrow> (\<forall>t. take (length (G t)) (G' t) = G t)"

lemma take_Suc_less: "take (Suc k) es = take (Suc k) fs \<Longrightarrow> k < length fs \<Longrightarrow> k < length es"
  by (drule arg_cong [where f = length]) (simp add: min_def split: if_splits)

lemma take_nth_eq: "take (Suc k) es = take (Suc k) fs \<Longrightarrow> j \<le> k \<Longrightarrow> es ! j = fs ! j"
  by (metis le_imp_less_Suc nth_take)

lemma take_Suc_mono: "take (Suc k) es = take (Suc k) fs \<Longrightarrow> j \<le> k \<Longrightarrow> take (Suc j) es = take (Suc j) fs"
  by (erule take_eq_mono) simp

lemma grows_refl [simp]: "grows G G"
  by (simp add: grows_def)

lemma grows_take: "grows G G' \<Longrightarrow> k \<le> length (G t) \<Longrightarrow> take k (G' t) = take k (G t)"
  by (metis grows_def min_absorb1 take_take)

lemma grows_length: "grows G G' \<Longrightarrow> length (G t) \<le> length (G' t)"
  by (metis grows_def length_take min.cobounded1)

lemma grows_nth: "grows G G' \<Longrightarrow> k < length (G t) \<Longrightarrow> G' t ! k = G t ! k"
  using grows_take [of G G' "Suc k" t] by (metis Suc_leI lessI nth_take)

lemma grows_nonempty: "grows G G' \<Longrightarrow> G t \<noteq> [] \<Longrightarrow> G' t \<noteq> []"
  using grows_length [of G G' t] by auto

lemma traced_facts:
  assumes "traced G t es"
  shows "indexed es" "es \<noteq> []" "es ! 0 = sentinel" "length es < slice_max" "sorted (map Term es)"
    "k < length es \<Longrightarrow> Term (es ! k) \<le> t" "0 < k \<Longrightarrow> k < length es \<Longrightarrow> Term (es ! k) \<noteq> 0"
    "0 < k \<Longrightarrow> k < length es \<Longrightarrow> take (Suc k) es = take (Suc k) (G (Term (es ! k)))"
  using assms by (auto simp: traced_def indexed_def)

lemma sentinel_term [simp]: "Term sentinel = 0"
  by (simp add: sentinel_def zero_record_def)

lemma traced_term_0: "traced G t es \<Longrightarrow> k < length es \<Longrightarrow> Term (es ! k) = 0 \<Longrightarrow> k = 0"
  using traced_facts(7) by blast

lemma traced_take: "traced G t es \<Longrightarrow> 0 < m \<Longrightarrow> traced G t (take m es)"
  by (auto simp: traced_def indexed_take sorted_wrt_take min_def simp flip: take_map)

lemma traced_mono: "traced G t es \<Longrightarrow> t \<le> u \<Longrightarrow> traced G u es"
  by (auto simp: traced_def intro: order_trans)

lemma traced_grows:
  assumes "traced G t es" and "grows G G'"
  shows "traced G' t es"
  unfolding traced_def
proof (intro conjI allI impI)
  fix k assume k: "0 < k \<and> k < length es"
  then have e: "take (Suc k) es = take (Suc k) (G (Term (es ! k)))" using traced_facts(8) [OF assms(1)] by blast
  with k have "k < length (G (Term (es ! k)))" using take_Suc_less [OF e [symmetric]] by simp
  with e grows_take [OF assms(2), of "Suc k"] show "take (Suc k) es = take (Suc k) (G' (Term (es ! k)))" by simp
  show "Term (es ! k) \<noteq> 0" using k traced_facts(7) [OF assms(1)] by blast
qed (use traced_facts [OF assms(1)] in auto)

lemma traced_fresh: "traced G t [sentinel]"
  by (auto simp: traced_def indexed_def slice_max_def) (simp add: sentinel_def zero_record_def)

lemma traced_matching:
  assumes "traced G t es" and "traced G u fs"
  shows "matching es fs"
  unfolding matching_def
proof (intro allI impI)
  fix i assume i: "i < min (length es) (length fs)" and e: "Term (es ! i) = Term (fs ! i)"
  show "take (Suc i) es = take (Suc i) fs"
  proof (cases i)
    case 0
    then show ?thesis using traced_facts(2,3) [OF assms(1)] traced_facts(2,3) [OF assms(2)]
      by (cases es; cases fs) auto
  next
    case (Suc n)
    then show ?thesis using i e traced_facts(8) [OF assms(1), of i] traced_facts(8) [OF assms(2), of i] by simp
  qed
qed

lemma traced_snoc:
  assumes "traced G t es" and "Term e = t" and "t \<noteq> 0" and "Index e = of_nat (length es)"
    and "Suc (length es) < slice_max" and "G t = es"
  shows "traced (G(t := es @ [e])) t (es @ [e])"
proof -
  let ?G = "G(t := es @ [e])"
  have g: "grows G ?G" using assms(6) by (simp add: grows_def)
  have old: "traced ?G t es" using assms(1) g by (rule traced_grows)
  have ix: "indexed (es @ [e])" using traced_facts(1) [OF assms(1)] assms(5,4) by (rule indexed_snoc)
  have so: "sorted (map Term (es @ [e]))"
    using traced_facts(5,6) [OF assms(1)] assms(2) by (auto simp: sorted_append in_set_conv_nth)
  have le: "Term ((es @ [e]) ! k) \<le> t" if "k < length (es @ [e])" for k
    using that traced_facts(6) [OF assms(1)] assms(2) by (auto simp: nth_append less_Suc_eq)
  have new: "Term ((es @ [e]) ! k) \<noteq> 0 \<and> take (Suc k) (es @ [e]) = take (Suc k) (?G (Term ((es @ [e]) ! k)))"
    if "0 < k" "k < length (es @ [e])" for k
  proof (cases "k < length es")
    case True
    then show ?thesis using that traced_facts(7,8) [OF old, of k] by (simp add: nth_append)
  next
    case False
    with that have "k = length es" by simp
    then show ?thesis using assms(2,3) by (simp add: nth_append)
  qed
  show ?thesis unfolding traced_def using ix so le new by blast
qed

subsection \<open>Deviating leaders\<close>

text \<open>
  The leader of \<open>s\<close>, after \<open>t\<close>, does not have what the leader of \<open>t\<close> had up to \<open>k\<close>. Once
  it has not, it never will: what it adds is of its own term.
\<close>

definition deviates :: "(u64 \<Rightarrow> Record list) \<Rightarrow> u64 \<Rightarrow> nat \<Rightarrow> u64 \<Rightarrow> bool" where
  "deviates G t k s \<longleftrightarrow> t < s \<and> G s \<noteq> [] \<and> take (Suc k) (G s) \<noteq> take (Suc k) (G t)"

lemma deviates_snoc:
  assumes d: "deviates G t k s" and G: "\<And>t. G t \<noteq> [] \<Longrightarrow> traced G t (G t)" and k: "k < length (G t)"
    and e: "Term e = u" and g: "G' = G(u := G u @ [e])"
  shows "deviates G' t k s"
proof -
  have ts: "t < s" "G s \<noteq> []" "take (Suc k) (G s) \<noteq> take (Suc k) (G t)" using d by (auto simp: deviates_def)
  have gr: "grows G G'" by (simp add: grows_def g)
  have t': "take (Suc k) (G' t) = take (Suc k) (G t)" using gr k by (intro grows_take) simp_all
  have "take (Suc k) (G' s) \<noteq> take (Suc k) (G t)"
  proof
    assume eq: "take (Suc k) (G' s) = take (Suc k) (G t)"
    have "length (G s) \<le> k"
    proof (rule ccontr)
      assume "\<not> length (G s) \<le> k"
      then have "take (Suc k) (G' s) = take (Suc k) (G s)" by (intro grows_take [OF gr]) simp
      with eq ts(3) show False by simp
    qed
    moreover from this have su: "s = u" using eq k take_Suc_less [OF eq] g by (auto split: if_splits)
    ultimately have "Term (G' s ! length (G s)) = s" using g e by simp
    moreover have "G' s ! length (G s) = G t ! length (G s)" using take_nth_eq [OF eq] \<open>length (G s) \<le> k\<close> by simp
    moreover have "Term (G t ! length (G s)) \<le> t"
      using traced_facts(6) [OF G, of t] k \<open>length (G s) \<le> k\<close> by fastforce
    ultimately show False using ts(1) by simp
  qed
  with ts t' grows_nonempty [OF gr ts(2)] show ?thesis by (simp add: deviates_def)
qed

text \<open>
  Elections: a log that is up to date with one that has an entry of term \<open>t\<close> at \<open>k\<close>, and all before it,
  has them too, unless the leader its last entry came from deviates.
\<close>

lemma up_to_date_has:
  assumes voter: "traced G t0 es" and cand: "traced G s0 cs" and G: "G t \<noteq> [] \<Longrightarrow> traced G t (G t)"
    and has: "take (Suc k) es = take (Suc k) (G t)" and k: "k < length (G t)" "Term (G t ! k) = t" "t \<noteq> 0"
    and up: "Term (last es) < Term (last cs) \<or> Term (last cs) = Term (last es) \<and> length es \<le> length cs"
  shows "take (Suc k) cs = take (Suc k) (G t) \<or> (\<exists>s \<le> s0. deviates G t k s)"
proof -
  let ?m = "length cs - 1" and ?s = "Term (last cs)"
  have kes: "k < length es" using take_Suc_less [OF has k(1)] .
  have tk: "Term (es ! k) = t" using take_nth_eq [OF has, of k] k(2) by simp
  have "Term (es ! k) \<le> Term (last es)"
    using traced_facts(2,5) [OF voter] kes sorted_nth_mono [of "map Term es" k "length es - 1"]
    by (simp add: last_conv_nth)
  with tk have last: "t \<le> Term (last es)" by simp
  have lc: "last cs = cs ! ?m" "?m < length cs" using traced_facts(2) [OF cand] by (simp_all add: last_conv_nth)
  have ts: "t \<le> ?s" using up last by auto
  with k(3) have m: "0 < ?m" using lc traced_facts(3) [OF cand] by (metis gr0I sentinel_term word_le_0_iff)
  have full: "cs = take (Suc ?m) (G ?s)" using traced_facts(8) [OF cand m lc(2)] lc by simp
  show ?thesis
  proof (cases "?s = t")
    case True
    then have "Term (last es) = ?s" "length es \<le> length cs" using up last by auto
    then have "k \<le> ?m" using kes by simp
    then have "take (Suc k) cs = take (Suc k) (G ?s)" by (subst full) (simp add: min_def)
    with True show ?thesis by simp
  next
    case False
    with ts have lt: "t < ?s" by simp
    have gs: "G ?s \<noteq> []" using full traced_facts(2) [OF cand] by (metis take_Nil)
    have s0: "?s \<le> s0" using traced_facts(6) [OF cand lc(2)] lc(1) by simp
    show ?thesis
    proof (cases "take (Suc k) (G ?s) = take (Suc k) (G t)")
      case eq: True
      have "k \<le> ?m"
      proof (rule ccontr)
        assume "\<not> k \<le> ?m"
        then have "cs ! ?m = G t ! ?m"
          using take_nth_eq [OF eq, of ?m] full by (metis lessI nat_le_linear nth_take)
        moreover have "Term (G t ! ?m) \<le> t"
          using \<open>\<not> k \<le> ?m\<close> k(1) traced_facts(6) [OF G] by fastforce
        ultimately show False using lt lc(1) by simp
      qed
      then have "take (Suc k) cs = take (Suc k) (G ?s)" by (subst full) (simp add: min_def)
      with eq show ?thesis by simp
    next
      case False
      with lt gs s0 show ?thesis by (auto simp: deviates_def)
    qed
  qed
qed

subsection \<open>Messages of a leader\<close>

text \<open>
  The entries of an append request are a piece of the leader's log, or the request names a place
  before them that no log matches (when the leader does not have it yet itself).
\<close>

definition piece_of :: "Record list \<Rightarrow> AppendEntriesRequest \<Rightarrow> bool" where
  "piece_of lead req \<longleftrightarrow> unat (PrevLogIndex req) + length (Entries req) < length lead \<and>
     PrevLogTerm req = Term (lead ! unat (PrevLogIndex req)) \<and>
     Entries req = take (length (Entries req)) (drop (Suc (unat (PrevLogIndex req))) lead)"

definition nowhere :: "AppendEntriesRequest \<Rightarrow> bool" where
  "nowhere req \<longleftrightarrow> PrevLogTerm req = 0 \<and> PrevLogIndex req \<noteq> 0"

lemma piece_of_last_new:
  assumes "piece_of lead req" and "length lead < slice_max"
  shows "unat (last_new req) = unat (PrevLogIndex req) + length (Entries req)" "unat (last_new req) < length lead"
proof -
  have lt: "unat (PrevLogIndex req) + length (Entries req) < 2 ^ 64"
    using assms by (intro slice_max_u64) (simp add: piece_of_def)
  have "last_new req = of_nat (unat (PrevLogIndex req) + length (Entries req))" by (simp add: last_new_def)
  then show "unat (last_new req) = unat (PrevLogIndex req) + length (Entries req)"
    using unat_of_nat_u64 [OF lt] by presburger
  then show "unat (last_new req) < length lead" using assms(1) by (simp add: piece_of_def)
qed

lemma piece_of_grows:
  assumes "piece_of lead req" and "take (length lead) lead' = lead"
  shows "piece_of lead' req"
proof -
  let ?p = "unat (PrevLogIndex req)" and ?n = "length (Entries req)"
  from assms(1) have a: "?p + ?n < length lead" "PrevLogTerm req = Term (lead ! ?p)"
      "Entries req = take ?n (drop (Suc ?p) lead)"
    unfolding piece_of_def by blast+
  have len: "length lead \<le> length lead'" using assms(2) by (metis length_take min.cobounded1)
  have "drop (Suc ?p) lead = take (length lead - Suc ?p) (drop (Suc ?p) lead')"
    using assms(2) by (metis drop_take)
  then have "take ?n (drop (Suc ?p) lead) = take ?n (drop (Suc ?p) lead')" using a(1) by simp
  moreover have "lead ! ?p = lead' ! ?p" using assms(2) a(1) by (metis add_lessD1 nth_take)
  ultimately show ?thesis using a len unfolding piece_of_def by auto
qed

text \<open>
  What a follower's log is after such a message: a part of what it was or of the leader's log;
  on success the leader's up to the last new entry; and whatever of it the leader's log agrees
  with is still there.
\<close>

lemma AppendAfter_traced:
  assumes wf: "log_wf l" and tr: "traced G t0 (entries l)" and lead: "traced G t (G t)"
    and req: "piece_of (G t) req \<or> nowhere req"
    and run: "AppendAfter l (PrevLogIndex req) (PrevLogTerm req) (Entries req) = (res, l')"
  shows "log_wf l'" "\<exists>m > 0. entries l' = take m (entries l) \<or> entries l' = take m (G t)"
    "res = Inr True \<Longrightarrow> piece_of (G t) req \<and>
      take (Suc (unat (last_new req))) (entries l') = take (Suc (unat (last_new req))) (G t)"
    "k < length (entries l) \<Longrightarrow> take (Suc k) (entries l) = take (Suc k) (G t) \<Longrightarrow>
      take (Suc k) (entries l') = take (Suc k) (entries l)"
proof -
  let ?p = "unat (PrevLogIndex req)" and ?n = "length (Entries req)"
  have "log_wf l' \<and> (\<exists>m > 0. entries l' = take m (entries l) \<or> entries l' = take m (G t)) \<and>
    (res = Inr True \<longrightarrow> piece_of (G t) req \<and>
      take (Suc (unat (last_new req))) (entries l') = take (Suc (unat (last_new req))) (G t)) \<and>
    (k < length (entries l) \<and> take (Suc k) (entries l) = take (Suc k) (G t) \<longrightarrow>
      take (Suc k) (entries l') = take (Suc k) (entries l))"
  proof (cases "Match l (PrevLogIndex req) (PrevLogTerm req)")
    case False
    then have "l' = l" "res = Inr False" using run by (simp_all add: AppendAfter_def)
    moreover have "entries l = take (length (entries l)) (entries l) \<and> 0 < length (entries l)"
      using traced_facts(2) [OF tr] by simp
    ultimately show ?thesis using wf by blast
  next
    case True
    then have mt: "?p < length (entries l)" "Term (entries l ! ?p) = PrevLogTerm req" using wf by (simp_all add: Match_wf)
    have "\<not> nowhere req"
    proof
      assume n: "nowhere req"
      then have "?p \<noteq> 0" by (simp add: nowhere_def unat_eq_zero)
      with traced_facts(7) [OF tr _ mt(1)] mt(2) n show False by (simp add: nowhere_def)
    qed
    with req have pc: "piece_of (G t) req" by blast
    then have a: "?p + ?n < length (G t)" "PrevLogTerm req = Term (G t ! ?p)"
        "Entries req = take ?n (drop (?p + 1) (G t))"
      unfolding piece_of_def by auto
    have mat: "matching (G t) (entries l)" using lead tr by (rule traced_matching)
    have sz: "?p + 1 + ?n < slice_max" using a(1) traced_facts(4) [OF lead] by simp
    have num: "numbered_from (PrevLogIndex req) (Entries req)"
      unfolding numbered_from_def
    proof (intro allI impI)
      fix j assume j: "j < ?n"
      then have "Entries req ! j = G t ! (?p + 1 + j)"
        using a(1) by (subst a(3)) simp
      moreover have "?p + 1 + j < length (G t)" using j a(1) by simp
      ultimately show "Index (Entries req ! j) = of_nat (?p + 1 + j)"
        using traced_facts(1) [OF lead] by (simp add: indexed_def)
    qed
    note spec = AppendAfter_spec [OF wf run sz num]
    note from_leader = AppendAfter_from_leader [OF wf run traced_facts(1) [OF lead] _ a(2,3) mat]
    have pre: "take (?p + 1) (entries l) = take (?p + 1) (G t)"
      using mat mt a(1,2) by (auto simp: matching_def)
    note rl = repair_from_leader [OF mat pre _ _ a(3)]
    have rep: "repair (?p + 1) (entries l) (Entries req) = entries l \<or>
        repair (?p + 1) (entries l) (Entries req) = take (?p + 1 + ?n) (G t)"
      using rl mt a(1) by simp
    have "\<exists>m. entries l' = take m (entries l) \<or> entries l' = take m (G t)"
    proof -
      have "entries l' = entries l \<or> (\<exists>m. entries l' = take m (repair (?p + 1) (entries l) (Entries req)))"
        using spec True by (cases res) (auto simp: loop_result_def, metis order_refl take_all)
      with rep show ?thesis by (metis order_refl take_all take_take)
    qed
    moreover have ne: "log_wf l'" using spec by blast
    moreover from ne have "entries l' \<noteq> []" by (auto simp: log_wf_def indexed_def)
    ultimately have part: "\<exists>m > 0. entries l' = take m (entries l) \<or> entries l' = take m (G t)"
      by (metis gr0I take0)
    have "take (Suc k) (entries l') = take (Suc k) (entries l)"
      if k: "k < length (entries l)" and eq: "take (Suc k) (entries l) = take (Suc k) (G t)"
    proof (rule AppendAfter_keeps [OF wf run sz])
      show "\<forall>j < ?n. ?p + 1 + j < Suc k \<longrightarrow> Term (entries l ! (?p + 1 + j)) = Term (Entries req ! j)"
      proof (intro allI impI)
        fix j assume j: "j < ?n" and jk: "?p + 1 + j < Suc k"
        have "Entries req ! j = G t ! (?p + 1 + j)" using j a(1) by (subst a(3)) simp
        with take_nth_eq [OF eq, of "?p + 1 + j"] jk show "Term (entries l ! (?p + 1 + j)) = Term (Entries req ! j)" by simp
      qed
    qed (use k in simp)
    moreover have "res = Inr True \<Longrightarrow> take (Suc (unat (last_new req))) (entries l') = take (Suc (unat (last_new req))) (G t)"
      using from_leader piece_of_last_new(1) [OF pc traced_facts(4) [OF lead]] a(1) by simp
    ultimately show ?thesis using ne part pc by blast
  qed
  then show "log_wf l'" "\<exists>m > 0. entries l' = take m (entries l) \<or> entries l' = take m (G t)"
    "res = Inr True \<Longrightarrow> piece_of (G t) req \<and>
      take (Suc (unat (last_new req))) (entries l') = take (Suc (unat (last_new req))) (G t)"
    "k < length (entries l) \<Longrightarrow> take (Suc k) (entries l) = take (Suc k) (G t) \<Longrightarrow>
      take (Suc k) (entries l') = take (Suc k) (entries l)"
    by blast+
qed

end
