(* ===== verification/Raft_Safety.thy ===== *)
theory Raft_Safety
  imports Raft_History
begin

text \<open>
  State Machine Safety: in an orderly cluster (see \<open>Raft_Cluster\<close>) no two nodes ever apply different
  entries at the same place, so replicas that have applied equally much are in the same state.
  The theory follows the argument for Leader Completeness: an entry a majority has
  acknowledged in the term of its leader is in the log of every later leader.
\<close>

subsection \<open>What has been acknowledged and chosen\<close>

definition acked :: "'s cluster \<Rightarrow> history \<Rightarrow> NodeID \<Rightarrow> u64 \<Rightarrow> nat \<Rightarrow> bool" where
  "acked c h v t k \<longleftrightarrow>
     (\<exists>req resp. (v, req, resp) \<in> append_replies c \<and> Success resp \<and> aq_Term req = t \<and> k \<le> unat (last_new req)) \<or>
     (v, t) \<in> won c \<and> k < length (glog h t)"

text \<open>The leader of \<open>t\<close> has had an entry of its own term at \<open>k\<close>.\<close>

definition own :: "history \<Rightarrow> u64 \<Rightarrow> nat \<Rightarrow> bool" where
  "own h t k \<longleftrightarrow> k < length (glog h t) \<and> Term (glog h t ! k) = t \<and> t \<noteq> 0"

definition chosen :: "NodeID set \<Rightarrow> 's cluster \<Rightarrow> history \<Rightarrow> u64 \<Rightarrow> nat \<Rightarrow> bool" where
  "chosen M c h t k \<longleftrightarrow> own h t k \<and> (\<exists>Q \<subseteq> M. card M < 2 * card Q \<and> (\<forall>v \<in> Q. acked c h v t k))"

text \<open>A node's first \<open>x\<close> entries are those of a leader which had one chosen there or later.\<close>

definition settled :: "NodeID set \<Rightarrow> 's cluster \<Rightarrow> history \<Rightarrow> 's Node \<Rightarrow> nat \<Rightarrow> bool" where
  "settled M c h n x \<longleftrightarrow> x = 0 \<or> (\<exists>s k. s \<le> currentTerm n \<and> chosen M c h s k \<and> x \<le> k \<and>
     take (Suc x) (entries (nlog n)) = take (Suc x) (glog h s))"

definition commit_ok :: "NodeID set \<Rightarrow> 's cluster \<Rightarrow> history \<Rightarrow> u64 \<Rightarrow> nat \<Rightarrow> bool" where
  "commit_ok M c h t x \<longleftrightarrow> x = 0 \<or> (\<exists>s k. s \<le> t \<and> chosen M c h s k \<and> x \<le> k)"

subsection \<open>The invariant\<close>

text \<open>A node has what it acknowledged, unless a later leader it has heard of never had it.\<close>

definition remembers :: "'s cluster \<Rightarrow> history \<Rightarrow> NodeID \<Rightarrow> 's Node \<Rightarrow> bool" where
  "remembers c h v n \<longleftrightarrow> (\<forall>t k. own h t k \<and> acked c h v t k \<longrightarrow> t \<le> currentTerm n \<and>
     (take (Suc k) (entries (nlog n)) = take (Suc k) (glog h t) \<or>
      (\<exists>s \<le> currentTerm n. deviates (glog h) t k s)))"

text \<open>So has a candidate what its voters acknowledged before they voted.\<close>

definition vouches :: "'s cluster \<Rightarrow> history \<Rightarrow> NodeID \<Rightarrow> u64 \<Rightarrow> NodeID \<Rightarrow> bool" where
  "vouches c h v u i \<longleftrightarrow> (\<forall>t k. t < u \<and> own h t k \<and> acked c h v t k \<longrightarrow>
     take (Suc k) (clog h (i, u)) = take (Suc k) (glog h t) \<or> (\<exists>s < u. deviates (glog h) t k s))"

definition leading :: "'s cluster \<Rightarrow> history \<Rightarrow> 's Node \<Rightarrow> bool" where
  "leading c h n \<longleftrightarrow> entries (nlog n) = glog h (currentTerm n) \<and>
     (\<forall>p \<in> set (cfg_Peers (cfg n)). \<forall>k. 0 < k \<and> k \<le> unat (at0 (matchIndex n) (peer_ID p)) \<longrightarrow>
        acked c h (peer_ID p) (currentTerm n) k)"

definition standing :: "'s cluster \<Rightarrow> history \<Rightarrow> NodeID \<Rightarrow> 's Node \<Rightarrow> bool" where
  "standing c h v n \<longleftrightarrow> ((v, currentTerm n) \<in> started c \<longrightarrow>
     entries (nlog n) = clog h (v, currentTerm n) \<and> (v, currentTerm n) \<notin> won c)"

definition node_inv :: "NodeID set \<Rightarrow> 's \<Rightarrow> ('s \<Rightarrow> Record \<Rightarrow> 's) \<Rightarrow> 's cluster \<Rightarrow> history \<Rightarrow> NodeID \<Rightarrow>
    Record option \<Rightarrow> 's Node \<Rightarrow> bool" where
  "node_inv M m0 app c h v a n \<longleftrightarrow>
     log_wf (nlog n) \<and> traced (glog h) (currentTerm n) (entries (nlog n)) \<and>
     (role n = Leader \<longrightarrow> leading c h n) \<and> (role n = Candidate \<longrightarrow> standing c h v n) \<and> remembers c h v n \<and>
     settled M c h n (unat (commitIndex n)) \<and> settled M c h n (unat (lastApplied n)) \<and>
     apply_fn n = app \<and> machine n = foldl app m0 (take (unat (lastApplied n)) (tl (entries (nlog n)))) \<and>
     (\<forall>e. a = Some e \<longrightarrow> settled M c h n (Suc (unat (lastApplied n))) \<and>
        e = entries (nlog n) ! Suc (unat (lastApplied n)))"

definition history_inv :: "'s cluster \<Rightarrow> history \<Rightarrow> bool" where
  "history_inv c h \<longleftrightarrow>
     (\<forall>t. glog h t \<noteq> [] \<longleftrightarrow> (\<exists>i. (i, t) \<in> won c)) \<and>
     (\<forall>t. glog h t \<noteq> [] \<longrightarrow> traced (glog h) t (glog h t)) \<and>
     (\<forall>(i, t) \<in> started c. \<exists>s < t. traced (glog h) s (clog h (i, t))) \<and>
     (\<forall>(i, t) \<in> won c. take (length (clog h (i, t))) (glog h t) = clog h (i, t)) \<and>
     won c \<inter> running c = {}"

definition vote_inv :: "'s cluster \<Rightarrow> history \<Rightarrow> bool" where
  "vote_inv c h \<longleftrightarrow>
     (\<forall>req \<in> vote_requests c.
        vq_LastLogIndex req = of_nat (length (clog h (CandidateID req, vq_Term req)) - 1) \<and>
        vq_LastLogTerm req = Term (last (clog h (CandidateID req, vq_Term req)))) \<and>
     (\<forall>(v, u, i) \<in> cast c. (i, u) \<in> started c \<and> (glog h u = [] \<longrightarrow> vouches c h v u i)) \<and>
     (\<forall>(i, u) \<in> won c. \<forall>v \<in> electorate c i u. vouches c h v u i)"

definition sent_by :: "NodeID set \<Rightarrow> 's cluster \<Rightarrow> history \<Rightarrow> NodeID \<Rightarrow> AppendEntriesRequest \<Rightarrow> bool" where
  "sent_by M c h i req \<longleftrightarrow> aq_LeaderID req = i \<and> (i, aq_Term req) \<in> won c \<and>
     commit_ok M c h (aq_Term req) (unat (LeaderCommit req))"

definition anchored :: "history \<Rightarrow> AppendEntriesRequest \<Rightarrow> bool" where
  "anchored h req \<longleftrightarrow> nowhere req \<or> unat (PrevLogIndex req) < length (glog h (aq_Term req)) \<and>
     PrevLogTerm req = Term (glog h (aq_Term req) ! unat (PrevLogIndex req))"

definition message_inv :: "NodeID set \<Rightarrow> 's cluster \<Rightarrow> history \<Rightarrow> bool" where
  "message_inv M c h \<longleftrightarrow>
     (\<forall>(b, i, req) \<in> drafts c. sent_by M c h i req \<and> (b = 1 \<longrightarrow> anchored h req)) \<and>
     (\<forall>req \<in> append_requests c. sent_by M c h (aq_LeaderID req) req \<and>
        (piece_of (glog h (aq_Term req)) req \<or> nowhere req)) \<and>
     (\<forall>(j, req, resp) \<in> append_replies c. Success resp \<longrightarrow>
        unat (last_new req) < length (glog h (aq_Term req)))"

definition safe_inv :: "NodeID set \<Rightarrow> 's \<Rightarrow> ('s \<Rightarrow> Record \<Rightarrow> 's) \<Rightarrow> 's cluster \<Rightarrow> history \<Rightarrow> bool" where
  "safe_inv M m0 app c h \<longleftrightarrow> election_inv M c \<and> history_inv c h \<and> vote_inv c h \<and> message_inv M c h \<and>
     (\<forall>v \<in> M. node_inv M m0 app c h v (applying c v) (nodes c v))"

subsection \<open>Leader Completeness\<close>

lemma won_glog: "history_inv c h \<Longrightarrow> (i, t) \<in> won c \<Longrightarrow> glog h t \<noteq> [] \<and> traced (glog h) t (glog h t)"
  by (auto simp: history_inv_def)

lemma glog_won: "history_inv c h \<Longrightarrow> glog h t \<noteq> [] \<Longrightarrow> \<exists>i. (i, t) \<in> won c"
  by (auto simp: history_inv_def)

lemma glog_traced: "history_inv c h \<Longrightarrow> glog h t \<noteq> [] \<Longrightarrow> traced (glog h) t (glog h t)"
  by (auto simp: history_inv_def)

lemma own_traced: "history_inv c h \<Longrightarrow> own h t k \<Longrightarrow> traced (glog h) t (glog h t)"
  by (auto simp: own_def intro: glog_traced)

lemma electorate_half:
  assumes "election_inv M c" and "(i, u) \<in> won c"
  shows "electorate c i u \<subseteq> M \<and> card M < 2 * card (electorate c i u)"
proof -
  note e = electorate_majority [OF assms]
  have i: "i \<in> M" using inv_won [OF assms] by blast
  then have "configured M i (nodes c i)" using inv_member [OF assms(1)] by blast
  then have "card M < 2 * Majority (cfg (nodes c i))"
    using cluster.more_than_half [of "cfg (nodes c i)"] by (simp add: configured_def)
  with e show ?thesis by linarith
qed

lemma halves_meet:
  assumes "finite M" "A \<subseteq> M" "B \<subseteq> M" "card M < 2 * card A" "card M < 2 * card B"
  obtains v where "v \<in> A" "v \<in> B"
proof -
  have "A \<inter> B \<noteq> {}"
    using assms(1-3) by (rule majorities_meet) (use assms(4,5) in linarith)+
  then show thesis using that by blast
qed

lemma members_finite: "election_inv M c \<Longrightarrow> i \<in> M \<Longrightarrow> finite M"
  by (rule members_fin)

lemma won_clog: "history_inv c h \<Longrightarrow> (i, t) \<in> won c \<Longrightarrow> take (length (clog h (i, t))) (glog h t) = clog h (i, t)"
  unfolding history_inv_def by blast

lemma won_vouched: "vote_inv c h \<Longrightarrow> (i, u) \<in> won c \<Longrightarrow> v \<in> electorate c i u \<Longrightarrow> vouches c h v u i"
  unfolding vote_inv_def by blast

theorem leader_completeness:
  assumes el: "election_inv M c" and hi: "history_inv c h" and vi: "vote_inv c h"
    and ch: "chosen M c h t k" and u: "t < u" "glog h u \<noteq> []"
  shows "take (Suc k) (glog h u) = take (Suc k) (glog h t)"
  using u
proof (induction "unat u" arbitrary: u rule: less_induct)
  case less
  obtain i where w: "(i, u) \<in> won c" using glog_won [OF hi less.prems(2)] by blast
  obtain Q where Q: "Q \<subseteq> M" "card M < 2 * card Q" "\<And>v. v \<in> Q \<Longrightarrow> acked c h v t k" and ow: "own h t k"
    using ch unfolding chosen_def by blast
  have fin: "finite M" using inv_won [OF el w] members_finite [OF el] by blast
  obtain v where v: "v \<in> Q" "v \<in> electorate c i u"
    using electorate_half [OF el w] by (elim conjE halves_meet [OF fin Q(1) _ Q(2)])
  have "vouches c h v u i" using vi w v(2) by (rule won_vouched)
  then consider "take (Suc k) (clog h (i, u)) = take (Suc k) (glog h t)" | s where "s < u" "deviates (glog h) t k s"
    using less.prems(1) ow Q(3) [OF v(1)] unfolding vouches_def by blast
  then show ?case
  proof cases
    case 1
    then have "k < length (clog h (i, u))" using ow take_Suc_less unfolding own_def by blast
    moreover have "take (length (clog h (i, u))) (glog h u) = clog h (i, u)"
      using hi w by (rule won_clog)
    ultimately have "take (Suc k) (glog h u) = take (Suc k) (clog h (i, u))"
      using take_take [of "Suc k" "length (clog h (i, u))" "glog h u"] by simp
    with 1 show ?thesis by simp
  next
    case (2 s)
    then have "t < s" "glog h s \<noteq> []" by (simp_all add: deviates_def)
    with 2(1) have "take (Suc k) (glog h s) = take (Suc k) (glog h t)"
      by (intro less.hyps) (simp_all add: word_less_nat_alt)
    with 2 show ?thesis by (simp add: deviates_def)
  qed
qed

text \<open>So any two places that are settled agree.\<close>

lemma settled_log:
  assumes "election_inv M c" and "history_inv c h" and "vote_inv c h" and "settled M c h n x" and "0 < x"
    and "currentTerm n \<le> t" and "glog h t \<noteq> []"
  shows "take (Suc x) (entries (nlog n)) = take (Suc x) (glog h t)"
proof -
  obtain s k where s: "s \<le> currentTerm n" "chosen M c h s k" "x \<le> k"
      "take (Suc x) (entries (nlog n)) = take (Suc x) (glog h s)"
    using assms(4,5) by (auto simp: settled_def)
  show ?thesis
  proof (cases "s = t")
    case False
    with s(1) assms(6) have "s < t" by simp
    from leader_completeness [OF assms(1-3) s(2) this assms(7)] s(3)
    have "take (Suc x) (glog h t) = take (Suc x) (glog h s)" by (rule take_Suc_mono)
    with s(4) show ?thesis by simp
  qed (use s in simp)
qed

theorem settled_agree:
  assumes "election_inv M c" and "history_inv c h" and "vote_inv c h"
    and "settled M c h n x" and "settled M c h m y" and "x \<le> y" and "0 < x"
  shows "take (Suc x) (entries (nlog n)) = take (Suc x) (entries (nlog m))"
proof -
  obtain s k where s: "chosen M c h s k" "x \<le> k" "take (Suc x) (entries (nlog n)) = take (Suc x) (glog h s)"
    using assms(4,7) by (auto simp: settled_def)
  obtain u j where u: "chosen M c h u j" "y \<le> j" "take (Suc y) (entries (nlog m)) = take (Suc y) (glog h u)"
    using assms(5-7) by (auto simp: settled_def)
  have m: "take (Suc x) (entries (nlog m)) = take (Suc x) (glog h u)" using u(3) assms(6) by (rule take_Suc_mono)
  have ne: "glog h s \<noteq> []" "glog h u \<noteq> []" using s(1) u(1) by (auto simp: chosen_def own_def)
  consider "s < u" | "s = u" | "u < s" by (rule linorder_cases)
  then have "take (Suc x) (glog h s) = take (Suc x) (glog h u)"
  proof cases
    case 1
    from leader_completeness [OF assms(1-3) s(1) 1 ne(2)] s(2) show ?thesis by (metis take_Suc_mono)
  next
    case 3
    from leader_completeness [OF assms(1-3) u(1) 3 ne(1)] u(2) assms(6) show ?thesis
      by (metis order_trans take_Suc_mono)
  qed simp
  with s(3) m show ?thesis by simp
qed

end
