(* ===== verification/Raft_Orderly.thy ===== *)
theory Raft_Orderly
  imports Raft_Safety
begin

text \<open>
  Every step of an orderly cluster keeps the invariant of \<open>Raft_Safety\<close>, for a history that goes on
  from the one before the step. First, what survives when the history grows; then steps that
  leave it as it is. The steps themselves are in \<open>Raft_Steps\<close>.
\<close>

subsection \<open>When the history grows\<close>

definition later :: "'s cluster \<Rightarrow> history \<Rightarrow> 's cluster \<Rightarrow> history \<Rightarrow> bool" where
  "later c h d g \<longleftrightarrow> grows (glog h) (glog g) \<and> won c \<subseteq> won d \<and> append_replies c \<subseteq> append_replies d \<and>
     (\<forall>t k s. own h t k \<and> deviates (glog h) t k s \<longrightarrow> deviates (glog g) t k s)"

lemma later_same: "glog g = glog h \<Longrightarrow> won c \<subseteq> won d \<Longrightarrow> append_replies c \<subseteq> append_replies d \<Longrightarrow> later c h d g"
  by (simp add: later_def)

lemma own_take: "later c h d g \<Longrightarrow> own h t k \<Longrightarrow> take (Suc k) (glog g t) = take (Suc k) (glog h t)"
  by (intro grows_take) (auto simp: later_def own_def)

lemma own_later:
  assumes "later c h d g" and "own h t k"
  shows "own g t k"
proof -
  have "grows (glog h) (glog g)" using assms(1) by (simp add: later_def)
  with assms(2) grows_length [of "glog h" "glog g" t] grows_nth [of "glog h" "glog g" k t] show ?thesis
    by (simp add: own_def)
qed

lemma acked_later: "later c h d g \<Longrightarrow> acked c h v t k \<Longrightarrow> acked d g v t k"
  using grows_length [of "glog h" "glog g" t] unfolding acked_def later_def by (metis order_less_le_trans subsetD)

lemma chosen_later: "later c h d g \<Longrightarrow> chosen M c h t k \<Longrightarrow> chosen M d g t k"
  unfolding chosen_def by (meson acked_later own_later)

lemma commit_ok_later: "later c h d g \<Longrightarrow> commit_ok M c h t x \<Longrightarrow> commit_ok M d g t x"
  unfolding commit_ok_def by (meson chosen_later)

lemma settled_later:
  assumes "later c h d g" and "settled M c h n x"
  shows "settled M d g n x"
proof (cases "x = 0")
  case False
  then obtain s k where s: "s \<le> currentTerm n" "chosen M c h s k" "x \<le> k"
      "take (Suc x) (entries (nlog n)) = take (Suc x) (glog h s)"
    using assms(2) by (auto simp: settled_def)
  have "own h s k" using s(2) by (simp add: chosen_def)
  from take_Suc_mono [OF own_take [OF assms(1) this] s(3)] s(4)
  have "take (Suc x) (entries (nlog n)) = take (Suc x) (glog g s)" by simp
  with s(1,3) chosen_later [OF assms(1) s(2)] show ?thesis unfolding settled_def by blast
qed (simp add: settled_def)

text \<open>Nothing new has been acknowledged by \<open>v\<close> in a term before \<open>u\<close>.\<close>

definition no_new_acks :: "'s cluster \<Rightarrow> history \<Rightarrow> 's cluster \<Rightarrow> history \<Rightarrow> NodeID \<Rightarrow> (u64 \<Rightarrow> bool) \<Rightarrow> bool" where
  "no_new_acks c h d g v P \<longleftrightarrow> (\<forall>t k. P t \<and> own g t k \<and> acked d g v t k \<longrightarrow> own h t k \<and> acked c h v t k)"

lemma remembers_later:
  assumes l: "later c h d g" and "no_new_acks c h d g v (\<lambda>_. True)" and "remembers c h v n"
  shows "remembers d g v n"
  unfolding remembers_def
proof (intro allI impI)
  fix t k assume "own g t k \<and> acked d g v t k"
  then have a: "own h t k" "acked c h v t k" using assms(2) by (auto simp: no_new_acks_def)
  with assms(3) have r: "t \<le> currentTerm n" "take (Suc k) (entries (nlog n)) = take (Suc k) (glog h t) \<or>
      (\<exists>s \<le> currentTerm n. deviates (glog h) t k s)"
    unfolding remembers_def by blast+
  have "\<exists>s \<le> currentTerm n. deviates (glog g) t k s" if "\<exists>s \<le> currentTerm n. deviates (glog h) t k s"
    using that l a(1) unfolding later_def by blast
  with r own_take [OF l a(1)]
  show "t \<le> currentTerm n \<and> (take (Suc k) (entries (nlog n)) = take (Suc k) (glog g t) \<or>
      (\<exists>s \<le> currentTerm n. deviates (glog g) t k s))" by auto
qed

lemma vouches_later:
  assumes l: "later c h d g" and "no_new_acks c h d g v (\<lambda>t. t < u)" and "clog g (i, u) = clog h (i, u)"
    and "vouches c h v u i"
  shows "vouches d g v u i"
  unfolding vouches_def
proof (intro allI impI)
  fix t k assume t: "t < u \<and> own g t k \<and> acked d g v t k"
  then have a: "own h t k" "acked c h v t k" using assms(2) by (auto simp: no_new_acks_def)
  with t assms(4) have r: "take (Suc k) (clog h (i, u)) = take (Suc k) (glog h t) \<or> (\<exists>s < u. deviates (glog h) t k s)"
    unfolding vouches_def by blast
  have "\<exists>s < u. deviates (glog g) t k s" if "\<exists>s < u. deviates (glog h) t k s"
    using that l a(1) unfolding later_def by blast
  with r own_take [OF l a(1)] assms(3)
  show "take (Suc k) (clog g (i, u)) = take (Suc k) (glog g t) \<or> (\<exists>s < u. deviates (glog g) t k s)" by auto
qed

lemma leading_later: "later c h d g \<Longrightarrow> glog g (currentTerm n) = glog h (currentTerm n) \<Longrightarrow> leading c h n \<Longrightarrow> leading d g n"
  using acked_later [of c h d g] unfolding leading_def by simp

lemma node_inv_later:
  assumes l: "later c h d g" and i: "node_inv M m0 app c h v a n" and "no_new_acks c h d g v (\<lambda>_. True)"
    and "role n = Leader \<Longrightarrow> glog g (currentTerm n) = glog h (currentTerm n)"
    and "role n = Candidate \<Longrightarrow> standing d g v n"
  shows "node_inv M m0 app d g v a n"
proof -
  have "grows (glog h) (glog g)" using l by (simp add: later_def)
  with i assms(4,5) show ?thesis
    using remembers_later [OF l assms(3)] settled_later [OF l] leading_later [OF l] traced_grows
    unfolding node_inv_def by blast
qed

subsection \<open>When a node moves on\<close>

lemma settled_take:
  "settled M c h n x \<Longrightarrow> currentTerm n \<le> currentTerm m \<Longrightarrow>
   (0 < x \<Longrightarrow> take (Suc x) (entries (nlog m)) = take (Suc x) (entries (nlog n))) \<Longrightarrow> settled M c h m x"
  unfolding settled_def by (cases "x = 0") (simp, metis gr0I order_trans)

lemma settled_mono:
  "settled M c h n x \<Longrightarrow> currentTerm n \<le> currentTerm m \<Longrightarrow> entries (nlog m) = entries (nlog n) \<Longrightarrow> settled M c h m x"
  by (rule settled_take) simp_all

lemma settled_length:
  assumes "settled M c h n x" and "entries (nlog n) \<noteq> []"
  shows "x < length (entries (nlog n))"
proof (cases "x = 0")
  case False
  then obtain s k where "x \<le> k" "own h s k" "take (Suc x) (entries (nlog n)) = take (Suc x) (glog h s)"
    using assms(1) by (auto simp: settled_def chosen_def)
  then show ?thesis using take_Suc_less [of x "entries (nlog n)" "glog h s"] by (simp add: own_def)
qed (use assms(2) in simp)

lemma remembers_mono:
  "remembers c h v n \<Longrightarrow> currentTerm n \<le> currentTerm m \<Longrightarrow> entries (nlog m) = entries (nlog n) \<Longrightarrow> remembers c h v m"
  unfolding remembers_def by (simp only:) (blast intro: order_trans)

text \<open>The log and what has been applied stay; the term may rise.\<close>

lemma node_inv_moves:
  assumes i: "node_inv M m0 app c h v a n" and t: "currentTerm n \<le> currentTerm m"
    and e: "entries (nlog m) = entries (nlog n)" and wf: "log_wf (nlog m)"
    and "role m = Leader \<Longrightarrow> leading c h m" and "role m = Candidate \<Longrightarrow> standing c h v m"
    and "settled M c h m (unat (commitIndex m))"
    and s: "lastApplied m = lastApplied n" "machine m = machine n" "apply_fn m = apply_fn n"
  shows "node_inv M m0 app c h v a m"
proof -
  from i have n: "traced (glog h) (currentTerm n) (entries (nlog n))" "remembers c h v n"
      "settled M c h n (unat (lastApplied n))" "apply_fn n = app"
      "machine n = foldl app m0 (take (unat (lastApplied n)) (tl (entries (nlog n))))"
      "\<And>e. a = Some e \<Longrightarrow> settled M c h n (Suc (unat (lastApplied n))) \<and> e = entries (nlog n) ! Suc (unat (lastApplied n))"
    unfolding node_inv_def by blast+
  have "traced (glog h) (currentTerm m) (entries (nlog m))" using traced_mono [OF n(1) t] e by simp
  moreover have "remembers c h v m" using n(2) t e by (rule remembers_mono)
  moreover have se: "settled M c h m x" if "settled M c h n x" for x using that t e by (rule settled_mono)
  moreover have "apply_fn m = app" "machine m = foldl app m0 (take (unat (lastApplied m)) (tl (entries (nlog m))))"
    using n(4,5) s e by simp_all
  moreover have "settled M c h m (unat (lastApplied m))" using se [OF n(3)] s(1) by simp
  moreover have "settled M c h m (Suc (unat (lastApplied m))) \<and> x = entries (nlog m) ! Suc (unat (lastApplied m))"
    if "a = Some x" for x using n(6) [OF that] se s(1) e by simp
  ultimately show ?thesis using wf assms(5-7) unfolding node_inv_def by (intro conjI impI allI) blast+
qed

text \<open>A step that concerns neither log nor commit index, and makes no leader or candidate.\<close>

lemma node_inv_calm:
  assumes i: "node_inv M m0 app c h v a n" and t: "currentTerm n \<le> currentTerm m" and l: "nlog m = nlog n"
    and lead: "role m = Leader \<Longrightarrow> role n = Leader \<and> currentTerm m = currentTerm n \<and> cfg m = cfg n \<and> matchIndex m = matchIndex n"
    and cand: "role m = Candidate \<Longrightarrow> role n = Candidate \<and> currentTerm m = currentTerm n"
    and s: "commitIndex m = commitIndex n" "lastApplied m = lastApplied n" "machine m = machine n" "apply_fn m = apply_fn n"
  shows "node_inv M m0 app c h v a m"
  using i t
proof (rule node_inv_moves)
  show "leading c h m" if "role m = Leader" using lead [OF that] i l by (simp add: node_inv_def leading_def)
  show "standing c h v m" if "role m = Candidate" using cand [OF that] i l by (simp add: node_inv_def standing_def)
  show "settled M c h m (unat (commitIndex m))"
    using i s(1) settled_mono [OF _ t, of M c h] l by (simp add: node_inv_def)
  show "log_wf (nlog m)" using i l by (simp add: node_inv_def)
qed (use l s in simp_all)

subsection \<open>Steps that leave the history as it is\<close>

definition same_past :: "'s cluster \<Rightarrow> 's cluster \<Rightarrow> bool" where
  "same_past c d \<longleftrightarrow> started d = started c \<and> won d = won c \<and> append_replies d = append_replies c"

lemma same_past_acked: "same_past c d \<Longrightarrow> acked d h = acked c h"
  by (simp add: fun_eq_iff acked_def same_past_def)

lemma same_past_chosen: "same_past c d \<Longrightarrow> chosen M d h = chosen M c h"
  by (simp add: fun_eq_iff chosen_def same_past_acked)

lemma same_past_node: "same_past c d \<Longrightarrow> node_inv M m0 app d h = node_inv M m0 app c h"
  by (simp add: fun_eq_iff node_inv_def leading_def standing_def remembers_def settled_def same_past_acked same_past_chosen)
     (simp add: same_past_def)

lemma same_past_sent: "same_past c d \<Longrightarrow> sent_by M d h = sent_by M c h"
  by (simp add: fun_eq_iff sent_by_def commit_ok_def same_past_chosen) (simp add: same_past_def)

lemma message_inv_sub:
  assumes "message_inv M c h" and "same_past c d" and "drafts d \<subseteq> drafts c" and "append_requests d \<subseteq> append_requests c"
  shows "message_inv M d h"
proof -
  have "append_replies d = append_replies c" using assms(2) by (simp add: same_past_def)
  with assms(1,3,4) show ?thesis unfolding message_inv_def same_past_sent [OF assms(2)] by (simp only:) blast
qed

lemma history_inv_same:
  assumes "history_inv c h" and "same_past c d" and "running d \<subseteq> running c"
  shows "history_inv d h"
proof -
  have "won d = won c" "started d = started c" using assms(2) by (simp_all add: same_past_def)
  with assms(1,3) show ?thesis unfolding history_inv_def by (simp only:) blast
qed

lemma vote_inv_same:
  assumes "vote_inv c h" and p: "same_past c d" and "cast d = cast c" and "vote_requests d = vote_requests c"
    and "\<forall>e \<in> won c. tally d e = tally c e"
  shows "vote_inv d h"
proof -
  have "vouches d h = vouches c h" by (simp add: fun_eq_iff vouches_def same_past_acked [OF p])
  moreover have "electorate d i u = electorate c i u" if "(i, u) \<in> won c" for i u
    using that assms(5) by (auto simp: electorate_def)
  moreover have "won d = won c" "started d = started c" using p by (simp_all add: same_past_def)
  ultimately show ?thesis using assms(1,3,4) by (simp add: vote_inv_def split_beta)
qed

lemma safe_inv_node:
  assumes inv: "safe_inv M m0 app c h" and el: "election_inv M d" and p: "same_past c d"
    and n: "nodes d = (nodes c)(i := n)" and a: "\<forall>w. w \<noteq> i \<longrightarrow> applying d w = applying c w"
    and r: "running d \<subseteq> running c" and v: "vote_inv d h"
    and msg: "message_inv M d h" and ni: "i \<in> M \<Longrightarrow> node_inv M m0 app c h i (applying d i) n"
  shows "safe_inv M m0 app d h"
proof -
  have "node_inv M m0 app d h w (applying d w) (nodes d w)" if "w \<in> M" for w
    using that inv ni a unfolding same_past_node [OF p] by (cases "w = i") (simp_all add: n safe_inv_def)
  moreover have "history_inv d h" using inv p r by (auto simp: safe_inv_def intro: history_inv_same)
  ultimately show ?thesis using el msg v by (simp add: safe_inv_def)
qed

lemma safe_inv_same:
  assumes inv: "safe_inv M m0 app c h" and el: "election_inv M d" and sv: "same_votes c d"
    and r: "append_replies d = append_replies c" and n: "nodes d = (nodes c)(i := n)"
    and a: "\<forall>w. w \<noteq> i \<longrightarrow> applying d w = applying c w"
    and msg: "message_inv M d h" and ni: "i \<in> M \<Longrightarrow> node_inv M m0 app c h i (applying d i) n"
  shows "safe_inv M m0 app d h"
proof -
  have p: "same_past c d" using sv r by (simp add: same_past_def same_votes_def)
  have "vote_inv d h"
    using inv sv cast_same [OF sv] by (intro vote_inv_same [OF _ p]) (simp_all add: safe_inv_def same_votes_def)
  then show ?thesis
    using sv by (intro safe_inv_node [OF inv el p n a _ _ msg ni]) (simp_all add: same_votes_def)
qed

text \<open>The common case: one node changes, in nothing that matters here.\<close>

lemma safe_inv_calm:
  assumes inv: "safe_inv M m0 app c h" and el: "election_inv M d" and sv: "same_votes c d"
    and r: "append_replies d = append_replies c" and n: "nodes d = (nodes c)(i := n)" and a: "applying d = applying c"
    and dr: "drafts d \<subseteq> drafts c" "append_requests d \<subseteq> append_requests c"
    and i: "i \<in> M \<Longrightarrow> node_inv M m0 app c h i (applying c i) n"
  shows "safe_inv M m0 app d h"
proof -
  have p: "same_past c d" using sv r by (simp add: same_past_def same_votes_def)
  have "message_inv M d h" using inv p dr by (auto simp: safe_inv_def intro: message_inv_sub)
  then show ?thesis using a i by (intro safe_inv_same [OF inv el sv r n]) auto
qed

lemma safe_node: "safe_inv M m0 app c h \<Longrightarrow> i \<in> M \<Longrightarrow> node_inv M m0 app c h i (applying c i) (nodes c i)"
  by (simp add: safe_inv_def)

end
