(* ===== verification/Raft_Steps.thy ===== *)
theory Raft_Steps
  imports Raft_Orderly
begin

text \<open>
  The steps of an orderly cluster, one by one: each keeps the invariant of \<open>Raft_Safety\<close>, for a
  history that goes on from the one before. What follows from that is in \<open>Raft_Agreement\<close>.
\<close>

subsection \<open>Calm operations\<close>

text \<open>What most critical sections do to what matters here: nothing, or a step down.\<close>

definition calm :: "'s Node \<Rightarrow> 's Node \<Rightarrow> bool" where
  "calm n m \<longleftrightarrow> currentTerm n \<le> currentTerm m \<and> nlog m = nlog n \<and> cfg m = cfg n \<and>
     (role m = Leader \<longrightarrow> role n = Leader \<and> currentTerm m = currentTerm n \<and> matchIndex m = matchIndex n) \<and>
     (role m = Candidate \<longrightarrow> role n = Candidate \<and> currentTerm m = currentTerm n) \<and>
     commitIndex m = commitIndex n \<and> lastApplied m = lastApplied n \<and> machine m = machine n \<and> apply_fn m = apply_fn n"

lemma calm_refl [simp]: "calm n n"
  by (simp add: calm_def)

lemma calm_trans: "calm n m \<Longrightarrow> calm m k \<Longrightarrow> calm n k"
  unfolding calm_def by (intro conjI impI) (auto intro: order_trans)

lemma calm_setTermLocked: "setTermLocked n t = (e, m) \<Longrightarrow> currentTerm n < t \<Longrightarrow> calm n m"
  by (drule setTermLocked_sel) (simp add: calm_def)

lemma calm_setTerm: "currentTerm n < t \<Longrightarrow> calm n (snd (setTermLocked n t))"
  by (rule calm_setTermLocked [OF prod.collapse [symmetric]])

lemma calm_adopt: "adopt n t = (e, m) \<Longrightarrow> calm n m"
  by (auto simp: adopt_def intro: calm_setTermLocked split: if_splits)

lemma calm_persist: "persistLocked (n\<lparr>votedFor := v\<rparr>) = (e, m) \<Longrightarrow> calm n m"
  by (drule persistLocked_sel) (simp add: calm_def)

lemma calm_HandleRequestVote:
  assumes run: "HandleRequestVote n req now = (r, n')"
  shows "calm n n'"
proof -
  obtain e m where a: "adopt n (vq_Term req) = (e, m)" by fastforce
  obtain e2 k where p: "persistLocked (m\<lparr>votedFor := CandidateID req\<rparr>) = (e2, k)" by fastforce
  have c: "calm n m" "calm n k" using calm_adopt [OF a] calm_persist [OF p] by (auto intro: calm_trans)
  then have "calm n (k\<lparr>lastHeard := now\<rparr>)" by (simp add: calm_def)
  moreover have "n' = n \<or> n' = m \<or> n' = k \<or> n' = k\<lparr>lastHeard := now\<rparr>"
    using run by (auto simp: HandleRequestVote_def adopt_def [symmetric] a p noteContactLocked_def Let_def
        split: option.splits if_splits)
  ultimately show ?thesis using c by auto
qed

lemma calm_vote_reply: "vote_reply n resp = (ok, m) \<Longrightarrow> calm n m"
  by (auto simp: vote_reply_def intro: calm_setTerm split: if_splits)

lemma calm_probe_set: "probe_newer n resp \<Longrightarrow> calm n (probe_set n resp)"
  by (simp add: probe_newer_def probe_set_def calm_setTerm)

lemma calm_read_term: "read_term n req = (r, m) \<Longrightarrow> calm n m"
  by (auto simp: read_term_def intro: calm_setTermLocked split: prod.splits option.splits if_splits)

lemma calm_advance: "role n \<noteq> Leader \<Longrightarrow> calm n (advanceCommit n)"
  by (simp add: advanceCommit_def)

lemma calm_promote: "promote n t = (False, m) \<Longrightarrow> calm n m"
  by (auto simp: promote_def split: if_splits)

lemma calm_reply:
  assumes "replicate_reply n p req resp = (b, m)" and "\<not> Success resp \<or> currentTerm n < ar_Term resp"
  shows "calm n m"
proof (cases "currentTerm n < ar_Term resp")
  case True
  then show ?thesis using assms(1) by (auto simp: replicate_reply_def intro: calm_setTerm)
next
  case False
  then show ?thesis using assms by (auto simp: replicate_reply_def Let_def calm_def split: if_splits)
qed

lemma node_inv_calm_step: "node_inv M m0 app c h v a n \<Longrightarrow> calm n m \<Longrightarrow> node_inv M m0 app c h v a m"
  by (erule node_inv_calm) (simp_all add: calm_def)

lemma safe_inv_calm_step:
  assumes "safe_inv M m0 app c h" and "election_inv M d" and "same_votes c d"
    and "append_replies d = append_replies c" and "nodes d = (nodes c)(i := n)" and "applying d = applying c"
    and "drafts d = drafts c" "append_requests d = append_requests c" and "calm (nodes c i) n"
  shows "safe_inv M m0 app d h"
  using assms(1-6)
proof (rule safe_inv_calm)
  show "node_inv M m0 app c h i (applying c i) n" if "i \<in> M"
    using safe_node [OF assms(1) that] assms(9) by (rule node_inv_calm_step)
qed (use assms(7,8) in simp_all)

lemma safe_inv_silent:
  assumes "safe_inv M m0 app c h" and "election_inv M d" and "same_votes c d"
    and "append_replies d = append_replies c" and "nodes d = nodes c" and "applying d = applying c"
    and "drafts d = drafts c" "append_requests d = append_requests c"
  shows "safe_inv M m0 app d h"
  using assms(1-4) by (rule safe_inv_calm_step [where i = "[]" and n = "nodes c []"]) (use assms in auto)

lemma safe_election: "safe_inv M m0 app c h \<Longrightarrow> election_inv M c"
  and safe_history: "safe_inv M m0 app c h \<Longrightarrow> history_inv c h"
  and safe_vote: "safe_inv M m0 app c h \<Longrightarrow> vote_inv c h"
  and safe_message: "safe_inv M m0 app c h \<Longrightarrow> message_inv M c h"
  by (simp_all add: safe_inv_def)

subsection \<open>When the history goes on\<close>

lemma safe_inv_grows:
  assumes inv: "safe_inv M m0 app c h" and el: "election_inv M d" and l: "later c h d g"
    and n: "nodes d = (nodes c)(i := n)" and a: "applying d = applying c"
    and hist: "history_inv d g" and vote: "vote_inv d g" and msg: "message_inv M d g"
    and ni: "node_inv M m0 app d g i (applying c i) n"
    and acks: "\<And>v. v \<noteq> i \<Longrightarrow> no_new_acks c h d g v (\<lambda>_. True)"
    and lead: "\<And>v. v \<in> M \<Longrightarrow> v \<noteq> i \<Longrightarrow> role (nodes c v) = Leader \<Longrightarrow>
      glog g (currentTerm (nodes c v)) = glog h (currentTerm (nodes c v))"
    and stand: "\<And>v. v \<in> M \<Longrightarrow> v \<noteq> i \<Longrightarrow> role (nodes c v) = Candidate \<Longrightarrow> standing d g v (nodes c v)"
  shows "safe_inv M m0 app d g"
proof -
  have "node_inv M m0 app d g v (applying d v) (nodes d v)" if v: "v \<in> M" for v
  proof (cases "v = i")
    case True
    with ni show ?thesis by (simp add: n a)
  next
    case False
    with v have "node_inv M m0 app d g v (applying c v) (nodes c v)"
      by (intro node_inv_later [OF l safe_node [OF inv v] acks] lead stand)
    with False show ?thesis by (simp add: n a)
  qed
  with el hist vote msg show ?thesis by (simp add: safe_inv_def)
qed

lemma cast_started: "vote_inv c h \<Longrightarrow> (v, u, i) \<in> cast c \<Longrightarrow> (i, u) \<in> started c"
  unfolding vote_inv_def by blast

lemma cast_vouched: "vote_inv c h \<Longrightarrow> (v, u, i) \<in> cast c \<Longrightarrow> glog h u = [] \<Longrightarrow> vouches c h v u i"
  unfolding vote_inv_def by blast

lemma cast_honoured: "election_inv M c \<Longrightarrow> (v, u, i) \<in> cast c \<Longrightarrow> u \<le> currentTerm (nodes c v)"
  by (auto simp: election_inv_def honours_def)

lemma started_cast: "(i, t) \<in> started c \<Longrightarrow> (i, t, i) \<in> cast c"
  by (simp add: cast_iff)

lemma started_term: "election_inv M c \<Longrightarrow> (i, t) \<in> started c \<Longrightarrow> t \<le> currentTerm (nodes c i)"
  by (rule cast_honoured [OF _ started_cast])

text \<open>Acknowledgements in terms before any vote cast do not come up any more.\<close>

lemma vote_inv_grows:
  assumes vote: "vote_inv c h" and el: "election_inv M c" and l: "later c h d g"
    and req: "vote_requests d = vote_requests c" and ca: "cast d = cast c" "started d = started c"
    and cl: "clog g = clog h"
    and acks: "\<And>v. no_new_acks c h d g v (\<lambda>t. t < currentTerm (nodes c v))"
    and won: "\<And>i u v. (i, u) \<in> won d \<Longrightarrow> v \<in> electorate d i u \<Longrightarrow> vouches c h v u i \<and> (v, u, i) \<in> cast c"
  shows "vote_inv d g"
proof -
  have vo: "vouches d g v u i" if "vouches c h v u i" "(v, u, i) \<in> cast c" for v u i
  proof (rule vouches_later [OF l])
    show "no_new_acks c h d g v (\<lambda>t. t < u)"
      using acks [of v] cast_honoured [OF el that(2)] unfolding no_new_acks_def by fastforce
  qed (use that cl in simp_all)
  have ne: "glog h u = []" if "glog g u = []" for u
    using l that grows_nonempty by (auto simp: later_def)
  have "(i, u) \<in> started d \<and> (glog g u = [] \<longrightarrow> vouches d g v u i)" if "(v, u, i) \<in> cast d" for v u i
    using that vo cast_vouched [OF vote] cast_started [OF vote] ne ca by auto
  moreover have "\<forall>(i, u) \<in> won d. \<forall>v \<in> electorate d i u. vouches d g v u i" using won vo by blast
  moreover have "\<forall>req \<in> vote_requests d.
        vq_LastLogIndex req = of_nat (length (clog g (CandidateID req, vq_Term req)) - 1) \<and>
        vq_LastLogTerm req = Term (last (clog g (CandidateID req, vq_Term req)))"
    using vote unfolding req cl vote_inv_def by blast
  ultimately show ?thesis unfolding vote_inv_def by blast
qed

lemma sent_by_later: "later c h d g \<Longrightarrow> sent_by M c h i req \<Longrightarrow> sent_by M d g i req"
  using commit_ok_later [of c h d g] by (auto simp: sent_by_def later_def)

lemma anchored_later: "later c h d g \<Longrightarrow> anchored h req \<Longrightarrow> anchored g req"
  using grows_length [of "glog h" "glog g"] grows_nth [of "glog h" "glog g"]
  unfolding anchored_def later_def by (metis order_less_le_trans)

lemma piece_of_later: "later c h d g \<Longrightarrow> piece_of (glog h t) req \<Longrightarrow> piece_of (glog g t) req"
  by (rule piece_of_grows) (auto simp: later_def grows_def)

lemma message_inv_later:
  assumes msg: "message_inv M c h" and l: "later c h d g"
    and d: "\<And>b i req. (b, i, req) \<in> drafts d \<Longrightarrow> (b, i, req) \<in> drafts c \<or> sent_by M d g i req \<and> (b = 1 \<longrightarrow> anchored g req)"
    and r: "\<And>req. req \<in> append_requests d \<Longrightarrow> req \<in> append_requests c \<or>
      sent_by M d g (aq_LeaderID req) req \<and> (piece_of (glog g (aq_Term req)) req \<or> nowhere req)"
    and a: "\<And>j req resp. (j, req, resp) \<in> append_replies d \<Longrightarrow> Success resp \<Longrightarrow> (j, req, resp) \<in> append_replies c \<or>
      unat (last_new req) < length (glog g (aq_Term req))"
  shows "message_inv M d g"
proof -
  have "sent_by M d g i req \<and> (b = 1 \<longrightarrow> anchored g req)" if "(b, i, req) \<in> drafts d" for b i req
  proof (cases "(b, i, req) \<in> drafts c")
    case True
    then have "sent_by M c h i req \<and> (b = 1 \<longrightarrow> anchored h req)" using msg unfolding message_inv_def by blast
    with sent_by_later [OF l] anchored_later [OF l] show ?thesis by blast
  qed (use d [OF that] in blast)
  moreover have "sent_by M d g (aq_LeaderID req) req \<and> (piece_of (glog g (aq_Term req)) req \<or> nowhere req)"
    if "req \<in> append_requests d" for req
  proof (cases "req \<in> append_requests c")
    case True
    then have "sent_by M c h (aq_LeaderID req) req \<and> (piece_of (glog h (aq_Term req)) req \<or> nowhere req)"
      using msg unfolding message_inv_def by blast
    with sent_by_later [OF l] piece_of_later [OF l] show ?thesis by blast
  qed (use r [OF that] in blast)
  moreover have "unat (last_new req) < length (glog g (aq_Term req))"
    if "(j, req, resp) \<in> append_replies d" "Success resp" for j req resp
  proof (cases "(j, req, resp) \<in> append_replies c")
    case True
    then have "unat (last_new req) < length (glog h (aq_Term req))" using that(2) msg unfolding message_inv_def by blast
    moreover have "length (glog h (aq_Term req)) \<le> length (glog g (aq_Term req))"
      using l by (auto simp: later_def intro: grows_length)
    ultimately show ?thesis by simp
  qed (use a [OF that] that(2) in blast)
  ultimately show ?thesis unfolding message_inv_def by blast
qed

subsection \<open>Elections\<close>

lemma node_traced: "node_inv M m0 app c h v a n \<Longrightarrow> traced (glog h) (currentTerm n) (entries (nlog n))"
  by (simp add: node_inv_def)

lemma node_remembers: "node_inv M m0 app c h v a n \<Longrightarrow> remembers c h v n"
  by (simp add: node_inv_def)

lemma node_log_wf: "node_inv M m0 app c h v a n \<Longrightarrow> log_wf (nlog n)"
  by (simp add: node_inv_def)

lemma Last_wf:
  assumes "log_wf l"
  shows "LastIndex l = of_nat (length (entries l) - 1)" "LastTerm l = Term (last (entries l))"
  using LastIndex_Log_Len [OF assms] by (metis Log_Len_def of_nat_unat ucast_id, simp add: LastTerm_def)

lemma campaign_start_sel:
  assumes "campaign_start n now = (r, m)"
  shows "currentTerm m = currentTerm n + 1 \<and> cfg m = cfg n \<and> nlog m = nlog n \<and> role m = Candidate \<and>
    commitIndex m = commitIndex n \<and> lastApplied m = lastApplied n \<and> machine m = machine n \<and> apply_fn m = apply_fn n"
  using assms by (cases rule: campaign_start_cases) (auto dest: persistLocked_sel)

lemma node_inv_stands:
  assumes i: "node_inv M m0 app c h v a n" and run: "campaign_start n now = (r, m)"
    and grows: "currentTerm n < currentTerm n + 1" and "standing c h v m"
  shows "node_inv M m0 app c h v a m"
proof -
  note s = campaign_start_sel [OF run]
  have t: "currentTerm n \<le> currentTerm m" using s grows by simp
  show ?thesis using i t
  proof (rule node_inv_moves)
    show "log_wf (nlog m)" using node_log_wf [OF i] s by simp
    show "settled M c h m (unat (commitIndex m))"
      using i s settled_mono [OF _ t, of M c h] by (simp add: node_inv_def)
  qed (use s assms(4) in simp_all)
qed

lemma new_candidacy:
  assumes "election_inv M c" and "currentTerm (nodes c i) < currentTerm (nodes c i) + 1"
  shows "(i, currentTerm (nodes c i) + 1) \<notin> started c"
  using started_term [OF assms(1)] assms(2) by fastforce

lemma safe_inv_Campaign_unsaved:
  assumes inv: "safe_inv M m0 app c h" and i: "i \<in> M" and grows: "currentTerm (nodes c i) < currentTerm (nodes c i) + 1"
    and run: "campaign_start (nodes c i) now = (Inl e, n)"
  shows "safe_inv M m0 app (set_node c i n) h"
proof -
  have el: "election_inv M c" using inv by (simp add: safe_inv_def)
  have "standing c h i n"
    using new_candidacy [OF el grows] campaign_start_sel [OF run] by (simp add: standing_def)
  then have "node_inv M m0 app c h i (applying c i) n"
    by (rule node_inv_stands [OF safe_node [OF inv i] run grows])
  then show ?thesis
    by (intro safe_inv_calm [OF inv election_inv_campaign_node [OF el i grows run] same_votes_refl]) (simp_all add: set_node_def)
qed

lemma request_started: "election_inv M c \<Longrightarrow> req \<in> vote_requests c \<Longrightarrow> (CandidateID req, vq_Term req) \<in> started c"
  unfolding election_inv_def by blast

lemma started_traced: "history_inv c h \<Longrightarrow> (i, t) \<in> started c \<Longrightarrow> \<exists>s < t. traced (glog h) s (clog h (i, t))"
  unfolding history_inv_def by blast

lemma request_says:
  "vote_inv c h \<Longrightarrow> req \<in> vote_requests c \<Longrightarrow>
    vq_LastLogIndex req = of_nat (length (clog h (CandidateID req, vq_Term req)) - 1) \<and>
    vq_LastLogTerm req = Term (last (clog h (CandidateID req, vq_Term req)))"
  unfolding vote_inv_def by blast

text \<open>A vote is given to those who have at least as much.\<close>

lemma up_to_date_vouches:
  assumes inv: "safe_inv M m0 app c h" and j: "j \<in> M" and req: "req \<in> vote_requests c"
    and le: "currentTerm (nodes c j) \<le> vq_Term req" and new: "glog h (vq_Term req) = []"
    and up: "logUpToDateLocked (nodes c j) (vq_LastLogIndex req) (vq_LastLogTerm req)"
  shows "vouches c h j (vq_Term req) (CandidateID req)"
  unfolding vouches_def
proof (intro allI impI)
  let ?u = "vq_Term req" and ?n = "nodes c j"
  let ?cs = "clog h (CandidateID req, ?u)" and ?es = "log_of c j"
  fix t k assume a: "t < ?u \<and> own h t k \<and> acked c h j t k"
  note nj = safe_node [OF inv j]
  have hi: "history_inv c h" and el: "election_inv M c" using inv by (simp_all add: safe_inv_def)
  obtain s0 where s0: "s0 < ?u" "traced (glog h) s0 ?cs" using started_traced [OF hi request_started [OF el req]] by blast
  have lr: "vq_LastLogIndex req = of_nat (length ?cs - 1)" "vq_LastLogTerm req = Term (last ?cs)"
    using request_says [OF _ req] inv by (simp_all add: safe_inv_def)
  have len: "length ?cs < 2 ^ 64" "length ?es < 2 ^ 64"
    using traced_facts(1) [OF s0(2)] traced_facts(1) [OF node_traced [OF nj]] indexed_length by blast+
  have ne: "0 < length ?cs" "0 < length ?es"
    using traced_facts(2) [OF s0(2)] traced_facts(2) [OF node_traced [OF nj]] by simp_all
  have up': "Term (last ?es) < Term (last ?cs) \<or> Term (last ?cs) = Term (last ?es) \<and> length ?es \<le> length ?cs"
  proof (cases "Term (last ?cs) = Term (last ?es)")
    case True
    with up have "of_nat (length ?es - 1) \<le> (of_nat (length ?cs - 1) :: u64)"
      by (simp add: logUpToDateLocked_def Last_wf [OF node_log_wf [OF nj]] lr)
    moreover have "unat (of_nat (length ?es - 1) :: u64) = length ?es - 1"
      and "unat (of_nat (length ?cs - 1) :: u64) = length ?cs - 1"
      using len by (auto intro: unat_of_nat_u64)
    ultimately have "length ?es - 1 \<le> length ?cs - 1" by (simp add: word_le_nat_alt)
    with ne True show ?thesis by linarith
  next
    case False
    with up show ?thesis by (simp add: logUpToDateLocked_def Last_wf [OF node_log_wf [OF nj]] lr)
  qed
  have dev: "\<exists>s < ?u. deviates (glog h) t k s" if "s \<le> currentTerm ?n" "deviates (glog h) t k s" for s
  proof -
    have "s \<noteq> ?u" using that(2) new by (auto simp: deviates_def)
    moreover have "s \<le> ?u" using that(1) le by (rule order_trans)
    ultimately have "s < ?u" by simp
    with that(2) show ?thesis by blast
  qed
  have "take (Suc k) ?es = take (Suc k) (glog h t) \<or> (\<exists>s \<le> currentTerm ?n. deviates (glog h) t k s)"
    using node_remembers [OF nj] a unfolding remembers_def by blast
  then show "take (Suc k) ?cs = take (Suc k) (glog h t) \<or> (\<exists>s < ?u. deviates (glog h) t k s)"
  proof
    assume has: "take (Suc k) ?es = take (Suc k) (glog h t)"
    have k: "k < length (glog h t)" "Term (glog h t ! k) = t" "t \<noteq> 0" using a by (simp_all add: own_def)
    have "take (Suc k) ?cs = take (Suc k) (glog h t) \<or> (\<exists>s \<le> s0. deviates (glog h) t k s)"
      using node_traced [OF nj] s0(2) glog_traced [OF hi] has k up' by (rule up_to_date_has)
    then show ?thesis using s0(1) by (blast intro: le_less_trans)
  qed (use dev in blast)
qed

lemma same_past_vouches: "same_past c d \<Longrightarrow> vouches d h = vouches c h"
  by (simp add: fun_eq_iff vouches_def same_past_acked)

lemma safe_inv_Vote:
  assumes inv: "safe_inv M m0 app c h" and j: "j \<in> M" and req: "req \<in> vote_requests c"
    and run: "HandleRequestVote (nodes c j) req now = (Inr resp, n)"
    and d: "d = (set_node c j n)\<lparr>vote_replies := insert (j, req, resp) (vote_replies c)\<rparr>" and el: "election_inv M d"
  shows "safe_inv M m0 app d h"
proof -
  have sp: "same_past c d" by (simp add: d same_past_def set_node_def)
  have vote: "vote_inv c h" using inv by (simp add: safe_inv_def)
  have ca: "cast d = (if VoteGranted resp then insert (j, vq_Term req, CandidateID req) (cast c) else cast c)"
    using cast_reply [where c = "set_node c j n" and j = j and req = req and resp = resp] by (simp add: d)
  have st: "(CandidateID req, vq_Term req) \<in> started c"
    using safe_election [OF inv] req by (rule request_started)
  have new: "vouches c h j (vq_Term req) (CandidateID req)" if "VoteGranted resp" "glog h (vq_Term req) = []"
    using run
  proof (cases rule: HandleRequestVote_cases)
    case (granted m k)
    have "currentTerm (nodes c j) \<le> vq_Term req"
      using votes_nothing_term [OF granted(2)] granted(3) by simp
    then show ?thesis using that granted(5) by (intro up_to_date_vouches [OF inv j req])
  qed (use that in simp_all)
  have "vote_inv d h"
    unfolding vote_inv_def same_past_vouches [OF sp]
  proof (intro conjI)
    show "\<forall>(v, u, i) \<in> cast d. (i, u) \<in> started d \<and> (glog h u = [] \<longrightarrow> vouches c h v u i)"
      using vote st new unfolding ca by (auto simp: vote_inv_def d)
  qed (use vote in \<open>auto simp: vote_inv_def d electorate_def\<close>)
  moreover have "message_inv M d h"
    using inv by (intro message_inv_sub [OF _ sp]) (simp_all add: safe_inv_def d set_node_def)
  moreover have "node_inv M m0 app c h j (applying d j) n" if "j \<in> M"
    using node_inv_calm_step [OF safe_node [OF inv that] calm_HandleRequestVote [OF run]] by (simp add: d set_node_def)
  ultimately show ?thesis
    by (intro safe_inv_node [OF inv el sp]) (simp_all add: d set_node_def)
qed

lemma won_started: "election_inv M c \<Longrightarrow> (i, t) \<in> won c \<Longrightarrow> (i, t) \<in> started c"
  using inv_won by blast

lemma safe_inv_Campaign:
  assumes inv: "safe_inv M m0 app c h" and i: "i \<in> M" and grows: "currentTerm (nodes c i) < currentTerm (nodes c i) + 1"
    and run: "campaign_start (nodes c i) now = (Inr req, n)"
    and d: "d = (set_node c i n)\<lparr>started := insert (i, vq_Term req) (started c),
      running := insert (i, vq_Term req) (running c), vote_requests := insert req (vote_requests c)\<rparr>"
    and eld: "election_inv M d"
  shows "\<exists>g. safe_inv M m0 app d g \<and> later c h d g"
proof -
  let ?u = "vq_Term req"
  define g where "g = h\<lparr>clog := (clog h)((i, ?u) := log_of c i)\<rparr>"
  note el = safe_election [OF inv] and hi = safe_history [OF inv] and vo = safe_vote [OF inv]
  note ni = safe_node [OF inv i] and sel = campaign_start_sel [OF run]
  have r: "?u = currentTerm (nodes c i) + 1" "CandidateID req = i" "vq_LastLogIndex req = LastIndex (nlog (nodes c i))"
      "vq_LastLogTerm req = LastTerm (nlog (nodes c i))"
    using run inv_member [OF el i] by (cases rule: campaign_start_cases; simp add: configured_def)+
  have fresh: "(i, ?u) \<notin> started c" using new_candidacy [OF el grows] r(1) by simp
  have fresh_won: "(i, ?u) \<notin> won c" using fresh won_started [OF el] by blast
  have lt: "currentTerm (nodes c i) < ?u" using grows r(1) by simp
  have gg: "glog g = glog h" and cl: "clog g e = (if e = (i, ?u) then log_of c i else clog h e)" for e
    by (simp_all add: g_def)
  have dd: "won d = won c" "append_replies d = append_replies c" "tally d = tally c" "started d = insert (i, ?u) (started c)"
      "vote_requests d = insert req (vote_requests c)" "drafts d = drafts c" "append_requests d = append_requests c"
      "running d = insert (i, ?u) (running c)" "nodes d = (nodes c)(i := n)" "applying d = applying c"
    by (simp_all add: d set_node_def)
  have l: "later c h d g" by (rule later_same) (simp_all add: gg dd)
  have ack: "acked d g = acked c h" "own g = own h" by (simp_all add: fun_eq_iff acked_def own_def gg dd)
  have acks: "no_new_acks c h d g v P" for v P by (simp add: no_new_acks_def ack)
  have vouch: "vouches d g v u j \<longleftrightarrow> vouches c h v u j" if "(j, u) \<noteq> (i, ?u)" for v u j
    using that by (auto simp: vouches_def ack cl gg)
  have self: "vouches d g i ?u i"
    unfolding vouches_def ack
  proof (intro allI impI)
    fix t k assume "t < ?u \<and> own h t k \<and> acked c h i t k"
    then have "take (Suc k) (log_of c i) = take (Suc k) (glog h t) \<or> (\<exists>s \<le> currentTerm (nodes c i). deviates (glog h) t k s)"
      using node_remembers [OF ni] unfolding remembers_def by blast
    then show "take (Suc k) (clog g (i, ?u)) = take (Suc k) (glog g t) \<or> (\<exists>s < ?u. deviates (glog g) t k s)"
      using lt by (auto simp: cl gg dest: le_less_trans)
  qed
  have hist: "history_inv d g"
    unfolding history_inv_def gg dd
  proof (intro conjI)
    show "\<forall>(j, t) \<in> insert (i, ?u) (started c). \<exists>s < t. traced (glog h) s (clog g (j, t))"
      using started_traced [OF hi] node_traced [OF ni] lt by (auto simp: cl)
    show "\<forall>(j, t) \<in> won c. take (length (clog g (j, t))) (glog h t) = clog g (j, t)"
      using won_clog [OF hi] fresh_won by (auto simp: cl)
    show "won c \<inter> insert (i, ?u) (running c) = {}" using hi fresh_won by (auto simp: history_inv_def)
  qed (use hi in \<open>simp_all add: history_inv_def\<close>)
  have ca: "cast d = insert (i, ?u, i) (cast c)"
    using cast_start [where c = "set_node c i n" and i = i and t = ?u] by (simp add: d)
  have vote: "vote_inv d g"
    unfolding vote_inv_def
  proof (intro conjI ballI)
    fix q assume q: "q \<in> vote_requests d"
    show "vq_LastLogIndex q = of_nat (length (clog g (CandidateID q, vq_Term q)) - 1)"
      and "vq_LastLogTerm q = Term (last (clog g (CandidateID q, vq_Term q)))"
      using q request_says [OF vo, of q] request_started [OF el, of q] fresh r Last_wf [OF node_log_wf [OF ni]]
      by (cases "q = req"; auto simp: dd cl)+
  next
    fix x assume x: "x \<in> cast d"
    obtain v u j where [simp]: "x = (v, u, j)" by (cases x)
    have "(j, u) \<in> started d \<and> (glog g u = [] \<longrightarrow> vouches d g v u j)"
    proof (cases "x = (i, ?u, i)")
      case True
      then show ?thesis using self by (simp add: dd)
    next
      case False
      with x have "(v, u, j) \<in> cast c" by (auto simp: ca)
      then have "(j, u) \<in> started c" "glog h u = [] \<Longrightarrow> vouches c h v u j"
        using cast_started [OF vo] cast_vouched [OF vo] by blast+
      moreover from this(1) fresh have "(j, u) \<noteq> (i, ?u)" by blast
      ultimately show ?thesis using vouch by (simp add: dd gg)
    qed
    then show "case x of (v, u, j) \<Rightarrow> (j, u) \<in> started d \<and> (glog g u = [] \<longrightarrow> vouches d g v u j)" by simp
  next
    fix x assume x: "x \<in> won d"
    obtain j u where [simp]: "x = (j, u)" by (cases x)
    have "electorate d j u = electorate c j u" by (simp add: electorate_def dd)
    moreover have "(j, u) \<noteq> (i, ?u)" using x fresh_won by (auto simp: dd)
    ultimately have "\<forall>v \<in> electorate d j u. vouches d g v u j" using x won_vouched [OF vo] vouch by (simp add: dd)
    then show "case x of (j, u) \<Rightarrow> \<forall>v \<in> electorate d j u. vouches d g v u j" by simp
  qed
  have msg: "message_inv M d g"
    using safe_message [OF inv] l by (rule message_inv_later) (simp_all add: dd)
  have stay: "standing d g v m" if "v \<noteq> i" "standing c h v m" for v m
    using that by (auto simp: standing_def dd cl)
  have node: "node_inv M m0 app d g i (applying c i) n"
  proof (rule node_inv_stands [OF _ run grows])
    show "node_inv M m0 app d g i (applying c i) (nodes c i)"
    proof (rule node_inv_later [OF l ni acks])
      show "standing d g i (nodes c i)" if "role (nodes c i) = Candidate"
        using ni that lt by (auto simp: node_inv_def standing_def dd cl)
    qed (simp add: gg)
    show "standing d g i n" using sel r(1) fresh_won by (simp add: standing_def dd cl)
  qed
  have "safe_inv M m0 app d g"
    using inv eld l dd(9,10) hist vote msg node acks
  proof (rule safe_inv_grows)
    show "standing d g v (nodes c v)" if "v \<in> M" "v \<noteq> i" "role (nodes c v) = Candidate" for v
      using stay [OF that(2)] safe_node [OF inv that(1)] that(3) by (simp add: node_inv_def)
  qed (simp add: gg)
  with l show ?thesis by blast
qed

lemma won_not_running: "history_inv c h \<Longrightarrow> e \<in> running c \<Longrightarrow> e \<notin> won c"
  unfolding history_inv_def by blast

lemma safe_inv_Count:
  assumes inv: "safe_inv M m0 app c h" and i: "i \<in> M" and run: "(i, t) \<in> running c" and rep: "vote_reply (nodes c i) resp = (ok, n)"
    and d: "d = (set_node c i n)\<lparr>answered := a, tally := (tally c)((i, t) := T)\<rparr>" and el: "election_inv M d"
  shows "safe_inv M m0 app d h"
proof -
  have sp: "same_past c d" by (simp add: d same_past_def set_node_def)
  have "vote_inv d h"
    using safe_vote [OF inv] sp
    by (rule vote_inv_same) (use won_not_running [OF safe_history [OF inv] run] in \<open>auto simp: d cast_def\<close>)
  moreover have "message_inv M d h"
    using safe_message [OF inv] sp by (rule message_inv_sub) (simp_all add: d set_node_def)
  moreover have "node_inv M m0 app c h i (applying d i) n" if "i \<in> M"
    using node_inv_calm_step [OF safe_node [OF inv that] calm_vote_reply [OF rep]] by (simp add: d set_node_def)
  ultimately show ?thesis
    by (intro safe_inv_node [OF inv el sp]) (simp_all add: d set_node_def)
qed

text \<open>The winner's log becomes that of its term's leader. None of its entries is of that term.\<close>

lemma promote_sel:
  assumes "promote n t = (True, m)"
  shows "role n = Candidate \<and> currentTerm n = t \<and> cfg m = cfg n \<and> nlog m = nlog n \<and> currentTerm m = t \<and> role m = Leader \<and>
    commitIndex m = commitIndex n \<and> lastApplied m = lastApplied n \<and> machine m = machine n \<and> apply_fn m = apply_fn n \<and>
    (\<forall>p \<in> set (cfg_Peers (cfg m)). at0 (matchIndex m) (peer_ID p) = 0)"
  using assms by (auto simp: promote_def becomeLeaderLocked_eq at0_def split: if_splits)

lemma safe_inv_Win:
  assumes inv: "safe_inv M m0 app c h" and i: "i \<in> M" and run: "(i, t) \<in> running c" and ok: "promote (nodes c i) t = (True, n)"
    and d: "d = (set_node c i n)\<lparr>running := running c - {(i, t)}, won := insert (i, t) (won c)\<rparr>" and eld: "election_inv M d"
  shows "\<exists>g. safe_inv M m0 app d g \<and> later c h d g"
proof -
  define g where "g = h\<lparr>glog := (glog h)(t := log_of c i)\<rparr>"
  note el = safe_election [OF inv] and hi = safe_history [OF inv] and vo = safe_vote [OF inv]
  note ni = safe_node [OF inv i] and s = promote_sel [OF ok]
  have dd: "won d = insert (i, t) (won c)" "append_replies d = append_replies c" "tally d = tally c" "started d = started c"
      "vote_requests d = vote_requests c" "drafts d = drafts c" "append_requests d = append_requests c" "cast d = cast c"
      "running d = running c - {(i, t)}" "nodes d = (nodes c)(i := n)" "applying d = applying c"
    by (simp_all add: d set_node_def cast_def)
  have st: "(i, t) \<in> started c" using el run by (auto simp: election_inv_def)
  have cl: "log_of c i = clog h (i, t)" using ni s st by (simp add: node_inv_def standing_def)
  have none: "glog h t = []"
  proof (rule ccontr)
    assume "glog h t \<noteq> []"
    then obtain j where j: "(j, t) \<in> won c" using glog_won [OF hi] by blast
    moreover have "j = i" by (rule won_unique [OF eld, of j t]) (use j dd in auto)
    ultimately show False using won_not_running [OF hi run] by simp
  qed
  have ne: "log_of c i \<noteq> []" using node_traced [OF ni] traced_facts(2) by blast
  have gr: "grows (glog h) (glog g)" using none by (auto simp: grows_def g_def)
  have own: "own g u k \<longleftrightarrow> own h u k" for u k
  proof (cases "u = t")
    case True
    obtain s where "s < t" "traced (glog h) s (log_of c i)" using started_traced [OF hi st] cl by auto
    then have "Term (log_of c i ! k) < t" if "k < length (log_of c i)" using traced_facts(6) that by (blast intro: le_less_trans)
    then have "\<not> own g t k" by (auto simp: own_def g_def)
    then show ?thesis using True none by (simp add: own_def)
  qed (simp add: own_def g_def)
  have own_t: "\<not> own h t k" for k using none by (simp add: own_def)
  have dev: "deviates (glog g) u k v" if "own h u k" "deviates (glog h) u k v" for u k v
    using that none own_t [of k] by (auto simp: deviates_def g_def)
  have l: "later c h d g" using gr dev by (auto simp: later_def dd)
  have acks: "no_new_acks c h d g v P" for v P
    using own own_t by (auto simp: no_new_acks_def acked_def dd g_def)
  have trg: "traced (glog g) u es" if "traced (glog h) u es" for u es using that gr by (rule traced_grows)
  have hist: "history_inv d g"
    unfolding history_inv_def dd
  proof (intro conjI allI)
    fix u
    show "glog g u \<noteq> [] \<longleftrightarrow> (\<exists>j. (j, u) \<in> insert (i, t) (won c))"
      using hi ne none by (auto simp: history_inv_def g_def)
    show "glog g u \<noteq> [] \<longrightarrow> traced (glog g) u (glog g u)"
      using trg [OF glog_traced [OF hi, of u]] trg [OF node_traced [OF ni]] s by (auto simp: g_def)
  next
    show "\<forall>(j, u) \<in> started c. \<exists>s < u. traced (glog g) s (clog g (j, u))"
      using started_traced [OF hi] trg by (fastforce simp: g_def)
    show "\<forall>(j, u) \<in> insert (i, t) (won c). take (length (clog g (j, u))) (glog g u) = clog g (j, u)"
      using won_clog [OF hi] cl won_glog [OF hi] none by (auto simp: g_def)
    show "insert (i, t) (won c) \<inter> (running c - {(i, t)}) = {}" using hi by (auto simp: history_inv_def)
  qed
  have elec: "electorate d j u = electorate c j u" for j u by (simp add: electorate_def dd)
  have vote: "vote_inv d g"
  proof (rule vote_inv_grows [OF vo el l _ _ _ _ acks])
    fix j u v assume w: "(j, u) \<in> won d" and v: "v \<in> electorate d j u"
    have ca: "(v, u, j) \<in> cast c" using electorate_cast [OF eld w v] dd by simp
    show "vouches c h v u j \<and> (v, u, j) \<in> cast c"
    proof (cases "(j, u) = (i, t)")
      case True
      then show ?thesis using cast_vouched [OF vo ca] none ca by simp
    next
      case False
      with w have "(j, u) \<in> won c" by (auto simp: dd)
      then show ?thesis using won_vouched [OF vo] v ca by (simp add: elec)
    qed
  qed (simp_all add: dd g_def)
  have msg: "message_inv M d g"
    using safe_message [OF inv] l by (rule message_inv_later) (simp_all add: dd)
  have node: "node_inv M m0 app d g i (applying c i) n"
  proof (rule node_inv_moves)
    show "node_inv M m0 app d g i (applying c i) ((nodes c i)\<lparr>role := Follower\<rparr>)"
    proof (rule node_inv_later [OF l _ acks])
      show "node_inv M m0 app c h i (applying c i) ((nodes c i)\<lparr>role := Follower\<rparr>)"
        using ni by (rule node_inv_calm_step) (simp add: calm_def)
    qed simp_all
    then show "settled M d g n (unat (commitIndex n))"
      using s settled_mono [of M d g "(nodes c i)\<lparr>role := Follower\<rparr>" _ n] by (simp add: node_inv_def)
    show "leading d g n" using s by (auto simp: leading_def g_def)
  qed (use s node_log_wf [OF ni] in simp_all)
  have "safe_inv M m0 app d g"
    using inv eld l dd(10,11) hist vote msg node acks
  proof (rule safe_inv_grows)
    fix v assume v: "v \<in> M" "v \<noteq> i"
    show "glog g (currentTerm (nodes c v)) = glog h (currentTerm (nodes c v))" if "role (nodes c v) = Leader"
    proof -
      have "(v, currentTerm (nodes c v)) \<in> won c" using el v(1) that by (auto simp: election_inv_def)
      with won_glog [OF hi] none show ?thesis by (auto simp: g_def)
    qed
    show "standing d g v (nodes c v)" if "role (nodes c v) = Candidate"
      using safe_node [OF inv v(1)] that v(2) by (auto simp: node_inv_def standing_def dd g_def)
  qed
  with l show ?thesis by blast
qed

subsection \<open>When a node's log changes\<close>

text \<open>Whatever happens to a log above what is settled, the node has what it had applied.\<close>

lemma node_inv_keeps:
  assumes l: "later c h d g" and i: "node_inv M m0 app c h v a n" and t: "currentTerm n \<le> currentTerm m"
    and wf: "log_wf (nlog m)" and tr: "traced (glog g) (currentTerm m) (entries (nlog m))"
    and lead: "role m = Leader \<Longrightarrow> leading d g m" and cand: "role m = Candidate \<Longrightarrow> standing d g v m"
    and rem: "remembers d g v m" and com: "settled M d g m (unat (commitIndex m))"
    and keep: "\<And>x. settled M c h n x \<Longrightarrow> 0 < x \<Longrightarrow> take (Suc x) (entries (nlog m)) = take (Suc x) (entries (nlog n))"
    and s: "lastApplied m = lastApplied n" "machine m = machine n" "apply_fn m = apply_fn n"
  shows "node_inv M m0 app d g v a m"
proof -
  let ?x = "unat (lastApplied n)"
  from i have n: "settled M c h n ?x" "apply_fn n = app" "machine n = foldl app m0 (take ?x (tl (entries (nlog n))))"
      "\<And>e. a = Some e \<Longrightarrow> settled M c h n (Suc ?x) \<and> e = entries (nlog n) ! Suc ?x"
    unfolding node_inv_def by blast+
  have se: "settled M d g m x" if "settled M c h n x" for x
    using settled_later [OF l that] t by (rule settled_take) (rule keep [OF that])
  have tk: "take x (tl es) = tl (take (Suc x) es)" for x and es :: "Record list" by (simp add: tl_take)
  have "take ?x (tl (entries (nlog m))) = take ?x (tl (entries (nlog n)))"
    using keep [OF n(1)] by (cases "?x = 0") (simp_all add: tk)
  then have "machine m = foldl app m0 (take (unat (lastApplied m)) (tl (entries (nlog m))))"
    using n(3) s by simp
  moreover have "settled M d g m (Suc (unat (lastApplied m))) \<and> e = entries (nlog m) ! Suc (unat (lastApplied m))"
    if "a = Some e" for e
    using n(4) [OF that] se keep [of "Suc ?x"] take_nth_eq [of "Suc ?x" "entries (nlog m)" "entries (nlog n)" "Suc ?x"] s
    by auto
  moreover have "settled M d g m (unat (lastApplied m))" using se [OF n(1)] s by simp
  moreover have "apply_fn m = app" using n(2) s by simp
  ultimately show ?thesis using wf tr lead cand rem com unfolding node_inv_def by (intro conjI impI allI) blast+
qed

subsection \<open>Proposing\<close>

lemma propose_append_sel:
  assumes wf: "log_wf (nlog n)" and sz: "Suc (length (entries (nlog n))) < slice_max" and run: "propose_append n t cmd = (r, m)"
  shows "m = n\<lparr>nlog := nlog m\<rparr> \<and> log_wf (nlog m) \<and> (entries (nlog m) = entries (nlog n) \<or>
    entries (nlog m) = entries (nlog n) @ [cmd\<lparr>Term := t, Index := of_nat (length (entries (nlog n)))\<rparr>])"
proof -
  obtain es e l where a: "Log_Append (nlog n) t [cmd] = (es, e, l)" by (metis prod_cases3)
  have m: "m = n\<lparr>nlog := l\<rparr>" using run a by (auto simp: propose_append_def split: option.splits)
  from Log_Append_spec [OF wf a] sz have l: "log_wf l" "entries l = entries (nlog n) @ es"
      "es = take (length es) [cmd\<lparr>Term := t, Index := of_nat (length (entries (nlog n)))\<rparr>]" by auto
  have "es = [] \<or> es = [cmd\<lparr>Term := t, Index := of_nat (length (entries (nlog n)))\<rparr>]"
    using l(3) by (cases es) (simp_all add: take_Cons')
  with l m show ?thesis by auto
qed

lemma leader_won: "election_inv M c \<Longrightarrow> i \<in> M \<Longrightarrow> role (nodes c i) = Leader \<Longrightarrow> (i, currentTerm (nodes c i)) \<in> won c"
  by (auto simp: election_inv_def)

lemma won_term: "election_inv M c \<Longrightarrow> history_inv c h \<Longrightarrow> (i, t) \<in> won c \<Longrightarrow> t \<noteq> 0"
  using started_traced won_started by fastforce

lemma reply_bound:
  "message_inv M c h \<Longrightarrow> (j, req, resp) \<in> append_replies c \<Longrightarrow> Success resp \<Longrightarrow>
   unat (last_new req) < length (glog h (aq_Term req))"
  unfolding message_inv_def by blast

text \<open>What is acknowledged by the leader's append: only the new entry, by the leader.\<close>

lemma append_acks:
  assumes el: "election_inv M c" and hi: "history_inv c h" and msg: "message_inv M c h" and w: "(i, t) \<in> won c"
    and g: "glog g = (glog h)(t := glog h t @ [e])" and same: "append_replies d = append_replies c" "won d = won c"
    and a: "own g u k" "acked d g v u k"
  shows "own h u k \<and> acked c h v u k \<or> u = t \<and> k = length (glog h t) \<and> v = i"
proof (cases "u = t")
  case False
  with a show ?thesis by (simp add: own_def acked_def g same)
next
  case u: True
  have own: "own h u k" if "k < length (glog h t)" using a(1) that u by (simp add: own_def g nth_append)
  from a(2) consider (rep) req resp where "(v, req, resp) \<in> append_replies c" "Success resp" "aq_Term req = t"
      "k \<le> unat (last_new req)"
    | (lead) "(v, t) \<in> won c" "k < Suc (length (glog h t))"
    unfolding acked_def same u g by auto
  then show ?thesis
  proof cases
    case rep
    then have "k < length (glog h t)" using reply_bound [OF msg rep(1,2)] by simp
    moreover have "acked c h v u k" using rep u by (auto simp: acked_def)
    ultimately show ?thesis using own by blast
  next
    case lead
    then have "v = i" using won_unique [OF el lead(1) w] by simp
    moreover have "acked c h v u k" if "k < length (glog h t)" using lead(1) u that by (simp add: acked_def)
    ultimately show ?thesis using lead(2) u own by (cases "k < length (glog h t)") auto
  qed
qed

lemma safe_inv_Propose:
  assumes inv: "safe_inv M m0 app c h" and i: "i \<in> M" and run: "propose_append (nodes c i) t cmd = (r, n)"
    and ld: "leads (nodes c i) t" and sz: "Suc (length (log_of c i)) < slice_max"
    and d: "d = (set_node c i n)\<lparr>proposals := P\<rparr>" and eld: "election_inv M d"
  shows "\<exists>g. safe_inv M m0 app d g \<and> later c h d g"
proof -
  note el = safe_election [OF inv] and hi = safe_history [OF inv] and vo = safe_vote [OF inv]
  note ni = safe_node [OF inv i] and msg = safe_message [OF inv]
  note s = propose_append_sel [OF node_log_wf [OF ni] sz run]
  have nl: "role (nodes c i) = Leader" "currentTerm (nodes c i) = t" using ld by (simp_all add: leads_def)
  have n: "n = (nodes c i)\<lparr>nlog := nlog n\<rparr>" and wf: "log_wf (nlog n)" using s by blast+
  have sel: "role n = role (nodes c i)" "currentTerm n = currentTerm (nodes c i)" "cfg n = cfg (nodes c i)"
      "matchIndex n = matchIndex (nodes c i)" "commitIndex n = commitIndex (nodes c i)"
      "lastApplied n = lastApplied (nodes c i)" "machine n = machine (nodes c i)" "apply_fn n = apply_fn (nodes c i)"
    by (subst n, simp)+
  have ldg: "leading c h (nodes c i)" and G: "log_of c i = glog h t"
    using ni nl by (simp_all add: node_inv_def leading_def)
  have com: "settled M c h (nodes c i) (unat (commitIndex n))" using ni sel by (simp add: node_inv_def)
  have dd: "won d = won c" "append_replies d = append_replies c" "tally d = tally c" "started d = started c"
      "vote_requests d = vote_requests c" "drafts d = drafts c" "append_requests d = append_requests c" "cast d = cast c"
      "running d = running c" "nodes d = (nodes c)(i := n)" "applying d = applying c"
    by (simp_all add: d set_node_def cast_def)
  from s consider (same) "entries (nlog n) = log_of c i"
    | (new) "entries (nlog n) = log_of c i @ [cmd\<lparr>Term := t, Index := of_nat (length (log_of c i))\<rparr>]" by blast
  then show ?thesis
  proof cases
    case same
    have "node_inv M m0 app c h i (applying c i) n" using ni
    proof (rule node_inv_moves)
      show "leading c h n" using ldg same by (simp add: leading_def sel)
      show "settled M c h n (unat (commitIndex n))" using com by (rule settled_mono) (simp_all add: sel same)
    qed (use same sel wf nl in simp_all)
    then have "safe_inv M m0 app d h"
      by (intro safe_inv_calm [OF inv eld]) (simp_all add: d same_votes_def set_node_def)
    moreover have "later c h d h" by (rule later_same) (simp_all add: dd)
    ultimately show ?thesis by blast
  next
    case new
    define e where "e = cmd\<lparr>Term := t, Index := of_nat (length (log_of c i))\<rparr>"
    define g where "g = h\<lparr>glog := (glog h)(t := glog h t @ [e])\<rparr>"
    have e: "Term e = t" "Index e = of_nat (length (log_of c i))" and en: "entries (nlog n) = glog h t @ [e]"
      using new G by (simp_all add: e_def)
    have gg: "glog g = (glog h)(t := glog h t @ [e])" "clog g = clog h" by (simp_all add: g_def)
    have w: "(i, t) \<in> won c" using leader_won [OF el i nl(1)] nl(2) by simp
    have t0: "t \<noteq> 0" using el hi w by (rule won_term)
    have gr: "grows (glog h) (glog g)" by (simp add: grows_def gg)
    have dev: "deviates (glog g) u k v" if "own h u k" "deviates (glog h) u k v" for u k v
      by (rule deviates_snoc [OF that(2) glog_traced [OF hi] _ e(1) gg(1)]) (use that(1) in \<open>simp_all add: own_def\<close>)
    have l: "later c h d g" using gr dev by (auto simp: later_def dd)
    note ak = append_acks [OF el hi msg w gg(1) dd(2,1)]
    have trn: "traced (glog g) t (entries (nlog n))"
      unfolding gg en using node_traced [OF ni] e t0 sz nl(2) by (intro traced_snoc) (simp_all add: G)
    have trg: "traced (glog g) u es" if "traced (glog h) u es" for u es using that gr by (rule traced_grows)
    have hist: "history_inv d g"
      unfolding history_inv_def dd
    proof (intro conjI allI)
      fix u
      show "glog g u \<noteq> [] \<longleftrightarrow> (\<exists>j. (j, u) \<in> won c)"
        using hi w by (auto simp: history_inv_def gg)
      show "glog g u \<noteq> [] \<longrightarrow> traced (glog g) u (glog g u)"
        using trg [OF glog_traced [OF hi, of u]] trn en by (auto simp: gg)
    next
      show "\<forall>(j, u) \<in> started c. \<exists>s < u. traced (glog g) s (clog g (j, u))"
        using started_traced [OF hi] trg by (fastforce simp: gg(2))
      show "\<forall>(j, u) \<in> won c. take (length (clog g (j, u))) (glog g u) = clog g (j, u)"
      proof clarify
        fix j u assume "(j, u) \<in> won c"
        from won_clog [OF hi this] have pre: "take (length (clog h (j, u))) (glog h u) = clog h (j, u)" .
        then have "length (clog h (j, u)) \<le> length (glog h u)" by (metis length_take min.cobounded1)
        with pre grows_take [OF gr this] show "take (length (clog g (j, u))) (glog g u) = clog g (j, u)" by (simp add: gg(2))
      qed
      show "won c \<inter> running c = {}" using hi by (simp add: history_inv_def)
    qed
    have vote: "vote_inv d g"
    proof (rule vote_inv_grows [OF vo el l])
      show "no_new_acks c h d g v (\<lambda>u. u < currentTerm (nodes c v))" for v
        using ak nl(2) unfolding no_new_acks_def by blast
      fix j u v assume wj: "(j, u) \<in> won d" and v: "v \<in> electorate d j u"
      then have "(j, u) \<in> won c" "v \<in> electorate c j u" by (simp_all add: dd electorate_def)
      then show "vouches c h v u j \<and> (v, u, j) \<in> cast c"
        using won_vouched [OF vo] electorate_cast [OF el] by blast
    qed (simp_all add: dd gg)
    have msgd: "message_inv M d g"
      using msg l by (rule message_inv_later) (simp_all add: dd)
    have old: "take (Suc k) (entries (nlog n)) = take (Suc k) (log_of c i)" if "k < length (log_of c i)" for k
      using that by (simp add: en G)
    have rem: "remembers d g i n"
      unfolding remembers_def sel
    proof (intro allI impI)
      fix u k assume a: "own g u k \<and> acked d g i u k"
      from ak [of u k i] a consider "own h u k" "acked c h i u k" | "u = t" "k = length (glog h t)" by blast
      then show "u \<le> currentTerm (nodes c i) \<and> (take (Suc k) (entries (nlog n)) = take (Suc k) (glog g u) \<or>
          (\<exists>s \<le> currentTerm (nodes c i). deviates (glog g) u k s))"
      proof cases
        case 1
        then have r: "u \<le> currentTerm (nodes c i)" "take (Suc k) (log_of c i) = take (Suc k) (glog h u) \<or>
            (\<exists>s \<le> currentTerm (nodes c i). deviates (glog h) u k s)"
          using node_remembers [OF ni] unfolding remembers_def by blast+
        have "take (Suc k) (entries (nlog n)) = take (Suc k) (glog g u)"
          if t: "take (Suc k) (log_of c i) = take (Suc k) (glog h u)"
        proof -
          have "k < length (log_of c i)" using take_Suc_less [OF t] 1(1) by (simp add: own_def)
          with t own_take [OF l 1(1)] old show ?thesis by simp
        qed
        with r dev [OF 1(1)] show ?thesis by blast
      qed (use nl en in \<open>simp add: gg\<close>)
    qed
    have keep: "take (Suc x) (entries (nlog n)) = take (Suc x) (log_of c i)" if "settled M c h (nodes c i) x" for x
      using settled_length [OF that] traced_facts(2) [OF node_traced [OF ni]] by (intro old) blast
    have node: "node_inv M m0 app d g i (applying c i) n"
    proof (rule node_inv_keeps [OF l ni])
      show "leading d g n"
        using ldg acked_later [OF l] en nl by (simp add: leading_def sel gg)
      show "settled M d g n (unat (commitIndex n))"
        using settled_later [OF l com] by (rule settled_take) (simp add: sel, rule keep [OF com])
      show "traced (glog g) (currentTerm n) (entries (nlog n))" using trn nl sel by simp
    qed (use wf rem keep nl in \<open>simp_all add: sel\<close>)
    have "safe_inv M m0 app d g"
      using inv eld l dd(10,11) hist vote msgd node
    proof (rule safe_inv_grows)
      fix v assume v: "v \<noteq> i"
      show "no_new_acks c h d g v (\<lambda>_. True)" using ak v unfolding no_new_acks_def by blast
      assume vM: "v \<in> M"
      show "glog g (currentTerm (nodes c v)) = glog h (currentTerm (nodes c v))" if "role (nodes c v) = Leader"
        using leader_won [OF el vM that] won_unique [OF el w] v by (auto simp: gg)
      show "standing d g v (nodes c v)" if "role (nodes c v) = Candidate"
        using safe_node [OF inv vM] that v by (auto simp: node_inv_def standing_def dd gg)
    qed
    with l show ?thesis by blast
  qed
qed

subsection \<open>Appending at a follower\<close>

text \<open>The reply of \<open>j\<close> acknowledges what it says it does, in no term before its own.\<close>

definition new_reply :: "history \<Rightarrow> 's Node \<Rightarrow> NodeID \<Rightarrow> NodeID \<times> AppendEntriesRequest \<times> AppendEntriesResponse \<Rightarrow> bool" where
  "new_reply h n j x \<longleftrightarrow> (case x of (v, req, resp) \<Rightarrow> Success resp \<longrightarrow>
     v = j \<and> currentTerm n \<le> aq_Term req \<and> unat (last_new req) < length (glog h (aq_Term req)))"

lemma safe_inv_answer:
  assumes inv: "safe_inv M m0 app c h" and eld: "election_inv M d"
    and d: "d = (set_node c j n)\<lparr>append_replies := append_replies c \<union> R\<rparr>"
    and R: "\<And>x. x \<in> R \<Longrightarrow> new_reply h (nodes c j) j x"
    and node: "node_inv M m0 app d h j (applying c j) n"
  shows "safe_inv M m0 app d h"
proof -
  note el = safe_election [OF inv] and hi = safe_history [OF inv] and vo = safe_vote [OF inv]
  have dd: "won d = won c" "append_replies d = append_replies c \<union> R" "tally d = tally c" "started d = started c"
      "vote_requests d = vote_requests c" "drafts d = drafts c" "append_requests d = append_requests c" "cast d = cast c"
      "running d = running c" "nodes d = (nodes c)(j := n)" "applying d = applying c"
    by (simp_all add: d set_node_def cast_def)
  have l: "later c h d h" by (rule later_same) (simp_all add: dd)
  have ak: "acked c h v t k \<or> v = j \<and> currentTerm (nodes c j) \<le> t" if "acked d h v t k" for v t k
    using that R unfolding acked_def dd new_reply_def by fastforce
  have hist: "history_inv d h" using hi by (simp add: history_inv_def dd)
  have vote: "vote_inv d h"
  proof (rule vote_inv_grows [OF vo el l])
    show "no_new_acks c h d h v (\<lambda>t. t < currentTerm (nodes c v))" for v
      using ak [of v] unfolding no_new_acks_def by fastforce
    fix i u v assume "(i, u) \<in> won d" and "v \<in> electorate d i u"
    then have "(i, u) \<in> won c" "v \<in> electorate c i u" by (simp_all add: dd electorate_def)
    then show "vouches c h v u i \<and> (v, u, i) \<in> cast c"
      using won_vouched [OF vo] electorate_cast [OF el] by blast
  qed (simp_all add: dd)
  have msg: "message_inv M d h"
    using safe_message [OF inv] l
  proof (rule message_inv_later)
    show "(v, req, resp) \<in> append_replies c \<or> unat (last_new req) < length (glog h (aq_Term req))"
      if "(v, req, resp) \<in> append_replies d" "Success resp" for v req resp
      using that R unfolding dd new_reply_def by fastforce
  qed (simp_all add: dd)
  show ?thesis
    using inv eld l dd(10,11) hist vote msg node
  proof (rule safe_inv_grows)
    show "no_new_acks c h d h v (\<lambda>_. True)" if "v \<noteq> j" for v
      using ak [of v] that unfolding no_new_acks_def by blast
    show "standing d h v (nodes c v)" if "v \<in> M" "role (nodes c v) = Candidate" for v
      using safe_node [OF inv that(1)] that(2) by (auto simp: node_inv_def standing_def dd)
  qed simp
qed

lemma commit_settled:
  assumes "election_inv M c" and "history_inv c h" and "vote_inv c h" and co: "commit_ok M c h t x" and y: "y \<le> x"
    and t: "t \<le> currentTerm n" and ne: "glog h t \<noteq> []" and eq: "take (Suc y) (entries (nlog n)) = take (Suc y) (glog h t)"
  shows "settled M c h n y"
proof (cases "x = 0")
  case True
  with y show ?thesis by (simp add: settled_def)
next
  case False
  then obtain s k where s: "s \<le> t" "chosen M c h s k" "x \<le> k" using co unfolding commit_ok_def by blast
  have "take (Suc y) (glog h t) = take (Suc y) (glog h s)"
  proof (cases "s = t")
    case False
    with s(1) have "s < t" by simp
    from leader_completeness [OF assms(1-3) s(2) this ne] order_trans [OF y s(3)] show ?thesis by (rule take_Suc_mono)
  qed simp
  with eq have "take (Suc y) (entries (nlog n)) = take (Suc y) (glog h s)" by simp
  moreover have "s \<le> currentTerm n" using s(1) t by (rule order_trans)
  ultimately show ?thesis using s(2) order_trans [OF y s(3)] unfolding settled_def by blast
qed

lemma request_from:
  "message_inv M c h \<Longrightarrow> req \<in> append_requests c \<Longrightarrow> sent_by M c h (aq_LeaderID req) req \<and>
    (piece_of (glog h (aq_Term req)) req \<or> nowhere req)"
  unfolding message_inv_def by blast

text \<open>The log of a follower after a leader's message, whatever came of it.\<close>

definition after_append :: "'s Node \<Rightarrow> AppendEntriesRequest \<Rightarrow> log_error + bool \<Rightarrow> 's Node \<Rightarrow> bool" where
  "after_append n0 req res n \<longleftrightarrow> currentTerm n0 \<le> aq_Term req \<and> currentTerm n = aq_Term req \<and> role n = Follower \<and>
     AppendAfter (nlog n0) (PrevLogIndex req) (PrevLogTerm req) (Entries req) = (res, nlog n) \<and>
     (commitIndex n = commitIndex n0 \<or> res = Inr True \<and> commitIndex n \<le> LeaderCommit req \<and> commitIndex n \<le> last_new req) \<and>
     lastApplied n = lastApplied n0 \<and> machine n = machine n0 \<and> apply_fn n = apply_fn n0"

lemma appended:
  assumes inv: "safe_inv M m0 app c h" and j: "j \<in> M" and req: "req \<in> append_requests c"
    and n: "after_append (nodes c j) req res n"
  shows "log_wf (nlog n)" "traced (glog h) (aq_Term req) (entries (nlog n))"
    "res = Inr True \<Longrightarrow> unat (last_new req) < length (glog h (aq_Term req)) \<and>
      take (Suc (unat (last_new req))) (entries (nlog n)) = take (Suc (unat (last_new req))) (glog h (aq_Term req))"
    "k < length (log_of c j) \<Longrightarrow> take (Suc k) (log_of c j) = take (Suc k) (glog h (aq_Term req)) \<Longrightarrow>
      take (Suc k) (entries (nlog n)) = take (Suc k) (log_of c j)"
    "glog h (aq_Term req) \<noteq> []" "commit_ok M c h (aq_Term req) (unat (LeaderCommit req))"
proof -
  let ?t = "aq_Term req" and ?es = "log_of c j"
  note nj = safe_node [OF inv j] and rf = request_from [OF safe_message [OF inv] req]
  have sb: "(aq_LeaderID req, ?t) \<in> won c" using rf by (simp add: sent_by_def)
  have G: "traced (glog h) ?t (glog h ?t)" using won_glog [OF safe_history [OF inv] sb] by blast
  have pc: "piece_of (glog h ?t) req \<or> nowhere req" using rf by blast
  have run: "AppendAfter (nlog (nodes c j)) (PrevLogIndex req) (PrevLogTerm req) (Entries req) = (res, nlog n)"
    and t: "currentTerm (nodes c j) \<le> ?t" using n by (simp_all add: after_append_def)
  note at = AppendAfter_traced [OF node_log_wf [OF nj] node_traced [OF nj] G pc run]
  show "log_wf (nlog n)" by (rule at(1))
  obtain m where "0 < m" "entries (nlog n) = take m ?es \<or> entries (nlog n) = take m (glog h ?t)" using at(2) by blast
  then show "traced (glog h) ?t (entries (nlog n))"
    using traced_take [OF traced_mono [OF node_traced [OF nj] t], of m] traced_take [OF G, of m] by auto
  show "unat (last_new req) < length (glog h ?t) \<and>
      take (Suc (unat (last_new req))) (entries (nlog n)) = take (Suc (unat (last_new req))) (glog h ?t)" if "res = Inr True"
    using at(3) [OF that] piece_of_last_new(2) traced_facts(4) [OF G] by blast
  show "take (Suc k) (entries (nlog n)) = take (Suc k) ?es"
    if "k < length ?es" "take (Suc k) ?es = take (Suc k) (glog h ?t)" using that by (rule at(4))
  show "glog h ?t \<noteq> []" "commit_ok M c h ?t (unat (LeaderCommit req))"
    using won_glog [OF safe_history [OF inv] sb] rf by (simp_all add: sent_by_def)
qed

lemma remembers_appends:
  assumes inv: "safe_inv M m0 app c h" and j: "j \<in> M" and req: "req \<in> append_requests c"
    and n: "after_append (nodes c j) req res n"
    and ak: "\<And>u k. acked d h j u k \<Longrightarrow> acked c h j u k \<or> res = Inr True \<and> u = aq_Term req \<and> k \<le> unat (last_new req)"
  shows "remembers d h j n"
  unfolding remembers_def
proof (intro allI impI)
  let ?t = "aq_Term req" and ?es = "log_of c j"
  note at = appended [OF inv j req n]
  have t: "currentTerm (nodes c j) \<le> ?t" "currentTerm n = ?t" using n by (simp_all add: after_append_def)
  fix u k assume a: "own h u k \<and> acked d h j u k"
  from ak [of u k] a consider (old) "acked c h j u k" | (new) "res = Inr True" "u = ?t" "k \<le> unat (last_new req)" by blast
  then show "u \<le> currentTerm n \<and> (take (Suc k) (entries (nlog n)) = take (Suc k) (glog h u) \<or>
      (\<exists>s \<le> currentTerm n. deviates (glog h) u k s))"
  proof cases
    case old
    then have r: "u \<le> currentTerm (nodes c j)" "take (Suc k) ?es = take (Suc k) (glog h u) \<or>
        (\<exists>s \<le> currentTerm (nodes c j). deviates (glog h) u k s)"
      using node_remembers [OF safe_node [OF inv j]] a unfolding remembers_def by blast+
    have u: "u \<le> ?t" using r(1) t(1) by (rule order_trans)
    from r(2) show ?thesis
    proof
      assume has: "take (Suc k) ?es = take (Suc k) (glog h u)"
      have k: "k < length ?es" using take_Suc_less [OF has] a by (simp add: own_def)
      show ?thesis
      proof (cases "take (Suc k) (glog h ?t) = take (Suc k) (glog h u)")
        case True
        have "take (Suc k) (entries (nlog n)) = take (Suc k) ?es" using k by (rule at(4)) (simp only: has True)
        with has u t(2) show ?thesis by simp
      next
        case False
        with u have "u < ?t" by (cases "u = ?t") auto
        with False at(5) have "deviates (glog h) u k ?t" by (simp add: deviates_def)
        with u t(2) show ?thesis by (metis order_refl)
      qed
    next
      assume "\<exists>s \<le> currentTerm (nodes c j). deviates (glog h) u k s"
      then have "\<exists>s \<le> ?t. deviates (glog h) u k s" using order_trans [OF _ t(1)] by blast
      with u t(2) show ?thesis by simp
    qed
  next
    case new
    have "take (Suc k) (entries (nlog n)) = take (Suc k) (glog h ?t)"
      by (rule take_Suc_mono [OF conjunct2 [OF at(3) [OF new(1)]] new(3)])
    with new t(2) show ?thesis by simp
  qed
qed

lemma node_inv_appends:
  assumes inv: "safe_inv M m0 app c h" and j: "j \<in> M" and req: "req \<in> append_requests c"
    and n: "after_append (nodes c j) req res n" and l: "later c h d h"
    and ak: "\<And>u k. acked d h j u k \<Longrightarrow> acked c h j u k \<or> res = Inr True \<and> u = aq_Term req \<and> k \<le> unat (last_new req)"
  shows "node_inv M m0 app d h j (applying c j) n"
proof -
  let ?t = "aq_Term req" and ?es = "log_of c j" and ?x = "unat (commitIndex n)"
  note el = safe_election [OF inv] and hi = safe_history [OF inv] and vo = safe_vote [OF inv]
  note nj = safe_node [OF inv j] and at = appended [OF inv j req n]
  have t: "currentTerm (nodes c j) \<le> ?t" "currentTerm n = ?t" using n by (simp_all add: after_append_def)
  have keep: "take (Suc x) (entries (nlog n)) = take (Suc x) ?es" if "settled M c h (nodes c j) x" "0 < x" for x
  proof (rule at(4))
    show "x < length ?es" using settled_length [OF that(1)] traced_facts(2) [OF node_traced [OF nj]] by blast
    show "take (Suc x) ?es = take (Suc x) (glog h ?t)" using el hi vo that t(1) at(5) by (rule settled_log)
  qed
  have com: "settled M d h n ?x"
  proof (cases "commitIndex n = commitIndex (nodes c j)")
    case True
    have old: "settled M c h (nodes c j) ?x" using nj True by (simp add: node_inv_def)
    show ?thesis using settled_later [OF l old] by (rule settled_take) (use t keep [OF old] in simp_all)
  next
    case False
    with n have x: "res = Inr True" "?x \<le> unat (LeaderCommit req)" "?x \<le> unat (last_new req)"
      by (auto simp: after_append_def word_le_nat_alt)
    have "take (Suc ?x) (entries (nlog n)) = take (Suc ?x) (glog h ?t)"
      by (rule take_Suc_mono [OF conjunct2 [OF at(3) [OF x(1)]] x(3)])
    then have "settled M c h n ?x" using x(2) t(2) by (intro commit_settled [OF el hi vo at(6) _ _ at(5)]) simp_all
    with l show ?thesis by (rule settled_later)
  qed
  have rem: "remembers d h j n" using inv j req n ak by (rule remembers_appends)
  show ?thesis using l nj _ at(1)
  proof (rule node_inv_keeps)
    show "traced (glog h) (currentTerm n) (entries (nlog n))" using at(2) t(2) by simp
  qed (use n rem com keep in \<open>simp_all add: after_append_def\<close>)
qed

text \<open>The handler is one of three: a step down, or an append with or without success.\<close>

lemma handleAppendEntries_after:
  assumes "handleAppendEntries n req now = (r, m)"
  obtains (calm) "calm n m" and "\<And>resp. r = Inr resp \<Longrightarrow> \<not> Success resp"
  | (after) res where "after_append n req res m" and "\<And>resp. r = Inr resp \<Longrightarrow> Success resp \<Longrightarrow> res = Inr True"
  using assms
proof (cases rule: handleAppendEntries_cases)
  case stale
  then show ?thesis using calm by (simp add: replyLocked_def)
next
  case (unsaved x)
  then show ?thesis using calm calm_adopt by fastforce
next
  case (failed m l x)
  then show ?thesis using adopt_sel [OF failed(2)] by (intro after [of "Inl x"]) (simp_all add: after_append_def max_def)
next
  case (mismatch m l)
  then show ?thesis using adopt_sel [OF mismatch(2)]
    by (intro after [of "Inr False"]) (simp_all add: after_append_def max_def replyLocked_def)
next
  case (accepted k l)
  have "new_commit (commitIndex n) req = commitIndex n \<or>
      new_commit (commitIndex n) req \<le> LeaderCommit req \<and> new_commit (commitIndex n) req \<le> last_new req"
    by (simp add: new_commit_last_new)
  then show ?thesis using adopt_sel [OF accepted(2)] accepted
    by (intro after [of "Inr True"]) (simp_all add: after_append_def max_def)
qed

lemma safe_inv_Handle:
  assumes inv: "safe_inv M m0 app c h" and j: "j \<in> M" and req: "req \<in> append_requests c"
    and run: "handleAppendEntries (nodes c j) req now = (r, n)"
    and d: "d = (set_node c j n)\<lparr>append_replies :=
      (case r of Inr resp \<Rightarrow> insert (j, req, resp) (append_replies c) | Inl _ \<Rightarrow> append_replies c)\<rparr>"
    and eld: "election_inv M d"
  shows "safe_inv M m0 app d h"
proof -
  define R where "R = (case r of Inr resp \<Rightarrow> {(j, req, resp)} | Inl _ \<Rightarrow> {})"
  have R: "append_replies d = append_replies c \<union> R" "won d = won c" "started d = started c"
    by (auto simp: d R_def set_node_def split: sum.split)
  have d': "d = (set_node c j n)\<lparr>append_replies := append_replies c \<union> R\<rparr>"
    unfolding d R_def by (cases r) simp_all
  have l: "later c h d h" by (rule later_same) (simp_all add: R)
  have ak: "acked c h v u k \<or> (\<exists>resp. (v, req, resp) \<in> R \<and> Success resp \<and> u = aq_Term req \<and> k \<le> unat (last_new req))"
    if "acked d h v u k" for v u k
    using that unfolding acked_def R by (auto simp: R_def split: sum.splits)
  from run show ?thesis
  proof (cases rule: handleAppendEntries_after)
    case calm
    then have no: "\<not> Success resp" if "(v, q, resp) \<in> R" for v q resp
      using that by (auto simp: R_def split: sum.splits)
    have ak': "no_new_acks c h d h v P" for v P using ak no unfolding no_new_acks_def by blast
    have "node_inv M m0 app d h j (applying c j) (nodes c j)"
    proof (rule node_inv_later [OF l safe_node [OF inv j] ak'])
      show "standing d h j (nodes c j)" if "role (nodes c j) = Candidate"
        using safe_node [OF inv j] that by (simp add: node_inv_def standing_def R)
    qed simp
    then show ?thesis
      by (intro safe_inv_answer [OF inv eld d'] node_inv_calm_step [OF _ calm(1)])
         (use no in \<open>auto simp: new_reply_def\<close>)
  next
    case (after res)
    have suc: "res = Inr True \<and> v = j \<and> q = req" if "(v, q, resp) \<in> R" "Success resp" for v q resp
      using that after(2) by (auto simp: R_def split: sum.splits)
    have "node_inv M m0 app d h j (applying c j) n"
      by (rule node_inv_appends [OF inv j req after(1) l]) (use ak suc in blast)
    moreover have "new_reply h (nodes c j) j x" if "x \<in> R" for x
      using that suc after(1) appended(3) [OF inv j req after(1)] by (auto simp: new_reply_def after_append_def)
    ultimately show ?thesis by (intro safe_inv_answer [OF inv eld d'])
  qed
qed

subsection \<open>What leaders send\<close>

lemma safe_inv_message:
  assumes inv: "safe_inv M m0 app c h" and d: "d = c\<lparr>drafts := D, append_requests := A\<rparr>" and el: "election_inv M d"
    and D: "\<And>b i req. (b, i, req) \<in> D \<Longrightarrow> (b, i, req) \<in> drafts c \<or> sent_by M c h i req \<and> (b = 1 \<longrightarrow> anchored h req)"
    and A: "\<And>req. req \<in> A \<Longrightarrow> req \<in> append_requests c \<or>
      sent_by M c h (aq_LeaderID req) req \<and> (piece_of (glog h (aq_Term req)) req \<or> nowhere req)"
  shows "safe_inv M m0 app d h"
proof -
  have sp: "same_past c d" by (simp add: d same_past_def)
  have l: "later c h d h" by (rule later_same) (simp_all add: d)
  have "message_inv M d h"
    using safe_message [OF inv] l
    by (rule message_inv_later) (use D A in \<open>auto simp: d same_past_sent [OF sp, unfolded d]\<close>)
  then show ?thesis
    using safe_node [OF inv] by (intro safe_inv_same [OF inv el, where i = "[]" and n = "nodes c []"]) (simp_all add: d same_votes_def)
qed

lemma settled_commit_ok: "settled M c h n x \<Longrightarrow> commit_ok M c h (currentTerm n) x"
  unfolding settled_def commit_ok_def by blast

lemma leader_sends:
  assumes inv: "safe_inv M m0 app c h" and i: "i \<in> M" and ld: "role (nodes c i) = Leader"
    and req: "aq_Term req = currentTerm (nodes c i)" "aq_LeaderID req = i" "LeaderCommit req = commitIndex (nodes c i)"
  shows "sent_by M c h i req"
  using settled_commit_ok [of M c h "nodes c i"] leader_won [OF safe_election [OF inv] i ld] safe_node [OF inv i] req
  by (simp add: sent_by_def node_inv_def)

lemma leader_log:
  assumes "safe_inv M m0 app c h" and "i \<in> M" and "leads (nodes c i) t"
  shows "log_of c i = glog h t" "log_wf (nlog (nodes c i))" "glog h t ! 0 = sentinel" "0 < length (glog h t)"
  using safe_node [OF assms(1,2)] assms(3) traced_facts(2,3) [OF node_traced [OF safe_node [OF assms(1,2)]]]
  by (auto simp: node_inv_def leads_def leading_def)

lemma fill_prev_anchored:
  assumes inv: "safe_inv M m0 app c h" and i: "i \<in> M" and ld: "leads (nodes c i) (aq_Term req)"
  shows "anchored h (fill_prev (nlog (nodes c i)) req)"
proof -
  note ll = leader_log [OF inv i ld]
  let ?p = "PrevLogIndex req"
  show ?thesis
  proof (cases "At (nlog (nodes c i)) ?p")
    case None
    then show ?thesis using ll
      by (cases "?p = 0") (simp_all add: anchored_def fill_prev_def nowhere_def)
  next
    case (Some e)
    then have "unat ?p < length (log_of c i)" "e = log_of c i ! unat ?p"
      using ll(2) by (auto simp: At_wf split: if_splits)
    with Some ll(1) show ?thesis by (simp add: anchored_def fill_prev_def)
  qed
qed

lemma fill_entries_piece:
  assumes inv: "safe_inv M m0 app c h" and i: "i \<in> M" and ld: "leads (nodes c i) (aq_Term req)" and an: "anchored h req"
  shows "piece_of (glog h (aq_Term req)) (fill_entries (nlog (nodes c i)) req) \<or> nowhere (fill_entries (nlog (nodes c i)) req)"
proof (cases "nowhere req")
  case False
  let ?G = "glog h (aq_Term req)" and ?p = "unat (PrevLogIndex req)"
  note ll = leader_log [OF inv i ld]
  have p: "?p < length ?G" "PrevLogTerm req = Term (?G ! ?p)" using an False by (simp_all add: anchored_def)
  have "length ?G < slice_max" using ll(1,2) by (auto simp: log_wf_def indexed_def)
  then have "Suc ?p < 2 ^ 64" using p(1) by (intro slice_max_u64) simp
  then have "unat (of_nat (Suc ?p) :: u64) = Suc ?p" by (rule unat_of_nat_u64)
  then have "unat (PrevLogIndex req + 1) = Suc ?p" by (simp add: add.commute)
  then have "EntriesFrom (nlog (nodes c i)) (PrevLogIndex req + 1) = drop (Suc ?p) ?G"
    by (simp add: EntriesFrom_wf [OF ll(2)] ll(1))
  then show ?thesis using p ll(4) by (simp add: piece_of_def fill_entries_def)
qed (simp add: nowhere_def fill_entries_def)

lemma draft_from: "message_inv M c h \<Longrightarrow> (b, i, req) \<in> drafts c \<Longrightarrow> sent_by M c h i req \<and> (b = 1 \<longrightarrow> anchored h req)"
  unfolding message_inv_def by blast

lemma sent_by_member: "election_inv M c \<Longrightarrow> sent_by M c h i req \<Longrightarrow> i \<in> M"
  using inv_won by (auto simp: sent_by_def)

lemma sent_by_fields:
  "sent_by M c h i req \<Longrightarrow> aq_LeaderID q = aq_LeaderID req \<Longrightarrow> aq_Term q = aq_Term req \<Longrightarrow>
   LeaderCommit q = LeaderCommit req \<Longrightarrow> sent_by M c h i q"
  by (simp add: sent_by_def)

lemma safe_inv_Draft:
  assumes inv: "safe_inv M m0 app c h" and i: "i \<in> M" and run: "replicate_request (nodes c i) p = Some req"
    and d: "d = c\<lparr>drafts := insert (0, i, req) (drafts c)\<rparr>" and el: "election_inv M d"
  shows "safe_inv M m0 app d h"
proof -
  have "cfg_ID (cfg (nodes c i)) = i" using inv_member [OF safe_election [OF inv] i] by (simp add: configured_def)
  then have "sent_by M c h i req"
    using run by (intro leader_sends [OF inv i]) (auto simp: replicate_request_def split: if_splits)
  then show ?thesis
    by (intro safe_inv_message [where D = "insert (0, i, req) (drafts c)" and A = "append_requests c", OF inv _ el]) (auto simp: d)
qed

lemma safe_inv_Draft_prev:
  assumes inv: "safe_inv M m0 app c h" and req: "(0, i, req) \<in> drafts c" and ld: "leads (nodes c i) (aq_Term req)"
    and d: "d = c\<lparr>drafts := insert (1, i, fill_prev (nlog (nodes c i)) req) (drafts c)\<rparr>" and el: "election_inv M d"
  shows "safe_inv M m0 app d h"
proof -
  have sb: "sent_by M c h i req" using draft_from [OF safe_message [OF inv] req] by blast
  have i: "i \<in> M" using safe_election [OF inv] sb by (rule sent_by_member)
  have "sent_by M c h i (fill_prev (nlog (nodes c i)) req)"
    using sb by (rule sent_by_fields) (simp_all add: fill_prev_def)
  with fill_prev_anchored [OF inv i ld] show ?thesis
    by (intro safe_inv_message [where D = "insert (1, i, fill_prev (nlog (nodes c i)) req) (drafts c)" and A = "append_requests c", OF inv _ el])
       (auto simp: d)
qed

lemma safe_inv_Send:
  assumes inv: "safe_inv M m0 app c h" and req: "(1, i, req) \<in> drafts c" and ld: "leads (nodes c i) (aq_Term req)"
    and d: "d = c\<lparr>append_requests := insert (fill_entries (nlog (nodes c i)) req) (append_requests c)\<rparr>"
    and el: "election_inv M d"
  shows "safe_inv M m0 app d h"
proof -
  let ?q = "fill_entries (nlog (nodes c i)) req"
  have sb: "sent_by M c h i req" and an: "anchored h req" using draft_from [OF safe_message [OF inv] req] by simp_all
  have i: "i \<in> M" using safe_election [OF inv] sb by (rule sent_by_member)
  have q: "aq_LeaderID ?q = i" "aq_Term ?q = aq_Term req" using sb by (simp_all add: fill_entries_def sent_by_def)
  have "sent_by M c h (aq_LeaderID ?q) ?q"
    unfolding q using sb by (rule sent_by_fields) (simp_all add: fill_entries_def)
  with fill_entries_piece [OF inv i ld an] q(2) show ?thesis
    by (intro safe_inv_message [where D = "drafts c" and A = "insert ?q (append_requests c)", OF inv _ el]) (auto simp: d)
qed

lemma safe_inv_Probe:
  assumes inv: "safe_inv M m0 app c h" and i: "i \<in> M" and run: "probe_request (nodes c i) = Some req"
    and d: "d = c\<lparr>append_requests := insert req (append_requests c)\<rparr>" and el: "election_inv M d"
  shows "safe_inv M m0 app d h"
proof -
  have id: "cfg_ID (cfg (nodes c i)) = i" using inv_member [OF safe_election [OF inv] i] by (simp add: configured_def)
  have r: "role (nodes c i) = Leader" "aq_Term req = currentTerm (nodes c i)" "aq_LeaderID req = i"
      "LeaderCommit req = commitIndex (nodes c i)" "PrevLogIndex req = 0" "PrevLogTerm req = 0" "Entries req = []"
    using run id by (auto simp: probe_request_def split: if_splits)
  have "leads (nodes c i) (aq_Term req)" using r by (simp add: leads_def)
  note ll = leader_log [OF inv i this]
  have "sent_by M c h (aq_LeaderID req) req" using leader_sends [OF inv i r(1,2,3,4)] r(3) by simp
  moreover have "piece_of (glog h (aq_Term req)) req" using ll(3,4) r(5-7) by (simp add: piece_of_def)
  ultimately show ?thesis
    by (intro safe_inv_message [where D = "drafts c" and A = "insert req (append_requests c)", OF inv _ el]) (auto simp: d)
qed

subsection \<open>Replies and the leader's commit index\<close>

lemma node_inv_leading: "node_inv M m0 app c h v a n \<Longrightarrow> role n = Leader \<Longrightarrow> leading c h n"
  by (simp add: node_inv_def)

lemma node_inv_Reply:
  assumes inv: "safe_inv M m0 app c h" and i: "i \<in> M" and rep: "(j, req, resp) \<in> append_replies c"
    and p: "peer_ID p = j" and run: "replicate_reply (nodes c i) p req resp = (b, n)" and ld: "leads (nodes c i) (aq_Term req)"
  shows "node_inv M m0 app c h i (applying c i) n"
proof (cases "Success resp \<and> \<not> currentTerm (nodes c i) < ar_Term resp")
  case False
  then show ?thesis using node_inv_calm_step [OF safe_node [OF inv i] calm_reply [OF run]] by blast
next
  case True
  let ?n = "nodes c i"
  note ni = safe_node [OF inv i]
  have n: "n = ?n\<lparr>matchIndex := (matchIndex ?n)(j \<mapsto> last_new req), nextIndex := (nextIndex ?n)(j \<mapsto> last_new req + 1)\<rparr>"
    using True run p by (auto simp: replicate_reply_def Let_def last_new_def)
  have r: "role ?n = Leader" "currentTerm ?n = aq_Term req" using ld by (simp_all add: leads_def)
  have "acked c h j (aq_Term req) k" if "k \<le> unat (last_new req)" for k
    using that rep True unfolding acked_def by blast
  then have "leading c h n"
    using node_inv_leading [OF ni r(1)] r(2) by (auto simp: leading_def n at0_def)
  moreover have "settled M c h n (unat (commitIndex n))"
    using ni settled_mono [of M c h ?n _ n] by (simp add: node_inv_def n)
  ultimately show ?thesis
    using node_log_wf [OF ni] r by (intro node_inv_moves [OF ni]) (simp_all add: n)
qed

lemma leader_peers:
  assumes conf: "configured M i n"
    and Q_def: "Q = insert i (peer_ID ` {p \<in> set (cfg_Peers (cfg n)). N \<le> at0 (matchIndex n) (peer_ID p)})"
  shows "Q \<subseteq> M \<and> card Q = replicas n N"
proof -
  have v: "cfg_ID (cfg n) = i" "distinct (i # map peer_ID (cfg_Peers (cfg n)))" "M = members (cfg n)"
    using conf by (auto simp: configured_def Validate_iff)
  let ?ps = "filter (\<lambda>p. N \<le> at0 (matchIndex n) (peer_ID p)) (cfg_Peers (cfg n))"
  have Q: "Q = set (i # map peer_ID ?ps)" by (auto simp: Q_def)
  have "distinct (i # map peer_ID ?ps)" using v(2) by (auto simp: distinct_map_filter)
  then have "card Q = Suc (length ?ps)" unfolding Q by (subst distinct_card) simp_all
  moreover have "Q \<subseteq> M" using v by (auto simp: Q_def members_def)
  ultimately show ?thesis by (simp add: replicas_def)
qed

lemma committable_chosen:
  assumes inv: "safe_inv M m0 app c h" and i: "i \<in> M" and ld: "role (nodes c i) = Leader" and N: "committable (nodes c i) N"
  shows "chosen M c h (currentTerm (nodes c i)) (unat N)"
proof -
  let ?n = "nodes c i" and ?t = "currentTerm (nodes c i)" and ?k = "unat N"
  note el = safe_election [OF inv] and hi = safe_history [OF inv] and ni = safe_node [OF inv i]
  have conf: "configured M i ?n" using inv_member [OF el i] by blast
  have "leads ?n ?t" using ld by (simp add: leads_def)
  note ll = leader_log [OF inv i this]
  have w: "(i, ?t) \<in> won c" using el i ld by (rule leader_won)
  obtain e where e: "At (nlog ?n) N = Some e" "Term e = ?t" and maj: "Majority (cfg ?n) \<le> replicas ?n N"
    using N by (auto simp: committable_def)
  have N0: "N \<noteq> 0" using e(1) by (auto simp: At_def)
  have k: "?k < length (glog h ?t)" "Term (glog h ?t ! ?k) = ?t" "0 < ?k"
    using e ll N0 by (auto simp: At_wf unat_gt_0 split: if_splits)
  let ?Q = "insert i (peer_ID ` {p \<in> set (cfg_Peers (cfg ?n)). N \<le> at0 (matchIndex ?n) (peer_ID p)})"
  have Q: "?Q \<subseteq> M" "card ?Q = replicas ?n N" using leader_peers [OF conf refl] by blast+
  have "card M < 2 * Majority (cfg ?n)"
    using cluster.more_than_half [of "cfg ?n"] conf by (simp add: configured_def)
  then have half: "card M < 2 * card ?Q" using Q(2) maj by linarith
  have "acked c h v ?t ?k" if "v \<in> ?Q" for v
    using that
  proof
    assume "v = i"
    with w k(1) show ?thesis by (simp add: acked_def)
  next
    assume "v \<in> peer_ID ` {p \<in> set (cfg_Peers (cfg ?n)). N \<le> at0 (matchIndex ?n) (peer_ID p)}"
    then obtain p where p: "p \<in> set (cfg_Peers (cfg ?n))" "N \<le> at0 (matchIndex ?n) (peer_ID p)" "v = peer_ID p" by blast
    from p(2) have "?k \<le> unat (at0 (matchIndex ?n) (peer_ID p))" by (simp add: word_le_nat_alt)
    with node_inv_leading [OF ni ld] p(1,3) k(3) show ?thesis unfolding leading_def by blast
  qed
  moreover have "own h ?t ?k" using k won_term [OF el hi w] by (simp add: own_def)
  ultimately show ?thesis using Q(1) half unfolding chosen_def by blast
qed

lemma node_inv_Advance:
  assumes inv: "safe_inv M m0 app c h" and i: "i \<in> M"
  shows "node_inv M m0 app c h i (applying c i) (advanceCommit (nodes c i))"
proof (cases "role (nodes c i) = Leader \<and> commitIndex (advanceCommit (nodes c i)) \<noteq> commitIndex (nodes c i)")
  case False
  then have "calm (nodes c i) (advanceCommit (nodes c i))"
    by (auto simp: advanceCommit_def calm_def split: if_splits)
  with safe_node [OF inv i] show ?thesis by (rule node_inv_calm_step)
next
  case True
  let ?n = "nodes c i" and ?m = "advanceCommit (nodes c i)"
  note ni = safe_node [OF inv i]
  have ld: "role ?n = Leader" using True by blast
  have m: "?m = ?n\<lparr>commitIndex := commitIndex ?m\<rparr>" by (simp add: advanceCommit_def)
  have sel: "currentTerm ?m = currentTerm ?n" "nlog ?m = nlog ?n" "role ?m = Leader" "cfg ?m = cfg ?n"
      "matchIndex ?m = matchIndex ?n" "lastApplied ?m = lastApplied ?n" "machine ?m = machine ?n" "apply_fn ?m = apply_fn ?n"
    using ld by (subst m, simp)+
  have "leads ?n (currentTerm ?n)" using ld by (simp add: leads_def)
  note ll = leader_log [OF inv i this]
  have "chosen M c h (currentTerm ?n) (unat (commitIndex ?m))"
    using advanceCommit_sound [of ?n] True by (intro committable_chosen [OF inv i ld]) blast
  then have "settled M c h ?m (unat (commitIndex ?m))"
    using ll(1) unfolding settled_def sel by (metis order_refl)
  moreover have "leading c h ?m" using node_inv_leading [OF ni ld] by (simp add: leading_def sel)
  ultimately show ?thesis
    by (intro node_inv_moves [OF ni]) (simp_all add: sel node_log_wf [OF ni])
qed

subsection \<open>Applying, and restarts\<close>

lemma settled_less: "settled M c h n x \<Longrightarrow> y \<le> x \<Longrightarrow> settled M c h n y"
  unfolding settled_def by (cases "x = 0") (simp, meson order_trans take_Suc_mono)

lemma apply_read_settled:
  assumes ni: "node_inv M m0 app c h v a n" and e: "apply_next n = Some e"
  shows "node_inv M m0 app c h v (Some e) n"
proof -
  let ?x = "Suc (unat (lastApplied n))"
  note an = apply_next_Some [OF e]
  have "settled M c h n (unat (commitIndex n))" using ni by (simp add: node_inv_def)
  then have "settled M c h n ?x" by (rule settled_less) (use an in simp)
  moreover have "e = entries (nlog n) ! ?x"
    using an node_log_wf [OF ni] by (auto simp: At_wf split: if_splits)
  ultimately show ?thesis using ni unfolding node_inv_def by blast
qed

lemma apply_do_inv:
  assumes ni: "node_inv M m0 app c h v (Some e) n"
  shows "node_inv M m0 app c h v None (apply_one n e)"
proof -
  let ?x = "unat (lastApplied n)" and ?es = "entries (nlog n)" and ?m = "apply_one n e"
  from ni have n: "settled M c h n (Suc ?x)" "e = ?es ! Suc ?x" "apply_fn n = app"
      "machine n = foldl app m0 (take ?x (tl ?es))"
    unfolding node_inv_def by blast+
  have len: "Suc ?x < length ?es"
    using settled_length [OF n(1)] traced_facts(2) [OF node_traced [OF ni]] by blast
  have "length ?es < 2 ^ 64" using traced_facts(1) [OF node_traced [OF ni]] indexed_length by blast
  then have "unat (of_nat (Suc ?x) :: u64) = Suc ?x" using len by (intro unat_of_nat_u64) simp
  then have x: "unat (lastApplied n + 1) = Suc ?x" by (simp add: add.commute)
  have "take (Suc ?x) (tl ?es) = take ?x (tl ?es) @ [e]"
    using len n(2) by (simp add: take_Suc_conv_app_nth nth_tl)
  then have mach: "machine ?m = foldl app m0 (take (unat (lastApplied ?m)) (tl (entries (nlog ?m))))"
    using n(3,4) x by (simp add: apply_one_def)
  have st: "settled M c h ?m y = settled M c h n y" for y by (simp add: settled_def apply_one_def)
  have sel: "nlog ?m = nlog n" "currentTerm ?m = currentTerm n" "role ?m = role n" "commitIndex ?m = commitIndex n"
      "apply_fn ?m = apply_fn n" "cfg ?m = cfg n" "matchIndex ?m = matchIndex n" "unat (lastApplied ?m) = Suc ?x"
    using x by (simp_all add: apply_one_def)
  have "leading c h ?m = leading c h n" "standing c h v ?m = standing c h v n" "remembers c h v ?m = remembers c h v n"
    by (simp_all add: leading_def standing_def remembers_def sel)
  note same = this
  show ?thesis
    unfolding node_inv_def st sel same using ni [unfolded node_inv_def] mach [unfolded sel] n(1) by simp
qed

lemma restarts_fresh:
  assumes "restarts m0 n n'" and "length (entries (nlog n')) < slice_max"
  shows "log_wf (nlog n') \<and> commitIndex n' = 0 \<and> lastApplied n' = 0 \<and> machine n' = m0 \<and> apply_fn n' = apply_fn n"
proof -
  obtain st opts now where o: "restart_log (nlog n) (o_Log opts)" "o_Apply opts = Some (apply_fn n)"
      "NewNode opts st m0 now = Inr n'"
    using assms(1) unfolding restarts_def by blast
  note s = NewNode_sel [OF o(3)]
  have "log_wf (o_Log opts)"
    using o(1) assms(2) s by (auto simp: restart_log_def log_wf_NewLog intro: OpenLog_wf split: option.splits)
  moreover have "apply_fn n' = apply_fn n"
    using o(2,3) by (auto simp: NewNode_def Let_def split: option.splits if_splits)
  ultimately show ?thesis using s by simp
qed

lemma safe_inv_Restart:
  assumes inv: "safe_inv M m0 app c h" and i: "i \<in> M" and r: "restarts m0 (nodes c i) n" and k: "keeps_memory (nodes c i) n"
    and d: "d = forget i (set_node c i n)" and el: "election_inv M d"
  shows "safe_inv M m0 app d h"
proof -
  note ni = safe_node [OF inv i]
  have same: "currentTerm n = currentTerm (nodes c i)" "entries (nlog n) = log_of c i"
    using k by (simp_all add: keeps_memory_def)
  have "length (entries (nlog n)) < slice_max" using traced_facts(4) [OF node_traced [OF ni]] same by simp
  note fr = restarts_fresh [OF r this]
  have role: "role n = Follower" using restarts_sel [OF r] by blast
  have "traced (glog h) (currentTerm n) (entries (nlog n))" using node_traced [OF ni] same by simp
  moreover have "remembers c h i n" using node_remembers [OF ni] by (rule remembers_mono) (simp_all add: same)
  moreover have "apply_fn n = app" using fr ni by (simp add: node_inv_def)
  ultimately have "node_inv M m0 app c h i None n"
    using fr role by (simp add: node_inv_def settled_def)
  then have "node_inv M m0 app c h i (applying d i) n" by (simp add: d forget_def)
  moreover have "message_inv M d h"
    using safe_message [OF inv] by (rule message_inv_sub) (auto simp: d forget_def same_past_def set_node_def)
  ultimately show ?thesis
    by (intro safe_inv_same [OF inv el]) (auto simp: d forget_def same_votes_def set_node_def)
qed

subsection \<open>All steps\<close>

lemma cstep_past: "cstep M m0 strict orderly c d \<Longrightarrow> won c \<subseteq> won d \<and> append_replies c \<subseteq> append_replies d"
  by (erule cstep_cases) (auto simp: forget_def set_node_def split: sum.splits)

theorem safe_inv_cstep:
  assumes step: "cstep M m0 True True c d" and inv: "safe_inv M m0 app c h"
  shows "\<exists>g. safe_inv M m0 app d g \<and> later c h d g"
proof -
  have el: "election_inv M d" using step safe_election [OF inv] by (rule election_inv_cstep)
  have keeps: "\<exists>g. safe_inv M m0 app d g \<and> later c h d g" if "safe_inv M m0 app d h"
    using that cstep_past [OF step] later_same [of h h c d] by blast
  note calm = safe_inv_calm_step [OF inv el] and silent = safe_inv_silent [OF inv el]
  from step show ?thesis
  proof (cases rule: cstep.cases)
    case (Campaign i now req n)
    show ?thesis using inv Campaign(2-4,1) el by (rule safe_inv_Campaign)
  next
    case (Campaign_unsaved i now e n)
    show ?thesis unfolding Campaign_unsaved(1) using inv Campaign_unsaved(2-4) by (intro keeps [unfolded Campaign_unsaved(1)] safe_inv_Campaign_unsaved)
  next
    case (Vote j req now resp n)
    show ?thesis using safe_inv_Vote [OF inv Vote(2,3,5,1) el] keeps by blast
  next
    case (Vote_error j req now e n)
    show ?thesis
      by (rule keeps, rule calm [where i = j and n = n])
         (simp_all add: Vote_error(1) set_node_def same_votes_def calm_HandleRequestVote [OF Vote_error(5)])
  next
    case (Count i t j req resp ok n)
    show ?thesis using safe_inv_Count [OF inv Count(2,3,8,1) el] keeps by blast
  next
    case (Lose e)
    show ?thesis by (rule keeps, rule silent) (auto simp: Lose(1) same_votes_def)
  next
    case (Win i t ok n)
    show ?thesis
    proof (cases ok)
      case True
      then show ?thesis using safe_inv_Win [OF inv Win(2,3) _ _ el] Win(1,5) by simp
    next
      case False
      then have n: "calm (nodes c i) n" using Win(5) by (intro calm_promote) simp
      show ?thesis
        by (rule keeps, rule calm [where i = i and n = n]) (use n False in \<open>auto simp: Win(1) set_node_def same_votes_def\<close>)
    qed
  next
    case (Draft i p req)
    show ?thesis using safe_inv_Draft [OF inv Draft(2,4,1) el] keeps by blast
  next
    case (Draft_prev i req)
    show ?thesis using safe_inv_Draft_prev [OF inv Draft_prev(2) _ Draft_prev(1) el] Draft_prev(3) keeps by blast
  next
    case (Send i req)
    show ?thesis using safe_inv_Send [OF inv Send(2) _ Send(1) el] Send(3) keeps by blast
  next
    case (Probe i req)
    show ?thesis using safe_inv_Probe [OF inv Probe(2,3,1) el] keeps by blast
  next
    case (Handle_append j req now r n)
    show ?thesis using safe_inv_Handle [OF inv Handle_append(2,3,5,1) el] keeps by blast
  next
    case (Reply i j req resp p b n)
    have "node_inv M m0 app c h i (applying c i) n"
      using Reply(8) by (intro node_inv_Reply [OF inv Reply(2,3,6,7)]) simp
    then have "safe_inv M m0 app d h"
      by (intro safe_inv_calm [OF inv el, where i = i and n = n]) (simp_all add: Reply(1) set_node_def same_votes_def)
    then show ?thesis by (rule keeps)
  next
    case (Probe_newer i j req resp)
    show ?thesis by (rule keeps, rule silent) (simp_all add: Probe_newer(1) same_votes_def)
  next
    case (Probe_set i resp)
    then have "calm (nodes c i) (probe_set (nodes c i) resp)" by (intro calm_probe_set) simp
    then have "safe_inv M m0 app d h"
      by (intro calm [where i = i and n = "probe_set (nodes c i) resp"])
         (simp_all add: Probe_set(1) set_node_def same_votes_def)
    then show ?thesis by (rule keeps)
  next
    case (Ask_read i)
    show ?thesis by (rule keeps, rule silent) (simp_all add: Ask_read(1) same_votes_def)
  next
    case (Handle_read j req r n)
    show ?thesis
      by (rule keeps, rule calm [where i = j and n = n])
         (simp_all add: Handle_read(1) set_node_def same_votes_def calm_read_term [OF Handle_read(4)])
  next
    case (Propose_start i t cmd)
    show ?thesis by (rule keeps, rule silent) (simp_all add: Propose_start(1) same_votes_def)
  next
    case (Propose_append i t cmd r n)
    then have "leads (nodes c i) t" "Suc (length (log_of c i)) < slice_max" by simp_all
    with inv Propose_append(2,4) show ?thesis using Propose_append(1) el by (rule safe_inv_Propose)
  next
    case (Advance i)
    show ?thesis
      by (rule keeps, rule safe_inv_calm [OF inv el, where i = i and n = "advanceCommit (nodes c i)"])
         (simp_all add: Advance(1) set_node_def same_votes_def node_inv_Advance [OF inv])
  next
    case (Apply_read i e)
    have "node_inv M m0 app c h i (applying d i) (nodes c i)"
      using apply_read_settled [OF safe_node [OF inv Apply_read(2)] Apply_read(4)] by (simp add: Apply_read(1))
    moreover have "message_inv M d h"
      using safe_message [OF inv] by (rule message_inv_sub) (simp_all add: Apply_read(1) same_past_def)
    ultimately have "safe_inv M m0 app d h"
      by (intro safe_inv_same [OF inv el, where i = i and n = "nodes c i"]) (simp_all add: Apply_read(1) same_votes_def)
    then show ?thesis by (rule keeps)
  next
    case (Apply_do i e)
    have "node_inv M m0 app c h i (applying d i) (apply_one (nodes c i) e)"
      using safe_node [OF inv Apply_do(2)] Apply_do(3) by (simp add: Apply_do(1) apply_do_inv)
    moreover have "message_inv M d h"
      using safe_message [OF inv] by (rule message_inv_sub) (simp_all add: Apply_do(1) same_past_def set_node_def)
    ultimately have "safe_inv M m0 app d h"
      by (intro safe_inv_same [OF inv el, where i = i and n = "apply_one (nodes c i) e"])
         (simp_all add: Apply_do(1) same_votes_def set_node_def)
    then show ?thesis by (rule keeps)
  next
    case (Restart i n)
    show ?thesis using safe_inv_Restart [OF inv Restart(2,3) _ Restart(1) el] Restart(4) keeps by blast
  qed
qed

end
