(* ===== verification/Raft_Agreement.thy ===== *)
theory Raft_Agreement
  imports Raft_Steps "HOL-Library.Sublist"
begin

text \<open>
  What the invariant of \<open>Raft_Safety\<close> says about the life of an orderly cluster: what any two members
  have applied at any two moments agrees, and so do their state machines; a leader has
  all that was ever committed; logs with an entry of the same term at the same place are equal
  up to it.
\<close>

lemma later_trans:
  assumes "later c h d g" and "later d g e k"
  shows "later c h e k"
  unfolding later_def
proof (intro conjI allI impI)
  show "grows (glog h) (glog k)"
    unfolding grows_def
  proof
    fix t
    have "take (length (glog h t)) (glog k t) = take (length (glog h t)) (glog g t)"
      using assms by (intro grows_take grows_length) (auto simp: later_def)
    also have "\<dots> = glog h t" using assms(1) by (simp add: later_def grows_def)
    finally show "take (length (glog h t)) (glog k t) = glog h t" .
  qed
  show "won c \<subseteq> won e" "append_replies c \<subseteq> append_replies e" using assms unfolding later_def by blast+
  show "deviates (glog k) t x s" if "own h t x \<and> deviates (glog h) t x s" for t x s
    using assms that own_later [OF assms(1), of t x] unfolding later_def by blast
qed

lemma safe_inv_reachable:
  assumes "reachable M m0 True True c d" and inv: "safe_inv M m0 app c h"
  shows "\<exists>g. safe_inv M m0 app d g \<and> later c h d g"
  using assms(1)
proof induction
  case start
  have "later c h c h" by (rule later_same) simp_all
  with inv show ?case by blast
next
  case (more d e)
  then obtain g where g: "safe_inv M m0 app d g" "later c h d g" by blast
  from safe_inv_cstep [OF more.hyps(2) g(1)] g(2) show ?case by (blast intro: later_trans)
qed

text \<open>A new cluster: as in \<^const>\<open>initial\<close>, and all logs and state machines are empty.\<close>

definition fresh :: "NodeID set \<Rightarrow> 's \<Rightarrow> ('s \<Rightarrow> Record \<Rightarrow> 's) \<Rightarrow> 's cluster \<Rightarrow> bool" where
  "fresh M m0 app c \<longleftrightarrow> initial M c \<and> (\<forall>i \<in> M. log_wf (nlog (nodes c i)) \<and> log_of c i = [sentinel] \<and>
     commitIndex (nodes c i) = 0 \<and> lastApplied (nodes c i) = 0 \<and> machine (nodes c i) = m0 \<and> apply_fn (nodes c i) = app)"

lemma fresh_safe:
  assumes "fresh M m0 app c"
  shows "safe_inv M m0 app c \<lparr>glog = \<lambda>_. [], clog = \<lambda>_. []\<rparr>" (is "safe_inv M m0 app c ?h")
proof -
  have ini: "initial M c" using assms by (simp add: fresh_def)
  then have e: "started c = {}" "won c = {}" "running c = {}" "vote_requests c = {}" "vote_replies c = {}" "drafts c = {}"
      "append_requests c = {}" "append_replies c = {}" "applying c = (\<lambda>_. None)"
    by (simp_all add: initial_def)
  have ca: "cast c = {}" by (simp add: cast_def e)
  have "remembers c ?h v n" for v n by (simp add: remembers_def own_def)
  moreover have "traced (glog ?h) t [sentinel]" for t by (rule traced_fresh)
  moreover have "role (nodes c v) \<noteq> Leader" if "v \<in> M" for v using ini that by (simp add: initial_def)
  ultimately have "node_inv M m0 app c ?h v (applying c v) (nodes c v)" if "v \<in> M" for v
    using assms that unfolding fresh_def node_inv_def by (simp add: e settled_def standing_def)
  moreover have "history_inv c ?h" "vote_inv c ?h" "message_inv M c ?h"
    by (simp_all add: history_inv_def vote_inv_def message_inv_def e ca)
  ultimately show ?thesis using election_inv_initial [OF ini] by (simp add: safe_inv_def)
qed

lemma fresh_reachable:
  assumes "fresh M m0 app c" and "reachable M m0 True True c d"
  obtains h where "safe_inv M m0 app d h"
  using safe_inv_reachable [OF assms(2) fresh_safe [OF assms(1)]] by blast

text \<open>What a node has applied, in order.\<close>

definition applied :: "'s Node \<Rightarrow> Record list" where
  "applied n = take (unat (lastApplied n)) (tl (entries (nlog n)))"

lemma node_settled:
  "node_inv M m0 app c h v a n \<Longrightarrow> settled M c h n (unat (commitIndex n)) \<and> settled M c h n (unat (lastApplied n))"
  by (simp add: node_inv_def)

lemma applied_length:
  assumes "node_inv M m0 app c h v a n"
  shows "length (applied n) = unat (lastApplied n)"
  using settled_length [OF conjunct2 [OF node_settled [OF assms]] traced_facts(2) [OF node_traced [OF assms]]]
  by (simp add: applied_def)

lemma applied_machine: "node_inv M m0 app c h v a n \<Longrightarrow> machine n = foldl app m0 (applied n)"
  by (simp add: node_inv_def applied_def)

text \<open>Two nodes, at two moments of the cluster's life.\<close>

lemma take_applied: "take x (tl es) = tl (take (Suc x) es)"
  by (simp add: tl_take)

theorem applied_agree:
  assumes inv: "safe_inv M m0 app d h" and run: "reachable M m0 True True d e" and i: "i \<in> M" and k: "k \<in> M"
  shows "prefix (applied (nodes d i)) (applied (nodes e k)) \<or> prefix (applied (nodes e k)) (applied (nodes d i))"
proof -
  let ?n = "nodes d i" and ?m = "nodes e k"
  obtain g where g: "safe_inv M m0 app e g" "later d h e g" using safe_inv_reachable [OF run inv] by blast
  have n: "settled M e g ?n (unat (lastApplied ?n))"
    using settled_later [OF g(2)] node_settled [OF safe_node [OF inv i]] by blast
  have m: "settled M e g ?m (unat (lastApplied ?m))" using node_settled [OF safe_node [OF g(1) k]] by blast
  note agree = settled_agree [OF safe_election safe_history safe_vote, OF g(1) g(1) g(1)]
  have pre: "prefix (take x (tl es)) (take y (tl fs))"
    if "x \<le> y" "0 < x \<Longrightarrow> take (Suc x) es = take (Suc x) fs" for x y and es fs :: "Record list"
  proof -
    have "take x (tl es) = take x (tl fs)" using that(2) by (cases "x = 0") (simp_all add: take_applied)
    with that(1) show ?thesis by (metis min.absorb1 take_is_prefix take_take)
  qed
  show ?thesis
  proof (cases "unat (lastApplied ?n) \<le> unat (lastApplied ?m)")
    case True
    then have "prefix (applied ?n) (applied ?m)" unfolding applied_def by (rule pre) (rule agree [OF n m True])
    then show ?thesis by blast
  next
    case False
    then have "unat (lastApplied ?m) \<le> unat (lastApplied ?n)" by simp
    then have "prefix (applied ?m) (applied ?n)" unfolding applied_def by (rule pre) (rule agree [OF m n \<open>_ \<le> _\<close>])
    then show ?thesis by blast
  qed
qed

text \<open>A leader has everything that was ever committed in its term or before.\<close>

theorem leader_has_committed:
  assumes inv: "safe_inv M m0 app d h" and run: "reachable M m0 True True d e" and k: "k \<in> M" and i: "i \<in> M"
    and l: "role (nodes e i) = Leader" and t: "currentTerm (nodes d k) \<le> currentTerm (nodes e i)"
    and x: "x \<le> unat (commitIndex (nodes d k))"
  shows "take (Suc x) (log_of e i) = take (Suc x) (log_of d k) \<and> x < length (log_of d k)"
proof -
  obtain g where g: "safe_inv M m0 app e g" "later d h e g" using safe_inv_reachable [OF run inv] by blast
  have s: "settled M d h (nodes d k) x" using node_settled [OF safe_node [OF inv k]] x by (blast intro: settled_less)
  have len: "x < length (log_of d k)"
    using settled_length [OF s] traced_facts(2) [OF node_traced [OF safe_node [OF inv k]]] by blast
  have "leads (nodes e i) (currentTerm (nodes e i))" using l by (simp add: leads_def)
  note ll = leader_log [OF g(1) i this]
  have "take (Suc x) (log_of d k) = take (Suc x) (log_of e i)"
  proof (cases "x = 0")
    case True
    have "log_of d k ! 0 = sentinel" "log_of e i ! 0 = sentinel" "log_of e i \<noteq> []" "log_of d k \<noteq> []"
      using traced_facts(2,3) [OF node_traced [OF safe_node [OF inv k]]] ll(1,3,4) by auto
    then show ?thesis using True by (cases "log_of d k"; cases "log_of e i") simp_all
  next
    case False
    with s g t ll(1,4) show ?thesis
      using settled_log [OF safe_election safe_history safe_vote, OF g(1) g(1) g(1) settled_later [OF g(2) s]] by simp
  qed
  with len show ?thesis by simp
qed

theorem logs_match:
  assumes "safe_inv M m0 app d h" and "i \<in> M" and "k \<in> M"
  shows "matching (log_of d i) (log_of d k)"
  using node_traced [OF safe_node [OF assms(1,2)]] node_traced [OF safe_node [OF assms(1,3)]] by (rule traced_matching)

subsection \<open>Restarts\<close>

text \<open>
  \<^const>\<open>keeps_memory\<close>, which the steps of an orderly cluster ask of a restart, holds for every restart
  of a node whose last writes have reached its disk, whatever faults the restart itself meets.
\<close>

lemma restart_log_entries:
  assumes "restart_log l l'" and wf: "log_wf l" and d: "on_disk l" and wl: "w l = Some wl"
    and fits: "\<forall>r \<in> set (tl (entries l)). fits r \<and> utf8_record r"
  shows "entries l' = entries l"
proof -
  let ?rs = "tl (entries l)"
  obtain fl where fl: "crash_content (Wal.f wl) (cached fl)" "OpenLog True fl = Inr l'"
    using assms(1) wl by (auto simp: restart_log_def)
  have "wal_holds wl ?rs" using d wl by (simp add: on_disk_def mirrors_def)
  then have "cached fl = frames ?rs" using fl(1) by (simp add: wal_holds_def crash_synced)
  then have "entries l' = sentinel # map sanitize_record ?rs"
    using fits by (intro OpenLog_frames [OF fl(2)]) simp_all
  moreover have "map sanitize_record ?rs = ?rs" using fits by (intro map_idI) (simp add: sanitize_record_valid)
  ultimately show ?thesis using wf indexed_tl by (simp add: log_wf_def)
qed

theorem restart_keeps_memory:
  assumes r: "restarts m0 n n'" and "log_wf (nlog n)" and "on_disk (nlog n)" and "w (nlog n) = Some wl"
    and "\<forall>r \<in> set (tl (entries (nlog n))). fits r \<and> utf8_record r" and saved: "on_record n \<subseteq> {pair_of n}"
  shows "keeps_memory n n'"
proof -
  obtain opts st now where o: "restart_log (nlog n) (o_Log opts)" "NewNode opts st m0 now = Inr n'"
    using r unfolding restarts_def by blast
  have "entries (nlog n') = entries (nlog n)"
    using restart_log_entries [OF o(1) assms(2-5)] NewNode_sel [OF o(2)] by simp
  moreover have "pair_of n' = pair_of n" using restarts_sel [OF r] saved by blast
  then have "currentTerm n' = currentTerm n" by (simp add: pair_of_def)
  ultimately show ?thesis by (simp add: keeps_memory_def)
qed

end
