(* ===== verification/Raft_Reads.thy ===== *)
theory Raft_Reads
  imports Raft_Agreement
begin

text \<open>
  Strong reads in an orderly cluster. A leader that has committed an entry of its own term and whom, after
  that, a majority follows in this term knows of everything that had been committed anywhere
  when it looked at its commit index: that is what \<^verbatim>\<open>confirmRound\<close> of \<^verbatim>\<open>src/internal/raft/read.go\<close> is for.
\<close>

subsection \<open>What a step does to a member\<close>

text \<open>Who has led a term once either still does, with no lower commit index, or never will again.\<close>

definition steady :: "'s Node \<Rightarrow> 's Node \<Rightarrow> bool" where
  "steady n m \<longleftrightarrow> currentTerm n < currentTerm m \<or> currentTerm n = currentTerm m \<and>
     (role m = Follower \<or> role n = Candidate \<or> role m = role n \<and> commitIndex n \<le> commitIndex m)"

definition moved :: "'s Node \<Rightarrow> 's Node \<Rightarrow> bool" where
  "moved n m \<longleftrightarrow> steady n m \<and> (commitIndex m \<le> commitIndex n \<or> role m = Leader) \<and> lastApplied m = lastApplied n"

definition effect :: "'s cluster \<Rightarrow> 's cluster \<Rightarrow> NodeID \<Rightarrow> bool" where
  "effect c d v \<longleftrightarrow> steady (nodes c v) (nodes d v) \<and>
     (commitIndex (nodes d v) \<le> commitIndex (nodes c v) \<or> role (nodes d v) = Leader \<or>
      (\<exists>req \<in> append_requests c. commitIndex (nodes d v) \<le> LeaderCommit req)) \<and>
     (lastApplied (nodes d v) \<le> lastApplied (nodes c v) \<or>
      applying c v \<noteq> None \<and> lastApplied (nodes d v) = lastApplied (nodes c v) + 1) \<and>
     (applying d v = None \<or> applying d v = applying c v \<and> lastApplied (nodes d v) = lastApplied (nodes c v) \<or>
      lastApplied (nodes d v) + 1 \<le> commitIndex (nodes c v))"

lemma steady_refl [simp]: "steady n n"
  by (simp add: steady_def)

lemma moved_refl [simp]: "moved n n"
  by (simp add: moved_def)

lemma moved_calm: "calm n m \<Longrightarrow> moved n m"
  using order_le_less [of "currentTerm n" "currentTerm m"] unfolding calm_def moved_def steady_def
  by (cases "role m") simp_all

lemma moved_advance: "moved n (advanceCommit n)"
proof (cases "role n = Leader")
  case True
  then have "role (advanceCommit n) = Leader" "currentTerm (advanceCommit n) = currentTerm n"
      "lastApplied (advanceCommit n) = lastApplied n"
    by (simp_all add: advanceCommit_def)
  then show ?thesis using True advanceCommit_sound [of n] by (simp add: moved_def steady_def)
qed (simp add: advanceCommit_def)

lemma moved_reply:
  assumes "replicate_reply n p req resp = (b, m)"
  shows "moved n m"
proof (cases "\<not> Success resp \<or> currentTerm n < ar_Term resp")
  case True
  with assms show ?thesis by (intro moved_calm calm_reply)
next
  case False
  then show ?thesis using assms by (auto simp: replicate_reply_def moved_def steady_def Let_def)
qed

lemma moved_propose: "propose_append n t cmd = (r, m) \<Longrightarrow> moved n m"
  by (auto simp: propose_append_def moved_def steady_def split: prod.splits option.splits)

lemma moved_campaign: "campaign_start n now = (r, m) \<Longrightarrow> currentTerm n < currentTerm n + 1 \<Longrightarrow> moved n m"
  using campaign_start_sel by (fastforce simp: moved_def steady_def)

lemma moved_promote: "promote n t = (ok, m) \<Longrightarrow> moved n m"
  using promote_sel [of n t m] calm_promote [of n t m]
  by (cases ok) (auto simp: moved_def steady_def dest: moved_calm)

lemma effect_node:
  assumes "nodes d = (nodes c)(i := n)" and "applying d = applying c" and "moved (nodes c i) n"
  shows "effect c d v"
  using assms by (cases "v = i") (auto simp: effect_def moved_def)

lemma effect_silent: "nodes d = nodes c \<Longrightarrow> applying d = applying c \<Longrightarrow> effect c d v"
  by (simp add: effect_def)

lemma effect_handle:
  assumes n: "nodes d = (nodes c)(j := n)" and a: "applying d = applying c" and req: "req \<in> append_requests c"
    and run: "handleAppendEntries (nodes c j) req now = (r, n)"
  shows "effect c d v"
  using run
proof (cases rule: handleAppendEntries_after)
  case calm
  with n a show ?thesis by (intro effect_node moved_calm) simp_all
next
  case (after res)
  with n a req show ?thesis by (cases "v = j") (auto simp: effect_def after_append_def steady_def order_le_less)
qed

lemma restarts_empty:
  assumes "restarts m0 n n'"
  shows "role n' = Follower \<and> commitIndex n' = 0 \<and> lastApplied n' = 0"
proof -
  obtain opts st now where "NewNode opts st m0 now = Inr n'" using assms unfolding restarts_def by blast
  then show ?thesis using NewNode_sel restarts_sel [OF assms] by fastforce
qed

lemma cstep_effect:
  assumes "cstep M m0 True True c d"
  shows "effect c d v"
  using assms
proof (cases rule: cstep.cases)
  case (Campaign i now req n)
  then show ?thesis by (intro effect_node [of d c i n] moved_campaign) (simp_all add: set_node_def)
next
  case (Campaign_unsaved i now e n)
  then show ?thesis by (intro effect_node [of d c i n] moved_campaign) (simp_all add: set_node_def)
next
  case (Vote j req now resp n)
  then show ?thesis
    by (intro effect_node [of d c j n] moved_calm calm_HandleRequestVote) (simp_all add: set_node_def)
next
  case (Vote_error j req now e n)
  then show ?thesis
    by (intro effect_node [of d c j n] moved_calm calm_HandleRequestVote) (simp_all add: set_node_def)
next
  case (Count i t j req resp ok n)
  then show ?thesis by (intro effect_node [of d c i n] moved_calm calm_vote_reply) (simp_all add: set_node_def)
next
  case (Win i t ok n)
  then show ?thesis by (intro effect_node [of d c i n] moved_promote) (simp_all add: set_node_def)
next
  case (Handle_append j req now r n)
  then show ?thesis by (intro effect_handle [of d c j n]) (simp_all add: set_node_def)
next
  case (Reply i j req resp p b n)
  then show ?thesis by (intro effect_node [of d c i n] moved_reply) (simp_all add: set_node_def)
next
  case (Probe_set i resp)
  then show ?thesis
    by (intro effect_node [of d c i "probe_set (nodes c i) resp"] moved_calm calm_probe_set) (simp_all add: set_node_def)
next
  case (Handle_read j req r n)
  then show ?thesis by (intro effect_node [of d c j n] moved_calm calm_read_term) (simp_all add: set_node_def)
next
  case (Propose_append i t cmd r n)
  then show ?thesis by (intro effect_node [of d c i n] moved_propose) (simp_all add: set_node_def)
next
  case (Advance i)
  then show ?thesis by (intro effect_node [of d c i "advanceCommit (nodes c i)"] moved_advance) (simp_all add: set_node_def)
next
  case (Apply_read i e)
  have "lastApplied (nodes c i) + 1 \<le> commitIndex (nodes c i)"
    using Apply_read(4) by (auto simp: apply_next_def Let_def not_less split: if_splits)
  then show ?thesis by (simp add: effect_def Apply_read(1))
next
  case (Apply_do i e)
  then show ?thesis by (auto simp: effect_def set_node_def apply_one_def steady_def)
next
  case (Restart i n)
  then show ?thesis using restarts_empty [OF Restart(3)]
    by (auto simp: effect_def set_node_def forget_def steady_def keeps_memory_def)
qed (simp_all add: effect_silent)

text \<open>Where the commit index in a message comes from.\<close>

definition sends :: "'s cluster \<Rightarrow> u64 \<Rightarrow> bool" where
  "sends c x \<longleftrightarrow> (\<exists>req \<in> append_requests c. x = LeaderCommit req) \<or> (\<exists>(b, i, req) \<in> drafts c. x = LeaderCommit req)"

lemma sends_draft: "(b, i, req) \<in> drafts c \<Longrightarrow> sends c (LeaderCommit req)"
  unfolding sends_def by blast

lemma sends_silent: "sends d x \<Longrightarrow> append_requests d = append_requests c \<Longrightarrow> drafts d \<subseteq> drafts c \<Longrightarrow> sends c x"
  unfolding sends_def by blast

lemma cstep_sends:
  assumes "cstep M m0 True True c d" and x: "sends d x"
  shows "sends c x \<or> (\<exists>i \<in> M. role (nodes c i) = Leader \<and> x = commitIndex (nodes c i))"
  using assms(1)
proof (cases rule: cstep.cases)
  case (Draft i p req)
  then show ?thesis using x by (auto simp: sends_def replicate_request_def split: if_splits)
next
  case (Draft_prev i req)
  then show ?thesis using x sends_draft [OF Draft_prev(2)] by (auto simp: sends_def fill_prev_def)
next
  case (Send i req)
  then show ?thesis using x sends_draft [OF Send(2)] by (auto simp: sends_def fill_entries_def)
next
  case (Probe i req)
  then show ?thesis using x by (auto simp: sends_def probe_request_def split: if_splits)
qed (use sends_silent [OF x, of c] in \<open>simp_all add: set_node_def forget_def subset_iff\<close>)

subsection \<open>Every commit index was a leader's\<close>

lemma reachable_trans:
  assumes "reachable M m0 strict orderly c d" and "reachable M m0 strict orderly d e"
  shows "reachable M m0 strict orderly c e"
  using assms(2,1) by induction (auto intro: reachable.more)

definition backed :: "NodeID set \<Rightarrow> 's \<Rightarrow> 's cluster \<Rightarrow> 's cluster \<Rightarrow> u64 \<Rightarrow> bool" where
  "backed M m0 c d x \<longleftrightarrow> x = 0 \<or> (\<exists>b. \<exists>i \<in> M. reachable M m0 True True c b \<and> reachable M m0 True True b d \<and>
     role (nodes b i) = Leader \<and> x \<le> commitIndex (nodes b i))"

lemma backed_step: "backed M m0 c d x \<Longrightarrow> cstep M m0 True True d e \<Longrightarrow> backed M m0 c e x"
  unfolding backed_def by (blast intro: reachable.more)

lemma backed_less: "backed M m0 c d x \<Longrightarrow> y \<le> x \<Longrightarrow> backed M m0 c d y"
  unfolding backed_def by (cases "y = 0") (auto intro: order_trans)

lemma backed_leader:
  "i \<in> M \<Longrightarrow> reachable M m0 True True c d \<Longrightarrow> role (nodes d i) = Leader \<Longrightarrow> backed M m0 c d (commitIndex (nodes d i))"
  unfolding backed_def by (blast intro: reachable.start)

lemma all_backed:
  assumes run: "reachable M m0 True True c d" and f: "fresh M m0 app c"
  shows "(\<forall>x. sends d x \<longrightarrow> backed M m0 c d x) \<and> (\<forall>v \<in> M. backed M m0 c d (commitIndex (nodes d v)) \<and>
    backed M m0 c d (lastApplied (nodes d v)) \<and>
    (applying d v \<noteq> None \<longrightarrow> backed M m0 c d (lastApplied (nodes d v) + 1)))"
  using run
proof induction
  case start
  then show ?case using f by (auto simp: fresh_def initial_def sends_def backed_def)
next
  case (more d e)
  have run: "reachable M m0 True True c e" using more.hyps by (rule reachable.more)
  note keep = backed_step [OF _ more.hyps(2), of c]
  have msg: "backed M m0 c e x" if "sends e x" for x
    using cstep_sends [OF more.hyps(2) that]
  proof
    assume "sends d x"
    with more.IH show ?thesis by (intro keep) blast
  next
    assume "\<exists>i \<in> M. role (nodes d i) = Leader \<and> x = commitIndex (nodes d i)"
    then obtain i where "i \<in> M" "role (nodes d i) = Leader" "x = commitIndex (nodes d i)" by blast
    with more.hyps(1) show ?thesis by (auto intro: keep backed_leader)
  qed
  have node: "backed M m0 c e (commitIndex (nodes e v)) \<and> backed M m0 c e (lastApplied (nodes e v)) \<and>
      (applying e v \<noteq> None \<longrightarrow> backed M m0 c e (lastApplied (nodes e v) + 1))" if v: "v \<in> M" for v
  proof (intro conjI impI)
    have old: "backed M m0 c e (commitIndex (nodes d v))" "backed M m0 c e (lastApplied (nodes d v))"
        "applying d v \<noteq> None \<Longrightarrow> backed M m0 c e (lastApplied (nodes d v) + 1)"
      using more.IH v by (auto intro: keep)
    have "effect d e v" using more.hyps(2) by (rule cstep_effect)
    then have ci: "commitIndex (nodes e v) \<le> commitIndex (nodes d v) \<or> role (nodes e v) = Leader \<or>
          (\<exists>req \<in> append_requests d. commitIndex (nodes e v) \<le> LeaderCommit req)"
      and la: "lastApplied (nodes e v) \<le> lastApplied (nodes d v) \<or>
          applying d v \<noteq> None \<and> lastApplied (nodes e v) = lastApplied (nodes d v) + 1"
      and ap: "applying e v = None \<or> applying e v = applying d v \<and> lastApplied (nodes e v) = lastApplied (nodes d v) \<or>
          lastApplied (nodes e v) + 1 \<le> commitIndex (nodes d v)"
      by (simp_all add: effect_def)
    have sent: "backed M m0 c e (LeaderCommit req)" if "req \<in> append_requests d" for req
    proof -
      have "sends d (LeaderCommit req)" using that unfolding sends_def by blast
      with more.IH show ?thesis by (intro keep) blast
    qed
    from ci show "backed M m0 c e (commitIndex (nodes e v))"
      using backed_less [OF old(1)] backed_leader [OF v run] backed_less [OF sent] by blast
    from la show "backed M m0 c e (lastApplied (nodes e v))"
      using backed_less [OF old(2)] old(3) by auto
    show "backed M m0 c e (lastApplied (nodes e v) + 1)" if "applying e v \<noteq> None"
      using ap that backed_less [OF old(1)] old(3) by auto
  qed
  show ?case using msg node by blast
qed

subsection \<open>A term in the life of a member\<close>

definition past_leader :: "u64 \<Rightarrow> u64 \<Rightarrow> 's Node \<Rightarrow> bool" where
  "past_leader t y n \<longleftrightarrow> t < currentTerm n \<or>
     t = currentTerm n \<and> (role n = Follower \<or> role n = Leader \<and> y \<le> commitIndex n)"

lemma past_leader_steady: "past_leader t y n \<Longrightarrow> steady n m \<Longrightarrow> past_leader t y m"
  unfolding past_leader_def steady_def by (cases "role n") auto

lemma steady_run:
  assumes "reachable M m0 True True c d"
  shows "currentTerm (nodes c v) \<le> currentTerm (nodes d v) \<and>
    (past_leader t y (nodes c v) \<longrightarrow> past_leader t y (nodes d v))"
  using assms
proof induction
  case (more d e)
  have "steady (nodes d v) (nodes e v)" using cstep_effect [OF more.hyps(2)] by (simp add: effect_def)
  moreover from this have "currentTerm (nodes d v) \<le> currentTerm (nodes e v)" by (auto simp: steady_def)
  ultimately show ?case using more.IH past_leader_steady by fastforce
qed simp

subsection \<open>The read index of a confirmed leader\<close>

text \<open>A member that has said yes to a message of term \<open>t\<close> was in no later term.\<close>

lemma yes_in_term: "handleAppendEntries n req now = (Inr resp, m) \<Longrightarrow> currentTerm n \<le> aq_Term req \<or> \<not> Success resp"
  by (auto simp: handleAppendEntries_def replyLocked_def split: if_splits)

lemma leader_commit_bound:
  assumes inv: "safe_inv M m0 app b h" "safe_inv M m0 app d g" and run: "reachable M m0 True True b d"
    and j: "j \<in> M" "role (nodes b j) = Leader" and i: "i \<in> M" "role (nodes d i) = Leader"
    and own: "Term (log_of d i ! unat (commitIndex (nodes d i))) = currentTerm (nodes d i)"
    and half: "Q \<subseteq> M" "card M < 2 * card Q"
    and follow: "\<And>v. v \<in> Q \<Longrightarrow> \<exists>e. reachable M m0 True True d e \<and> currentTerm (nodes e v) \<le> currentTerm (nodes d i)"
  shows "commitIndex (nodes b j) \<le> commitIndex (nodes d i)"
proof -
  let ?s = "currentTerm (nodes b j)" and ?t = "currentTerm (nodes d i)" and ?y = "commitIndex (nodes b j)"
  have w: "(j, ?s) \<in> won b" "(i, ?t) \<in> won d"
    using leader_won [OF safe_election [OF inv(1)] j] leader_won [OF safe_election [OF inv(2)] i] .
  consider "?t < ?s" | "?s = ?t" | "?s < ?t" using less_linear [of ?s ?t] by blast
  then show ?thesis
  proof cases
    case 1
    note el = safe_election [OF inv(1)]
    note E = electorate_half [OF el w(1)]
    obtain v where v: "v \<in> electorate b j ?s" "v \<in> Q"
      by (rule halves_meet [OF members_finite [OF el j(1)], of "electorate b j ?s" Q]) (use E half in simp_all)
    obtain e where e: "reachable M m0 True True d e" "currentTerm (nodes e v) \<le> ?t" using follow [OF v(2)] by blast
    have "?s \<le> currentTerm (nodes b v)" using el electorate_cast [OF el w(1) v(1)] by (rule cast_honoured)
    also have "\<dots> \<le> currentTerm (nodes e v)" using steady_run [OF reachable_trans [OF run e(1)]] by blast
    finally show ?thesis using e(2) 1 by simp
  next
    case 2
    obtain h' where h': "safe_inv M m0 app d h'" "later b h d h'" using safe_inv_reachable [OF run inv(1)] by blast
    then have "(j, ?t) \<in> won d" using w(1) 2 by (auto simp: later_def)
    then have "j = i" using won_unique [OF safe_election [OF inv(2)]] w(2) by blast
    moreover have "past_leader ?s ?y (nodes b j)" using j(2) by (simp add: past_leader_def)
    then have "past_leader ?s ?y (nodes d j)" using steady_run [OF run] by blast
    ultimately show ?thesis using 2 i(2) by (simp add: past_leader_def)
  next
    case 3
    then have "?s \<le> ?t" by simp
    from leader_has_committed [OF inv(1) run j(1) i this order_refl]
    have eq: "take (Suc (unat ?y)) (log_of d i) = take (Suc (unat ?y)) (log_of b j)" and len: "unat ?y < length (log_of b j)"
      by simp_all
    have "log_of d i ! unat ?y = log_of b j ! unat ?y" using eq by (rule take_nth_eq) simp
    moreover have "Term (log_of b j ! unat ?y) \<le> ?s"
      using node_traced [OF safe_node [OF inv(1) j(1)]] len by (rule traced_facts(6))
    ultimately have less: "Term (log_of d i ! unat ?y) < ?t" using 3 by simp
    have leny: "unat ?y < length (log_of d i)" using eq len by (rule take_Suc_less)
    have so: "sorted (map Term (log_of d i))" using node_traced [OF safe_node [OF inv(2) i(1)]] by (rule traced_facts(5))
    have "unat ?y < unat (commitIndex (nodes d i))"
    proof (rule ccontr)
      assume "\<not> ?thesis"
      then have "Term (log_of d i ! unat (commitIndex (nodes d i))) \<le> Term (log_of d i ! unat ?y)"
        using sorted_nth_mono [OF so, of "unat (commitIndex (nodes d i))" "unat ?y"] leny by simp
      with less own show False by simp
    qed
    then show ?thesis by (simp add: word_le_nat_alt)
  qed
qed

theorem read_index_bound:
  assumes f: "fresh M m0 app c" and r: "reachable M m0 True True c b" "reachable M m0 True True b d"
    and i: "i \<in> M" "role (nodes d i) = Leader"
    and own: "Term (log_of d i ! unat (commitIndex (nodes d i))) = currentTerm (nodes d i)"
    and half: "Q \<subseteq> M" "card M < 2 * card Q"
    and follow: "\<And>v. v \<in> Q \<Longrightarrow> \<exists>e. reachable M m0 True True d e \<and> currentTerm (nodes e v) \<le> currentTerm (nodes d i)"
    and k: "k \<in> M"
  shows "commitIndex (nodes b k) \<le> commitIndex (nodes d i) \<and> lastApplied (nodes b k) \<le> commitIndex (nodes d i)"
proof -
  obtain g where g: "safe_inv M m0 app d g" using fresh_reachable [OF f reachable_trans [OF r]] .
  have "x \<le> commitIndex (nodes d i)" if "backed M m0 c b x" for x
  proof (cases "x = 0")
    case False
    with that obtain a j where a: "j \<in> M" "reachable M m0 True True c a" "reachable M m0 True True a b"
        "role (nodes a j) = Leader" "x \<le> commitIndex (nodes a j)"
      unfolding backed_def by blast
    obtain h where h: "safe_inv M m0 app a h" using fresh_reachable [OF f a(2)] .
    have "commitIndex (nodes a j) \<le> commitIndex (nodes d i)"
      using h g reachable_trans [OF a(3) r(2)] a(1,4) i own half follow by (rule leader_commit_bound)
    with a(5) show ?thesis by (rule order_trans)
  qed simp
  with all_backed [OF r(1) f] k show ?thesis by blast
qed

text \<open>
  So a member that has applied up to that index, as \<^verbatim>\<open>WaitForApplied\<close> waits for, has applied all that any member
  had applied when the leader looked.
\<close>

theorem read_sees_applied:
  assumes f: "fresh M m0 app c" and r: "reachable M m0 True True c b" "reachable M m0 True True b e"
    and k: "k \<in> M" "m \<in> M" and le: "lastApplied (nodes b k) \<le> x" "x \<le> lastApplied (nodes e m)"
  shows "prefix (applied (nodes b k)) (applied (nodes e m))"
proof -
  obtain h where h: "safe_inv M m0 app b h" using fresh_reachable [OF f r(1)] .
  obtain g where g: "safe_inv M m0 app e g" using fresh_reachable [OF f reachable_trans [OF r]] .
  have "lastApplied (nodes b k) \<le> lastApplied (nodes e m)" using le by (rule order_trans)
  then have "length (applied (nodes b k)) \<le> length (applied (nodes e m))"
    using applied_length [OF safe_node [OF h k(1)]] applied_length [OF safe_node [OF g k(2)]] by (simp add: word_le_nat_alt)
  with applied_agree [OF h r(2) k] show ?thesis by (metis prefix_length_prefix prefix_order.order_refl)
qed

end
