(* ===== verification/Api_Server.thy ===== *)
theory Api_Server
  imports Kv_Engine Raft_Read Raft_Voting Raft_Commit Raft_Replicate
begin

text \<open>
  \<^verbatim>\<open>src/internal/api/server.go\<close>: the HTTP interface of a node. The node's state machine is the
  engine, which the handlers of reads look at directly. The theorems: a strong read answers
  from a state machine that has applied the read index, never from one whose barrier
  failed; a write is acknowledged exactly when the node's proposal succeeded; and a value
  put is the value got.
\<close>

definition maxValueBytes :: nat where "maxValueBytes = 1048576"

record api_reply =
  Status :: nat
  Headers :: "(string \<times> string) list"
  Content :: string

definition http_text :: "nat \<Rightarrow> string \<Rightarrow> (string \<times> string) list \<Rightarrow> api_reply" where
  "http_text code msg hs = \<lparr>Status = code, Headers = hs, Content = msg @ [CHR 0x0A, CHR 0x0A]\<rparr>"

definition leader_header :: "'s Node \<Rightarrow> (string \<times> string) list" where
  "leader_header n = (if leaderID n \<noteq> [] then [(''X-Raft-Leader'', leaderID n)] else [])"

text \<open>The answer to a read whose barrier failed.\<close>

definition readBarrierFailed :: "'s Node \<Rightarrow> node_error \<Rightarrow> api_reply" where
  "readBarrierFailed n e =
     (case e of
        ErrNoLeader \<Rightarrow> http_text 503 ''no leader available for a strong read'' (leader_header n)
      | ErrLeadershipLost \<Rightarrow> http_text 503 ''leadership could not be confirmed'' (leader_header n)
      | ErrNotLeader \<Rightarrow> http_text 503 ''leadership could not be confirmed'' (leader_header n)
      | _ \<Rightarrow> http_text 503 ''read barrier failed'' (leader_header n))"

text \<open>What \<^verbatim>\<open>handleGet\<close> writes once it may read: the headers, then the value or 404.\<close>

definition read_local :: "string \<Rightarrow> string \<Rightarrow> Engine Node \<Rightarrow> api_reply" where
  "read_local mode key n =
     (let hs = [(''X-Raft-Node'', ID_of n), (''X-Raft-Role'', Role_String (role n)), (''X-Raft-Consistency'', mode)] in
      case Engine_Get (machine n) key of
        None \<Rightarrow> http_text 404 ''key not found'' hs
      | Some v \<Rightarrow> \<lparr>Status = 200, Headers = hs @ [(''Content-Type'', ''text/plain; charset=utf-8'')], Content = v\<rparr>)"

text \<open>\<open>query\<close> is the value of \<^verbatim>\<open>?consistency=\<close>, empty when absent.\<close>

definition handleGet ::
  "(Engine, 'w) env \<Rightarrow> (Engine Node \<Rightarrow> 'w \<Rightarrow> (node_error + u64) \<times> Engine Node \<times> 'w) \<Rightarrow> nat \<Rightarrow> string \<Rightarrow> string \<Rightarrow>
   Engine Node \<Rightarrow> 'w \<Rightarrow> api_reply \<times> Engine Node \<times> 'w" where
  "handleGet env confirm wakes query key n u =
     (let mode = (if query = [] then ''strong'' else query) in
      if mode = ''eventual'' then (read_local mode key n, n, u)
      else if mode = ''strong'' then
        (case LinearizableRead env confirm wakes n u of
           (Some e, n, u) \<Rightarrow> (let (n, u) = others env n u in (readBarrierFailed n e, n, u))
         | (None, n, u) \<Rightarrow> (let (n, u) = others env n u in (read_local mode key n, n, u)))
      else (http_text 400 ''consistency must be strong or eventual'' [], n, u))"

subsection \<open>Writes\<close>

definition propose ::
  "(Engine, 'w) env \<Rightarrow> Peer list \<Rightarrow> Record \<Rightarrow> Engine Node \<Rightarrow> 'w \<Rightarrow> api_reply \<times> Engine Node \<times> 'w" where
  "propose env ps cmd n u =
     (case ProposeOrForward env ps cmd n u of
        (None, n, u) \<Rightarrow> (\<lparr>Status = 204, Headers = [], Content = []\<rparr>, n, u)
      | (Some e, n, u) \<Rightarrow>
          (let (n, u) = others env n u in
           (if e = ErrNotLeader \<or> e = ErrNoLeader then http_text 503 ''no leader available'' (leader_header n)
            else http_text 503 ''write not confirmed'' [], n, u)))"

text \<open>The body of a PUT: its bytes, and whether the connection broke after them.\<close>

definition handlePut ::
  "(Engine, 'w) env \<Rightarrow> Peer list \<Rightarrow> string \<Rightarrow> string \<Rightarrow> bool \<Rightarrow> Engine Node \<Rightarrow> 'w \<Rightarrow> api_reply \<times> Engine Node \<times> 'w" where
  "handlePut env ps key body broken n u =
     (if maxValueBytes < length body \<or> broken then (http_text 413 ''value too large'' [], n, u)
      else propose env ps (zero_record\<lparr>Op := OpSet, Key := key, Value := body\<rparr>) n u)"

definition handleDelete ::
  "(Engine, 'w) env \<Rightarrow> Peer list \<Rightarrow> string \<Rightarrow> Engine Node \<Rightarrow> 'w \<Rightarrow> api_reply \<times> Engine Node \<times> 'w" where
  "handleDelete env ps key n u = propose env ps (zero_record\<lparr>Op := OpDelete, Key := key\<rparr>) n u"

subsection \<open>Status and routes\<close>

text \<open>
  \<^verbatim>\<open>handleStatus\<close> reads every field under a lock of its own: \<open>at k\<close> is the node when the
  \<open>k\<close>th is read.
\<close>

definition handleStatus :: "(nat \<Rightarrow> Engine Node) \<Rightarrow> api_reply" where
  "handleStatus at = \<lparr>Status = 200, Headers = [], Content =
     ''id='' @ ID_of (at 0) @ '' role='' @ Role_String (role (at 1)) @ '' term='' @ dec (unat (currentTerm (at 2))) @
     '' commit='' @ dec (unat (commitIndex (at 3))) @ '' applied='' @ dec (unat (lastApplied (at 4))) @
     '' log='' @ dec (unat (LastIndex (nlog (at 5)))) @ '' keys='' @ dec (Engine_Len (machine (at 6))) @ [CHR 0x0A]\<rparr>"

definition handleHealth :: api_reply where
  "handleHealth = \<lparr>Status = 200, Headers = [], Content = ''ok'' @ [CHR 0x0A]\<rparr>"

text \<open>
  The routes, over the decoded segments of the path. A GET route serves HEAD as well; a path
  that matches with another method is answered with 405.
\<close>

datatype route = Get_key string | Put_key string | Delete_key string | Status_page | Health_page
  | Not_allowed | Not_found

definition NewServer_route :: "string \<Rightarrow> string list \<Rightarrow> route" where
  "NewServer_route meth path =
     (let reads = (meth = ''GET'' \<or> meth = ''HEAD'') in
      case path of
        [a] \<Rightarrow>
          if a = ''health'' then (if reads then Health_page else Not_allowed)
          else if a = ''status'' then (if reads then Status_page else Not_allowed)
          else Not_found
      | [a, key] \<Rightarrow>
          if a = ''kv'' \<and> key \<noteq> [] then
            (if reads then Get_key key else if meth = ''PUT'' then Put_key key
             else if meth = ''DELETE'' then Delete_key key else Not_allowed)
          else Not_found
      | _ \<Rightarrow> Not_found)"

subsection \<open>Strong reads\<close>

lemma WaitForApplied_None:
  "WaitForApplied wakes env index n u = (None, n', u') \<Longrightarrow> index \<le> lastApplied n'"
proof (induction wakes arbitrary: n u)
  case 0
  then show ?case by (subst (asm) WaitForApplied.simps) (auto simp: wait_pass_def split: if_splits)
next
  case (Suc k)
  from Suc.prems show ?case
    by (subst (asm) WaitForApplied.simps)
       (auto simp: wait_pass_def split: if_splits prod.splits dest: Suc.IH)
qed

lemma LinearizableRead_None:
  assumes "LinearizableRead env confirm wakes n u = (None, n', u')"
  obtains i n1 u1 where "ReadIndex env confirm n u = (Inr i, n1, u1)" and "i \<le> lastApplied n'"
proof -
  obtain r n1 u1 where r: "ReadIndex env confirm n u = (r, n1, u1)" by (metis prod_cases3)
  obtain n2 u2 where o: "others env n1 u1 = (n2, u2)" by fastforce
  from assms r o obtain i where "r = Inr i" "WaitForApplied wakes env i n2 u2 = (None, n', u')"
    by (cases r) (simp_all add: LinearizableRead_def)
  with r WaitForApplied_None show thesis by (metis that)
qed

text \<open>The node's other goroutines never take back what has been applied.\<close>

definition keeps_applied :: "('s, 'w) env \<Rightarrow> bool" where
  "keeps_applied env \<longleftrightarrow> (\<forall>n u. lastApplied n \<le> lastApplied (fst (others env n u)))"

lemma readBarrierFailed_status: "Status (readBarrierFailed n e) = 503"
  by (simp add: readBarrierFailed_def http_text_def split: node_error.split)

lemma read_local_status: "Status (read_local mode key n) \<in> {200, 404}"
  by (simp add: read_local_def http_text_def Let_def split: option.split)

lemma handleGet_strong:
  assumes run: "handleGet env confirm wakes query key n u = (rep, n', u')" and q: "query = [] \<or> query = ''strong''"
    and keeps: "keeps_applied env"
  shows "(case LinearizableRead env confirm wakes n u of
      (Some e, _) \<Rightarrow> Status rep = 503
    | (None, _) \<Rightarrow> rep = read_local ''strong'' key n' \<and>
        (\<exists>i n1 u1. ReadIndex env confirm n u = (Inr i, n1, u1) \<and> i \<le> lastApplied n'))"
proof -
  obtain r n1 u1 where lr: "LinearizableRead env confirm wakes n u = (r, n1, u1)" by (metis prod_cases3)
  obtain n2 u2 where o: "others env n1 u1 = (n2, u2)" by fastforce
  have hg: "handleGet env confirm wakes query key n u =
      (case LinearizableRead env confirm wakes n u of
         (Some e, n, u) \<Rightarrow> (let (n, u) = others env n u in (readBarrierFailed n e, n, u))
       | (None, n, u) \<Rightarrow> (let (n, u) = others env n u in (read_local ''strong'' key n, n, u)))"
    using q by (elim disjE) (simp_all add: handleGet_def)
  have none: "r = None \<Longrightarrow> read_local ''strong'' key n2 = rep \<and> n2 = n'"
    and some: "r = Some e \<Longrightarrow> readBarrierFailed n2 e = rep" for e
    using run [unfolded hg lr] by (auto simp: o)
  show ?thesis
  proof (cases r)
    case None
    have n2: "n2 = n'" and rep: "rep = read_local ''strong'' key n2"
      using none [OF None] by blast+
    obtain i m v where i: "ReadIndex env confirm n u = (Inr i, m, v)" "i \<le> lastApplied n1"
      using LinearizableRead_None [OF lr [unfolded None]] by blast
    have "lastApplied n1 \<le> lastApplied n'"
      using keeps [unfolded keeps_applied_def, rule_format, of n1 u1] by (simp add: o n2)
    with i(2) have le: "i \<le> lastApplied n'" by (rule order_trans)
    show ?thesis unfolding lr None prod.case option.case rep n2 using i(1) le by blast
  next
    case (Some e)
    have "rep = readBarrierFailed n2 e" using some [OF Some] by blast
    then show ?thesis unfolding lr Some by (simp add: readBarrierFailed_status)
  qed
qed

text \<open>The engine's answer, by the log.\<close>

lemma applied_answers:
  assumes "applied_ok Engine_New n" and "apply_fn n = Engine_Apply"
  shows "Engine_Get (machine n) key = last_write (take (unat (lastApplied n)) (tl (entries (nlog n)))) key"
  using assms replay_get [of "take (unat (lastApplied n)) (tl (entries (nlog n)))" key]
  by (simp add: applied_ok_def replay_def)

subsection \<open>Writes\<close>

lemma propose_status:
  "Status (fst (propose env ps cmd n u)) = (if fst (ProposeOrForward env ps cmd n u) = None then 204 else 503)"
  by (auto simp: propose_def http_text_def Let_def split: prod.split option.split)

text \<open>A cluster of one commits and applies what it is given.\<close>

definition quiet_env :: "('s, 'w) env \<Rightarrow> bool" where
  "quiet_env env \<longleftrightarrow> others env = (\<lambda>n u. (n, u))"

definition alone :: "'s \<Rightarrow> 's Node \<Rightarrow> bool" where
  "alone m0 n \<longleftrightarrow> role n = Leader \<and> cfg_Peers (cfg n) = [] \<and> healthy (nlog n) \<and> applied_ok m0 n \<and>
     unat (commitIndex n) < length (entries (nlog n)) \<and> Suc (length (entries (nlog n))) < slice_max"

lemma Log_Append_one_healthy:
  assumes h: "healthy l" and sz: "Suc (length (entries l)) < slice_max"
  shows "\<exists>l'. Log_Append l t [c] = ([c\<lparr>Term := t, Index := LastIndex l + 1\<rparr>], None, l') \<and> healthy l' \<and>
    entries l' = entries l @ [c\<lparr>Term := t, Index := LastIndex l + 1\<rparr>]"
proof -
  have wf: "log_wf l" using h by (simp add: healthy_def)
  let ?e = "c\<lparr>Term := t, Index := LastIndex l + 1\<rparr>"
  obtain l' where l': "storeLocked l ?e = (None, l')" "healthy l'"
    using storeLocked_healthy [OF h, of ?e] sz LastIndex_wf [OF wf] by auto
  then have run: "Log_Append l t [c] = ([?e], None, l')" by simp
  then have "entries l' = entries l @ [?e]" using Log_Append_spec [OF wf run] sz by simp
  with run l' show ?thesis by blast
qed

lemma Propose_alone:
  assumes env: "quiet_env env" and al: "alone m0 n"
  obtains n' where "Propose env ps cmd n u = (None, n', u)" and "role n' = Leader" and "cfg n' = cfg n"
    and "entries (nlog n') = entries (nlog n) @ [cmd\<lparr>Term := currentTerm n, Index := of_nat (length (entries (nlog n)))\<rparr>]"
    and "applied_ok m0 n'" and "apply_fn n' = apply_fn n" and "unat (lastApplied n') = length (entries (nlog n))"
    and "unat (commitIndex n') = length (entries (nlog n))" and "noReadBatching n' = noReadBatching n"
proof -
  let ?len = "length (entries (nlog n))"
  let ?e = "cmd\<lparr>Term := currentTerm n, Index := of_nat ?len\<rparr>"
  have a: "role n = Leader" "cfg_Peers (cfg n) = []" "healthy (nlog n)" "applied_ok m0 n" "log_wf (nlog n)"
      "unat (commitIndex n) < ?len" "Suc ?len < slice_max"
    using al by (auto simp: alone_def healthy_def)
  note last = LastIndex_wf [OF a(5)]
  obtain l' where l': "Log_Append (nlog n) (currentTerm n) [cmd] = ([?e], None, l')" "healthy l'"
      "entries l' = entries (nlog n) @ [?e]"
    using Log_Append_one_healthy [OF a(3,7), of "currentTerm n" cmd] last by metis
  have wf': "log_wf l'" using l'(2) by (simp add: healthy_def)
  let ?n1 = "n\<lparr>nlog := l'\<rparr>"
  have pa: "propose_append n (currentTerm n) cmd = (Inr (of_nat ?len), ?n1)"
    using l'(1) by (simp add: propose_append_def)
  have un: "unat (of_nat ?len :: u64) = ?len" using a(7) by (intro unat_of_nat_u64 slice_max_u64) simp
  have li: "LastIndex l' = of_nat ?len" using LastIndex_wf [OF wf'] l'(3) by simp
  have maj: "Majority (cfg n) = 1" using a(2) by (simp add: Majority_def ClusterSize_def)
  have at: "At l' (of_nat ?len) = Some ?e"
  proof -
    have "?len \<noteq> 0" using a(6) by linarith
    then show ?thesis using wf' un l'(3) by (simp add: At_wf)
  qed
  have lt: "\<not> of_nat ?len \<le> commitIndex n" using a(6) un by (simp add: word_le_nat_alt)
  have "commit_loop ?n1 (of_nat ?len) = of_nat ?len"
    by (subst commit_loop.simps) (use lt at maj in \<open>simp add: replicas_def\<close>)
  then have adv: "advanceCommit ?n1 = ?n1\<lparr>commitIndex := of_nat ?len\<rparr>" (is "_ = ?n2")
    using a(1) li by (simp add: advanceCommit_def)
  have "Suc (unat (lastApplied n)) \<le> ?len" using a(4,6) by (auto simp: applied_ok_def Log_Len_def)
  then have "applied_ok m0 ?n1"
    using a(4) wf' l'(3) by (intro applied_ok_log) (simp_all add: Log_Len_def)
  then have ok2: "applied_ok m0 ?n2" by (simp add: applied_ok_def)
  note ap = applied_ok_applyCommitted [OF ok2]
  have la: "unat (lastApplied n) \<le> ?len"
    using a(4) diff_le_self le_trans unfolding applied_ok_def Log_Len_def by blast
  have "apply_limit ?n2 = ?len"
    using la un l'(3) by (simp add: apply_limit_def Log_Len_def)
  with ap have unA: "unat (lastApplied (applyCommitted ?n2)) = ?len" by simp
  have fr: "role (applyCommitted ?n2) = Leader" "cfg (applyCommitted ?n2) = cfg n"
      "commitIndex (applyCommitted ?n2) = of_nat ?len" "noReadBatching (applyCommitted ?n2) = noReadBatching n"
      "nlog (applyCommitted ?n2) = l'" "apply_fn (applyCommitted ?n2) = apply_fn n"
    using a(1) by (subst applyCommitted_frame, simp)+
  have g: "gather (replicateTo env) 1 0 1 0 ps ?n1 u = (Reached, ?n1, u)"
    by (subst gather.simps) simp
  have "Propose env ps cmd n u = (None, applyCommitted ?n2, u)"
    using a(1,2) env pa g adv fr maj
    by (simp add: Propose_def propose_term_def quiet_env_def Let_def)
  then show thesis
    using fr l'(3) ap unA un by (intro that [of "applyCommitted ?n2"]) simp_all
qed

lemma put_then_get:
  assumes env: "quiet_env env" and al: "alone Engine_New n" and ap: "apply_fn n = Engine_Apply"
    and body: "length body \<le> maxValueBytes"
    and batched: "noReadBatching n \<or> batched = (\<lambda>n u. case confirmRound env qs n u of (r, n, u) \<Rightarrow> (Some r, n, u))"
    and put: "handlePut env ps key body False n u = (rep, n1, u1)"
    and got: "handleGet env (ConfirmLeadership env qs batched) wakes [] key n1 u1 = (rep2, n2, u2)"
  shows "Status rep = 204 \<and> Status rep2 = 200 \<and> Content rep2 = body"
proof -
  let ?cmd = "zero_record\<lparr>Op := OpSet, Key := key, Value := body\<rparr>"
  let ?e = "?cmd\<lparr>Term := currentTerm n, Index := of_nat (length (entries (nlog n)))\<rparr>"
  obtain m where m: "Propose env ps ?cmd n u = (None, m, u)" "role m = Leader" "cfg m = cfg n"
      "entries (nlog m) = entries (nlog n) @ [?e]" "applied_ok Engine_New m" "apply_fn m = apply_fn n"
      "unat (lastApplied m) = length (entries (nlog n))" "unat (commitIndex m) = length (entries (nlog n))"
      "noReadBatching m = noReadBatching n"
    using Propose_alone [OF env al] by blast
  have q: "others env = (\<lambda>n u. (n, u))" using env by (simp add: quiet_env_def)
  have lead: "IsLeader n" "IsLeader m" "cfg_Peers (cfg m) = []"
    using al m(2,3) by (auto simp: alone_def IsLeader_def)
  have one: "rep = \<lparr>Status = 204, Headers = [], Content = []\<rparr>" "n1 = m" "u1 = u"
    using put body m(1) lead(1) by (simp_all add: handlePut_def propose_def ProposeOrForward_def q)
  have "confirmRound env qs m u = (Inr (commitIndex m), m, u)"
    using m(2) lead(3) by (simp add: confirmRound_def)
  then have "ConfirmLeadership env qs batched m u = (Inr (commitIndex m), m, u)"
    using lead(2) batched m(9) q by (auto simp: ConfirmLeadership_def)
  then have "ReadIndex env (ConfirmLeadership env qs batched) m u = (Inr (commitIndex m), m, u)"
    using lead(2) q by (simp add: ReadIndex_def)
  moreover have "commitIndex m \<le> lastApplied m" using m(7,8) by (simp add: word_le_nat_alt)
  then have "WaitForApplied wakes env (commitIndex m) m u = (None, m, u)"
    by (subst WaitForApplied.simps) (simp add: wait_pass_def)
  ultimately have lr: "LinearizableRead env (ConfirmLeadership env qs batched) wakes m u = (None, m, u)"
    by (simp add: LinearizableRead_def q)
  have rep2: "rep2 = read_local ''strong'' key m"
    using got one lr q by (auto simp: handleGet_def)
  have ne: "entries (nlog n) \<noteq> []" using al by (auto simp: alone_def)
  have "take (unat (lastApplied m)) (tl (entries (nlog m))) = tl (entries (nlog n)) @ [?e]"
    using m(4,7) ne by (cases "entries (nlog n)") simp_all
  moreover have "touches key ?e" "effect ?e = Some body" by (simp_all add: touches_def effect_def)
  ultimately have "Engine_Get (machine m) key = Some body"
    using applied_answers [OF m(5)] m(6) ap by (simp add: last_write_snoc)
  with rep2 one show ?thesis by (simp add: read_local_def)
qed

subsection \<open>A read right after an election\<close>

text \<open>
  A node that has just been promoted has not committed anything in its term yet, so after a
  restart its commit index is 0 and a strong read is let through at once: for a cluster of
  one, before the no-op of \<^verbatim>\<open>winElection\<close> is in, the answer is 404 whatever its log holds.
\<close>

lemma campaign_start_frame:
  assumes "campaign_start n t = (r, n')"
  shows "cfg n' = cfg n \<and> nlog n' = nlog n \<and> machine n' = machine n \<and> commitIndex n' = commitIndex n \<and>
    lastApplied n' = lastApplied n"
proof -
  obtain e n1 where p: "persistLocked (n\<lparr>currentTerm := currentTerm n + 1, votedFor := cfg_ID (cfg n),
      role := Candidate, leaderID := [], lastHeard := t\<rparr>) = (e, n1)" by fastforce
  with assms have "n' = n1" by (cases e) (simp_all add: campaign_start_def Let_def)
  then show ?thesis using persistLocked_sel [OF p] by simp
qed

lemma strong_read_before_noop:
  assumes new: "NewNode opts st Engine_New now = Inr n0" and solo: "cfg_Peers (o_Config opts) = []"
    and camp: "campaign_start n0 t = (Inr req, n1)" and win: "promote n1 (vq_Term req) = (True, n2)"
    and env: "quiet_env env"
    and batched: "noReadBatching n2 \<or> batched = (\<lambda>n u. case confirmRound env qs n u of (r, n, u) \<Rightarrow> (Some r, n, u))"
  shows "nlog n2 = o_Log opts \<and>
    handleGet env (ConfirmLeadership env qs batched) wakes [] key n2 u = (read_local ''strong'' key n2, n2, u) \<and>
    Status (read_local ''strong'' key n2) = 404"
proof -
  have n0: "cfg n0 = o_Config opts" "nlog n0 = o_Log opts" "machine n0 = Engine_New" "commitIndex n0 = 0"
      "lastApplied n0 = 0"
    using NewNode_sel [OF new] by simp_all
  have n1: "cfg n1 = o_Config opts" "nlog n1 = o_Log opts" "machine n1 = Engine_New" "commitIndex n1 = 0"
      "lastApplied n1 = 0"
    using campaign_start_frame [OF camp] n0 by simp_all
  have "n2 = becomeLeaderLocked n1" using win by (auto simp: promote_def split: if_splits)
  then have n2: "cfg n2 = o_Config opts" "nlog n2 = o_Log opts" "machine n2 = Engine_New" "commitIndex n2 = 0"
      "lastApplied n2 = 0" "role n2 = Leader"
    using n1 by (simp_all add: becomeLeaderLocked_eq)
  have q: "others env = (\<lambda>n u. (n, u))" using env by (simp add: quiet_env_def)
  have "confirmRound env qs n2 u = (Inr 0, n2, u)"
    using n2 solo by (simp add: confirmRound_def)
  then have "ConfirmLeadership env qs batched n2 u = (Inr 0, n2, u)"
    using n2(6) batched q by (auto simp: ConfirmLeadership_def IsLeader_def)
  then have "ReadIndex env (ConfirmLeadership env qs batched) n2 u = (Inr 0, n2, u)"
    using n2(6) q by (simp add: ReadIndex_def IsLeader_def)
  moreover have "WaitForApplied wakes env 0 n2 u = (None, n2, u)"
    by (subst WaitForApplied.simps) (simp add: wait_pass_def)
  ultimately have "LinearizableRead env (ConfirmLeadership env qs batched) wakes n2 u = (None, n2, u)"
    by (simp add: LinearizableRead_def q)
  moreover have "Engine_Get (machine n2) key = None"
    using replay_get [of "[]" key] n2(3) by (simp add: last_write_def)
  ultimately show ?thesis
    using n2(2) q by (simp add: handleGet_def read_local_def http_text_def)
qed

end
