(* ===== verification/Kvnode.thy ===== *)
theory Kvnode
  imports Api_Server Raft_Transport
begin

text \<open>
  \<^verbatim>\<open>src/cmd/kvnode/main.go\<close>: how a node is put together and started. The flags are arguments, the
  files of the data directory are the log file and the state directory of the models
  below it. What the two HTTP servers do while they serve is the handlers of the API and of the
  transport; the last section has the life of the process: its listeners, the signal, the shutdown.
\<close>

record flags =
  f_addr :: string
  f_id :: string
  f_raft_addr :: string
  f_no_read_batching :: bool
  f_peers :: string

text \<open>The messages of \<^verbatim>\<open>log.Fatalf\<close>: the process ends.\<close>

datatype fatal = FatalPeers config_error | FatalConfig config_error | FatalLog log_error
  | FatalState state_error | FatalNode new_error

definition node_config :: "flags \<Rightarrow> Peer list \<Rightarrow> Config" where
  "node_config fl ps = \<lparr>cfg_ID = f_id fl, cfg_Addr = f_raft_addr fl, cfg_Peers = ps\<rparr>"

text \<open>
  \<^verbatim>\<open>main\<close> up to \<^verbatim>\<open>node.Start()\<close>: \<open>present\<close> and \<open>logfile\<close> are the log file, \<open>store\<close> is the state
  directory, \<open>t0\<close> and \<open>t1\<close> the times of \<^verbatim>\<open>NewNode\<close> and \<^verbatim>\<open>Start\<close>.
\<close>

definition kvnode_options :: "flags \<Rightarrow> Config \<Rightarrow> Log \<Rightarrow> StateStore \<Rightarrow> Engine Options" where
  "kvnode_options fl c rlog store = \<lparr>o_Config = c, o_Log = rlog, o_State = Some store, o_Apply = Some Engine_Apply,
     o_DisableReadBatching = f_no_read_batching fl, o_HeartbeatInterval = 0, o_ElectionTimeoutMin = 0,
     o_ElectionTimeoutMax = 0\<rparr>"

definition kvnode_main :: "flags \<Rightarrow> bool \<Rightarrow> os_file \<Rightarrow> StateStore \<Rightarrow> int \<Rightarrow> int \<Rightarrow> fatal + Engine Node" where
  "kvnode_main fl present logfile store t0 t1 =
     (case ParsePeers (f_peers fl) of Inl e \<Rightarrow> Inl (FatalPeers e) | Inr ps \<Rightarrow>
       let c = node_config fl ps in
       (case Validate c of Some e \<Rightarrow> Inl (FatalConfig e) | None \<Rightarrow>
         let e = Engine_New in
         (case OpenLog present logfile of Inl x \<Rightarrow> Inl (FatalLog x) | Inr rlog \<Rightarrow>
           (case OpenStateStore store of Inl x \<Rightarrow> Inl (FatalState x) | Inr (store, restored) \<Rightarrow>
             (case NewNode (kvnode_options fl c rlog store) restored e t0 of
                Inl x \<Rightarrow> Inl (FatalNode x)
              | Inr node \<Rightarrow> Inr (Start node t1))))))"

subsection \<open>What a started node is\<close>

lemma kvnode_main_parts:
  assumes "kvnode_main fl present logfile store t0 t1 = Inr n"
  obtains ps rlog store' st n0 where "ParsePeers (f_peers fl) = Inr ps" and "Validate (node_config fl ps) = None"
    and "OpenLog present logfile = Inr rlog" and "OpenStateStore store = Inr (store', st)"
    and "NewNode (kvnode_options fl (node_config fl ps) rlog store') st Engine_New t0 = Inr n0"
    and "n = Start n0 t1"
  using assms
  by (auto simp: kvnode_main_def Let_def split: sum.splits option.splits)

lemma kvnode_main_node:
  assumes "kvnode_main fl present logfile store t0 t1 = Inr n"
  shows "Validate (cfg n) = None \<and> role n = Follower \<and> machine n = Engine_New \<and> apply_fn n = Engine_Apply \<and>
    commitIndex n = 0 \<and> lastApplied n = 0 \<and> OpenLog present logfile = Inr (nlog n) \<and>
    (\<exists>store'. OpenStateStore store = Inr (store', pair_of n))"
proof -
  obtain ps rlog store' st n0 where p: "Validate (node_config fl ps) = None" "OpenLog present logfile = Inr rlog"
      "OpenStateStore store = Inr (store', st)"
      "NewNode (kvnode_options fl (node_config fl ps) rlog store') st Engine_New t0 = Inr n0" "n = Start n0 t1"
    by (rule kvnode_main_parts [OF assms])
  have "apply_fn n0 = Engine_Apply"
    using p(4) by (auto simp: NewNode_def kvnode_options_def Let_def split: option.splits if_splits)
  moreover have "pair_of n = st" using NewNode_sel [OF p(4)] p(5) by (simp add: pair_of_def Start_def)
  ultimately show ?thesis
    using NewNode_sel [OF p(4)] p(1-3) unfolding p(5) by (simp add: Start_def kvnode_options_def)
qed

text \<open>With the default timeouts \<^verbatim>\<open>NewNode\<close> has nothing left to object to.\<close>

lemma kvnode_main_starts:
  assumes "ParsePeers (f_peers fl) = Inr ps" and "Validate (node_config fl ps) = None"
    and "OpenLog present logfile = Inr rlog" and "OpenStateStore store = Inr (store', st)"
  shows "\<exists>n. kvnode_main fl present logfile store t0 t1 = Inr n \<and> cfg n = node_config fl ps \<and> nlog n = rlog \<and>
    pair_of n = st"
  using assms
  by (simp add: kvnode_main_def Let_def NewNode_def kvnode_options_def orDefault_def defaultElectionTimeoutMin_def
      defaultElectionTimeoutMax_def Start_def pair_of_def)

text \<open>Starting again after a crash is the restart of the cluster model.\<close>

lemma kvnode_main_restarts:
  assumes run: "kvnode_main fl True logfile store t0 t1 = Inr n'"
    and st: "nstate n = Some s" "crash_dir s store"
    and lg: "w (nlog n) = Some wl" "crash_content (f wl) (cached logfile)"
    and same: "cfg n' = cfg n" "apply_fn n = Engine_Apply"
  shows "\<exists>n0. restarts Engine_New n n0 \<and> n' = Start n0 t1"
proof -
  obtain ps rlog store' v n0 where p: "Validate (node_config fl ps) = None" "OpenLog True logfile = Inr rlog"
      "OpenStateStore store = Inr (store', v)"
      "NewNode (kvnode_options fl (node_config fl ps) rlog store') v Engine_New t0 = Inr n0" "n' = Start n0 t1"
    by (rule kvnode_main_parts [OF run])
  let ?o = "kvnode_options fl (node_config fl ps) rlog store'"
  have fs: "store' = with_faults (faults (dir store')) store"
    using p(3) by (auto simp: OpenStateStore_def with_faults_def split: option.splits prod.splits source.splits bool.splits)
  have "restart_log (nlog n) (o_Log ?o)"
    using lg p(2) by (auto simp: restart_log_def kvnode_options_def)
  moreover have "o_Config ?o = cfg n"
    using same(1) NewNode_sel [OF p(4)] unfolding p(5) by (simp add: Start_def)
  moreover have "o_Apply ?o = Some (apply_fn n)" "o_State ?o = Some (with_faults (faults (dir store')) store)"
    using same(2) fs by (simp_all add: kvnode_options_def)
  ultimately have "restarts Engine_New n n0"
    unfolding restarts_def using st p(3,4) by blast
  with p(5) show ?thesis by blast
qed

subsection \<open>Serving and shutting down\<close>

text \<open>
  What \<^verbatim>\<open>main\<close> does after the signal, in order: the two shutdowns, then the deferred calls, last deferred first.
  \<^verbatim>\<open>node.Stop()\<close> is two of them, since it waits in the middle.
\<close>

datatype kv_action = Shutdown_client | Shutdown_peer | Cancel_shutdown | Stop_signals | Node_cancel | Node_wait | Close_log

definition shutdown_plan :: "kv_action list" where
  "shutdown_plan = [Shutdown_client, Shutdown_peer, Cancel_shutdown, Stop_signals, Node_cancel, Node_wait, Close_log]"

text \<open>
  The process once \<^const>\<open>kvnode_main\<close> has returned a node. \<open>to_do\<close> is \<^const>\<open>None\<close> while \<^verbatim>\<open>main\<close> waits for the signal, \<open>exit_status\<close>
  is what the process ended with.
\<close>

record kv_process =
  clock_of :: clockwork
  serves_clients :: bool
  serves_peers :: bool
  log_open :: bool
  to_do :: "kv_action list option"
  exit_status :: "nat option"

definition kv_started :: kv_process where
  "kv_started = \<lparr>clock_of = clock_start no_clock, serves_clients = True, serves_peers = True, log_open = True,
     to_do = None, exit_status = None\<rparr>"

text \<open>\<^verbatim>\<open>Shutdown\<close> closes the listener first; whether it then gives up on requests is only logged.\<close>

definition perform :: "kv_action \<Rightarrow> kv_process \<Rightarrow> kv_process option" where
  "perform a p = (case a of
       Shutdown_client \<Rightarrow> Some (p\<lparr>serves_clients := False\<rparr>)
     | Shutdown_peer \<Rightarrow> Some (p\<lparr>serves_peers := False\<rparr>)
     | Cancel_shutdown \<Rightarrow> Some p
     | Stop_signals \<Rightarrow> Some p
     | Node_cancel \<Rightarrow> Some (p\<lparr>clock_of := Stop_cancel (clock_of p)\<rparr>)
     | Node_wait \<Rightarrow> if Stop_returns (clock_of p) then Some p else None
     | Close_log \<Rightarrow> Some (p\<lparr>log_open := False\<rparr>))"

text \<open>
  A listener that fails while it serves ends the process at once (\<^verbatim>\<open>log.Fatalf\<close>, no deferred call runs);
  one that \<^verbatim>\<open>Shutdown\<close> has closed returns \<^verbatim>\<open>ErrServerClosed\<close>, which is no failure.
\<close>

inductive kv_step :: "kv_process \<Rightarrow> kv_process \<Rightarrow> bool" where
  Signal: "exit_status p = None \<Longrightarrow> to_do p = None \<Longrightarrow> kv_step p (p\<lparr>to_do := Some shutdown_plan\<rparr>)"
| Act: "exit_status p = None \<Longrightarrow> to_do p = Some (a # as) \<Longrightarrow> perform a p = Some q \<Longrightarrow>
    kv_step p (q\<lparr>to_do := Some as\<rparr>)"
| Return: "exit_status p = None \<Longrightarrow> to_do p = Some [] \<Longrightarrow> kv_step p (p\<lparr>exit_status := Some 0\<rparr>)"
| Loop: "exit_status p = None \<Longrightarrow> loop_ends (clock_of p) c = Some k \<Longrightarrow> kv_step p (p\<lparr>clock_of := k\<rparr>)"
| Serve_fails: "exit_status p = None \<Longrightarrow> serves_clients p \<or> serves_peers p \<Longrightarrow> kv_step p (p\<lparr>exit_status := Some 1\<rparr>)"

inductive kv_runs :: "kv_process \<Rightarrow> bool" where
  kv_begin: "kv_runs kv_started"
| kv_more: "kv_runs p \<Longrightarrow> kv_step p q \<Longrightarrow> kv_runs q"

text \<open>How far the shutdown has come: \<open>bs\<close> is done, \<open>as\<close> is to do.\<close>

definition clock_ok :: "clockwork \<Rightarrow> bool" where
  "clock_ok k \<longleftrightarrow> loops k \<subseteq> {0} \<and> (cancelFunc k = Some 0 \<or> cancelFunc k = None \<and> 0 \<in> cancelled k)"

definition so_far :: "kv_process \<Rightarrow> kv_action list \<Rightarrow> kv_action list \<Rightarrow> bool" where
  "so_far p bs as \<longleftrightarrow> shutdown_plan = bs @ as \<and> clock_ok (clock_of p) \<and>
     (serves_clients p \<longleftrightarrow> Shutdown_client \<notin> set bs) \<and> (serves_peers p \<longleftrightarrow> Shutdown_peer \<notin> set bs) \<and>
     (Node_cancel \<in> set bs \<longrightarrow> cancelFunc (clock_of p) = None) \<and>
     (Node_wait \<in> set bs \<longrightarrow> Stop_returns (clock_of p)) \<and> (log_open p \<longleftrightarrow> Close_log \<notin> set bs)"

definition kv_inv :: "kv_process \<Rightarrow> bool" where
  "kv_inv p \<longleftrightarrow> (\<exists>bs as. so_far p bs as \<and> (to_do p = Some as \<or> to_do p = None \<and> bs = []) \<and>
     (exit_status p = Some 0 \<longrightarrow> as = []))"

lemma clock_ok_steps:
  assumes "clock_ok k"
  shows "clock_ok (Stop_cancel k)" "loop_ends k c = Some l \<Longrightarrow> clock_ok l"
  using assms by (auto simp: clock_ok_def Stop_cancel_def loop_ends_def split: option.splits if_splits)

lemma Stop_cancel_sel: "cancelFunc (Stop_cancel k) = None" "loops (Stop_cancel k) = loops k"
  by (simp_all add: Stop_cancel_def split: option.splits)

lemma perform_cases:
  assumes "perform a p = Some q"
  shows "a = Shutdown_client \<and> q = p\<lparr>serves_clients := False\<rparr> \<or> a = Shutdown_peer \<and> q = p\<lparr>serves_peers := False\<rparr> \<or>
    (a = Cancel_shutdown \<or> a = Stop_signals) \<and> q = p \<or> a = Node_cancel \<and> q = p\<lparr>clock_of := Stop_cancel (clock_of p)\<rparr> \<or>
    a = Node_wait \<and> q = p \<and> Stop_returns (clock_of p) \<or> a = Close_log \<and> q = p\<lparr>log_open := False\<rparr>"
  using assms unfolding perform_def by (cases a) (simp_all split: if_splits)

lemma so_far_perform:
  assumes b: "so_far p bs (a # as)" and "perform a p = Some q"
  shows "so_far q (bs @ [a]) as \<and> to_do q = to_do p \<and> exit_status q = exit_status p"
proof -
  have "clock_ok (Stop_cancel (clock_of p))" using b clock_ok_steps(1) by (simp add: so_far_def)
  with b show ?thesis
    using perform_cases [OF assms(2)]
    by (elim disjE conjE) (simp_all add: so_far_def Stop_cancel_sel Stop_returns_def)
qed

lemma kv_invI: "so_far p bs as \<Longrightarrow> to_do p = Some as \<or> to_do p = None \<and> bs = [] \<Longrightarrow>
    (exit_status p = Some 0 \<Longrightarrow> as = []) \<Longrightarrow> kv_inv p"
  unfolding kv_inv_def by blast

lemma so_far_sel:
  "so_far p bs as \<Longrightarrow> clock_of q = clock_of p \<Longrightarrow> serves_clients q = serves_clients p \<Longrightarrow>
   serves_peers q = serves_peers p \<Longrightarrow> log_open q = log_open p \<Longrightarrow> so_far q bs as"
  by (simp add: so_far_def)

lemma so_far_loop:
  assumes "so_far p bs as" and e: "loop_ends (clock_of p) c = Some k"
  shows "so_far (p\<lparr>clock_of := k\<rparr>) bs as"
proof -
  have "clock_ok k" using assms(1) clock_ok_steps(2) [OF _ e] by (simp add: so_far_def)
  moreover have "cancelFunc k = cancelFunc (clock_of p)" "Stop_returns (clock_of p) \<Longrightarrow> Stop_returns k"
    using e by (auto simp: loop_ends_def Stop_returns_def split: if_splits)
  ultimately show ?thesis using assms(1) by (simp add: so_far_def)
qed

lemma kv_inv_step:
  assumes "kv_step p q" and "kv_inv p"
  shows "kv_inv q"
proof -
  obtain bs as where b: "so_far p bs as" and td: "to_do p = Some as \<or> to_do p = None \<and> bs = []"
    using assms(2) unfolding kv_inv_def by blast
  from assms(1) show ?thesis
  proof cases
    case Signal
    then have e: "bs = []" using td by simp
    then have "as = shutdown_plan" using b by (simp add: so_far_def)
    moreover have "so_far q bs as" using b by (rule so_far_sel) (simp_all add: Signal(1))
    ultimately show ?thesis using e Signal by (intro kv_invI [of q bs as]) simp_all
  next
    case (Act a as' r)
    then have "so_far p bs (a # as')" using b td by simp
    from so_far_perform [OF this Act(4)] have r: "so_far r (bs @ [a]) as'" "exit_status q = None"
      using Act(1,2) by simp_all
    have "so_far q (bs @ [a]) as'" using r(1) by (rule so_far_sel) (simp_all add: Act(1))
    then show ?thesis using r(2) by (intro kv_invI [of q "bs @ [a]" as']) (simp_all add: Act(1))
  next
    case Return
    have "so_far q bs as" using b by (rule so_far_sel) (simp_all add: Return(1))
    then show ?thesis using td Return by (intro kv_invI [of q bs as]) simp_all
  next
    case (Loop c k)
    have "so_far q bs as" unfolding Loop(1) using b Loop(3) by (rule so_far_loop)
    then show ?thesis using td Loop(1,2) by (intro kv_invI [of q bs as]) simp_all
  next
    case Serve_fails
    have "so_far q bs as" using b by (rule so_far_sel) (simp_all add: Serve_fails(1))
    then show ?thesis using td Serve_fails(1) by (intro kv_invI [of q bs as]) simp_all
  qed
qed

lemma kv_inv_runs: "kv_runs p \<Longrightarrow> kv_inv p"
proof (induction rule: kv_runs.induct)
  case kv_begin
  have "so_far kv_started [] shutdown_plan"
    by (simp add: so_far_def kv_started_def clock_ok_def clock_start_def no_clock_def)
  then show ?case by (rule kv_invI) (simp_all add: kv_started_def)
qed (rule kv_inv_step)

text \<open>
  The log is closed only when nothing of the node's own is left running and no listener is open, and an exit
  with status 0 has closed it.
\<close>

lemma plan_done: "shutdown_plan = bs @ as \<Longrightarrow> Close_log \<in> set bs \<Longrightarrow> as = []"
  by (cases as rule: rev_cases) (auto simp: shutdown_plan_def Cons_eq_append_conv)

theorem closed_log_is_idle:
  assumes "kv_runs p" and "\<not> log_open p \<or> exit_status p = Some 0"
  shows "Stop_returns (clock_of p) \<and> \<not> serves_clients p \<and> \<not> serves_peers p \<and> \<not> log_open p"
proof -
  obtain bs as where b: "so_far p bs as" "exit_status p = Some 0 \<Longrightarrow> as = []"
    using kv_inv_runs [OF assms(1)] unfolding kv_inv_def by blast
  then have "as = []" using assms(2) plan_done by (auto simp: so_far_def)
  with b(1) have "bs = shutdown_plan" by (simp add: so_far_def)
  with b(1) show ?thesis by (simp add: so_far_def shutdown_plan_def)
qed

text \<open>After the signal the process can always end, however far it has come.\<close>

theorem shutdown_completes:
  assumes "kv_runs p" and "to_do p = Some as" and "exit_status p = None"
  shows "\<exists>q. rtranclp kv_step p q \<and> exit_status q = Some 0"
proof -
  obtain bs where "so_far p bs as" using kv_inv_runs [OF assms(1)] assms(2) by (auto simp: kv_inv_def)
  then show ?thesis using assms(2,3)
  proof (induction as arbitrary: p bs)
    case Nil
    then have "kv_step p (p\<lparr>exit_status := Some 0\<rparr>)" by (intro kv_step.Return)
    then show ?case by (intro exI [of _ "p\<lparr>exit_status := Some 0\<rparr>"]) auto
  next
    case (Cons a as)
    have ready: ?case if ok: "so_far r bs (a # as)" and "to_do r = Some (a # as)" "exit_status r = None"
      "perform a r = Some q" "rtranclp kv_step p r" for r q
    proof -
      have "kv_step r (q\<lparr>to_do := Some as\<rparr>)" using that by (intro kv_step.Act)
      moreover have "so_far (q\<lparr>to_do := Some as\<rparr>) (bs @ [a]) as" "exit_status q = None"
        using so_far_perform [OF ok that(4)] that(3) by (simp_all add: so_far_def)
      ultimately obtain z where "rtranclp kv_step (q\<lparr>to_do := Some as\<rparr>) z" "exit_status z = Some 0"
        using Cons.IH [of "q\<lparr>to_do := Some as\<rparr>"] by auto
      with \<open>kv_step r _\<close> that(5) show ?thesis by (meson converse_rtranclp_into_rtranclp rtranclp_trans)
    qed
    show ?case
    proof (cases "perform a p")
      case (Some q)
      with Cons.prems show ?thesis by (intro ready) auto
    next
      case None
      then have a: "a = Node_wait" "loops (clock_of p) \<noteq> {}"
        by (cases a; auto simp: perform_def Stop_returns_def split: if_splits)+
      then have "Node_cancel \<in> set bs"
        using Cons.prems(1) by (auto simp: so_far_def shutdown_plan_def Cons_eq_append_conv)
      then have "loops (clock_of p) = {0}" "0 \<in> cancelled (clock_of p)"
        using Cons.prems(1) a(2) by (auto simp: so_far_def clock_ok_def)
      then have e: "loop_ends (clock_of p) 0 = Some (clock_of p\<lparr>loops := {}\<rparr>)" by (simp add: loop_ends_def)
      let ?r = "p\<lparr>clock_of := clock_of p\<lparr>loops := {}\<rparr>\<rparr>"
      have "kv_step p ?r" using Cons.prems(3) e by (rule kv_step.Loop)
      moreover have "so_far ?r bs (a # as)" using Cons.prems(1) by (auto simp: so_far_def clock_ok_def Stop_returns_def)
      moreover have "perform a ?r = Some ?r" using a(1) by (simp add: perform_def Stop_returns_def)
      ultimately show ?thesis using Cons.prems(2,3) by (intro ready [of ?r ?r]) auto
    qed
  qed
qed

end
