(* ===== verification/Kv_Examples.thy ===== *)
theory Kv_Examples
  imports Loadgen Kv_Engine Raft_Batch Raft_Races Raft_Agreement Raft_Transport Kvnode
begin

text \<open>
  Concrete inputs: small nodes, logs and clusters on which the theorems of the library are shown
  to apply.
\<close>

definition demo_config :: "NodeID \<Rightarrow> NodeID list \<Rightarrow> Config" where
  "demo_config i ps = \<lparr>cfg_ID = i, cfg_Addr = ''a'', cfg_Peers = map (\<lambda>p. \<lparr>peer_ID = p, peer_Addr = ''b''\<rparr>) ps\<rparr>"

definition demo_node :: "Config \<Rightarrow> Log \<Rightarrow> StateStore option \<Rightarrow> Engine Node" where
  "demo_node c l s = \<lparr>cfg = c, nlog = l, apply_fn = Engine_Apply, machine = Engine_New, nstate = s, currentTerm = 0,
     votedFor = [], role = Follower, leaderID = [], lastHeard = 0, heartbeatInterval = 50000000,
     electionTimeoutMin = 150000000, electionTimeoutMax = 300000000, noReadBatching = False, confirmNext = None,
     confirmRunning = False, confirmSeq = 0, commitIndex = 0, lastApplied = 0, applyWait = 0,
     nextIndex = Map.empty, matchIndex = Map.empty\<rparr>"

definition demo_cluster :: "Engine cluster" where
  "demo_cluster = \<lparr>nodes = (\<lambda>i. demo_node (demo_config i []) NewLog (Some (new_dir []))), started = {}, running = {},
     answered = (\<lambda>_. {}), tally = (\<lambda>_. {}), won = {}, vote_requests = {}, vote_replies = {}, drafts = {},
     append_requests = {}, append_replies = {}, probes = {}, read_requests = {}, proposals = {},
     applying = (\<lambda>_. None)\<rparr>"

lemma demo_initial: "initial {''1''} demo_cluster"
  by (simp add: initial_def demo_cluster_def configured_def demo_node_def demo_config_def Validate_iff ClusterSize_def
      members_def valid_utf8_ascii valid_utf8_Nil)

lemma demo_save: "\<exists>s. Save (new_dir []) st = (None, s)"
  by (simp add: Save_no_faults new_dir_def)

lemma demo_fresh: "fresh {''1''} Engine_New Engine_Apply demo_cluster"
  using demo_initial log_wf_NewLog
  by (simp add: fresh_def demo_cluster_def demo_node_def NewLog_def)

text \<open>Three new nodes.\<close>

definition demo_trio :: "Engine cluster" where
  "demo_trio = demo_cluster\<lparr>nodes := (\<lambda>i. demo_node (demo_config i (removeAll i [''1'', ''2'', ''3''])) NewLog
     (Some (new_dir [])))\<rparr>"

lemma demo_trio_logs: "entries (nlog (nodes demo_trio i)) = [sentinel]"
  by (simp add: demo_trio_def demo_node_def NewLog_def)

lemma demo_trio_fresh: "fresh {''1'', ''2'', ''3''} Engine_New Engine_Apply demo_trio"
proof -
  have "initial {''1'', ''2'', ''3''} demo_trio"
    by (auto simp: initial_def demo_trio_def demo_cluster_def configured_def demo_node_def demo_config_def Validate_iff
        ClusterSize_def members_def valid_utf8_ascii valid_utf8_Nil)
  moreover have "log_wf NewLog" "entries NewLog = [sentinel]" using log_wf_NewLog by (simp_all add: NewLog_def)
  ultimately show ?thesis by (simp add: fresh_def demo_trio_def demo_cluster_def demo_node_def)
qed

text \<open>The single node stands for election, wins, proposes a command, commits and applies it.\<close>

definition demo_leads :: "Engine cluster \<Rightarrow> Log \<Rightarrow> u64 \<Rightarrow> bool" where
  "demo_leads c l k \<longleftrightarrow> reachable {''1''} Engine_New True True demo_cluster c \<and> (''1'', 1) \<in> won c \<and> applying c ''1'' = None \<and>
     role (nodes c ''1'') = Leader \<and> currentTerm (nodes c ''1'') = 1 \<and> nlog (nodes c ''1'') = l \<and>
     cfg (nodes c ''1'') = demo_config ''1'' [] \<and> commitIndex (nodes c ''1'') = k \<and> lastApplied (nodes c ''1'') = 0"

lemma demo_leader: "\<exists>c. demo_leads c NewLog 0"
proof -
  let ?n = "demo_node (demo_config ''1'' []) NewLog (Some (new_dir []))"
  obtain s where s: "Save (new_dir []) \<lparr>CurrentTerm = 1, VotedFor = ''1''\<rparr> = (None, s)" using demo_save by blast
  obtain req n1 where c: "campaign_start ?n 0 = (Inr req, n1)" "vq_Term req = 1" "role n1 = Candidate"
      "currentTerm n1 = 1" "cfg n1 = cfg ?n"
    using s by (simp add: campaign_start_def persistLocked_def demo_node_def demo_config_def)
  note sel = campaign_start_sel [OF c(1)]
  let ?c1 = "(set_node demo_cluster ''1'' n1)\<lparr>started := insert (''1'', vq_Term req) (started demo_cluster),
      running := insert (''1'', vq_Term req) (running demo_cluster),
      vote_requests := insert req (vote_requests demo_cluster)\<rparr>"
  have 1: "cstep {''1''} Engine_New True True demo_cluster ?c1"
    by (rule cstep.Campaign [where now = 0]) (use c in \<open>simp_all add: demo_cluster_def demo_node_def\<close>)
  obtain n2 where w: "promote n1 1 = (True, n2)" using c by (simp add: promote_def)
  have 2: "cstep {''1''} Engine_New True True ?c1 ((set_node ?c1 ''1'' n2)\<lparr>running := running ?c1 - {(''1'', 1)},
      won := (if True then insert (''1'', 1) (won ?c1) else won ?c1)\<rparr>)" (is "cstep _ _ _ _ _ ?d")
    by (rule cstep.Win) (use c w in \<open>simp_all add: reached_def set_node_def demo_cluster_def Majority_def ClusterSize_def
        demo_node_def demo_config_def\<close>)
  have "reachable {''1''} Engine_New True True demo_cluster ?d"
    using reachable.more [OF reachable.more [OF reachable.start 1] 2] .
  then have "demo_leads ?d NewLog 0"
    using promote_sel [OF w] sel c(5)
    by (simp add: demo_leads_def set_node_def) (simp add: demo_node_def demo_cluster_def)
  then show ?thesis by blast
qed

lemma demo_won: "\<exists>d. reachable {''1''} Engine_New True True demo_cluster d \<and> (''1'', 1) \<in> won d"
  using demo_leader unfolding demo_leads_def by blast

lemma demo_applied:
  "\<exists>d. reachable {''1''} Engine_New True True demo_cluster d \<and> role (nodes d ''1'') = Leader \<and>
     commitIndex (nodes d ''1'') = 1 \<and> lastApplied (nodes d ''1'') = 1 \<and> currentTerm (nodes d ''1'') = 1 \<and>
     entries (nlog (nodes d ''1'')) = [sentinel, zero_record\<lparr>Term := 1, Index := 1\<rparr>]"
proof -
  obtain c where c: "demo_leads c NewLog 0" using demo_leader by blast
  let ?e = "zero_record\<lparr>Term := 1, Index := 1\<rparr>" and ?n = "nodes c ''1''"
  let ?l = "\<lparr>entries = [sentinel, ?e], offsets = [0, 0], w = None\<rparr>"
  let ?c1 = "c\<lparr>proposals := insert (''1'', 1, zero_record) (proposals c)\<rparr>"
  have 1: "cstep {''1''} Engine_New True True c ?c1"
    by (rule cstep.Propose_start) (use c in \<open>simp_all add: demo_leads_def propose_term_def\<close>)
  have app: "propose_append ?n 1 zero_record = (Inr 1, ?n\<lparr>nlog := ?l\<rparr>)"
    using c by (simp add: demo_leads_def propose_append_def NewLog_def storeLocked_def LastIndex_def Let_def
        sentinel_def zero_record_def)
  let ?c2 = "(set_node ?c1 ''1'' (?n\<lparr>nlog := ?l\<rparr>))\<lparr>proposals := proposals ?c1 - {(''1'', 1, zero_record)}\<rparr>"
  have 2: "cstep {''1''} Engine_New True True ?c1 ?c2"
    by (rule cstep.Propose_append) (use c app in \<open>simp_all add: demo_leads_def leads_def NewLog_def slice_max_def\<close>)
  have adv: "advanceCommit (nodes ?c2 ''1'') = ?n\<lparr>nlog := ?l, commitIndex := 1\<rparr>"
    using c by (simp add: demo_leads_def advanceCommit_def LastIndex_def commit_loop.simps [of _ 1] At_def len64_def
        replicas_def Majority_def ClusterSize_def demo_config_def word_le_nat_alt)
  let ?c3 = "set_node ?c2 ''1'' (?n\<lparr>nlog := ?l, commitIndex := 1\<rparr>)"
  have 3: "cstep {''1''} Engine_New True True ?c2 ?c3"
    using cstep.Advance [of "''1''" "{''1''}" Engine_New True True ?c2] unfolding adv by simp
  let ?c4 = "?c3\<lparr>applying := (applying ?c3)(''1'' := Some ?e)\<rparr>"
  have 4: "cstep {''1''} Engine_New True True ?c3 ?c4"
    by (rule cstep.Apply_read) (use c in \<open>simp_all add: demo_leads_def apply_next_def At_def len64_def set_node_def word_le_nat_alt\<close>)
  let ?c5 = "(set_node ?c4 ''1'' (apply_one (nodes ?c4 ''1'') ?e))\<lparr>applying := (applying ?c4)(''1'' := None)\<rparr>"
  have 5: "cstep {''1''} Engine_New True True ?c4 ?c5"
    by (rule cstep.Apply_do) simp_all
  have "reachable {''1''} Engine_New True True demo_cluster ?c5"
    using c reachable.more [OF reachable.more [OF reachable.more [OF reachable.more [OF reachable.more [OF _ 1] 2] 3] 4] 5]
    unfolding demo_leads_def by blast
  moreover have "role (nodes ?c5 ''1'') = Leader" "commitIndex (nodes ?c5 ''1'') = 1" "lastApplied (nodes ?c5 ''1'') = 1"
      "currentTerm (nodes ?c5 ''1'') = 1" "entries (nlog (nodes ?c5 ''1'')) = [sentinel, ?e]"
    using c by (simp_all add: apply_one_def demo_leads_def)
  ultimately show ?thesis by blast
qed

subsection \<open>A vote, a power cut, a restart\<close>

definition demo_vote :: RequestVoteRequest where
  "demo_vote = \<lparr>vq_Term = 7, CandidateID = ''2'', vq_LastLogIndex = 0, vq_LastLogTerm = 0\<rparr>"

abbreviation demo_three :: Config where
  "demo_three \<equiv> demo_config ''1'' [''2'', ''3'']"

abbreviation demo_voter :: "Engine Node" where
  "demo_voter \<equiv> demo_node demo_three NewLog (Some (new_dir []))"

lemma demo_three_ok: "Validate demo_three = None"
  by (simp add: demo_config_def Validate_iff ClusterSize_def)

lemma demo_logs_empty: "logUpToDateLocked (demo_node c NewLog s) 0 0"
  by (simp add: logUpToDateLocked_def demo_node_def NewLog_def LastIndex_def LastTerm_def sentinel_def zero_record_def)

lemma demo_vote_restart:
  "\<exists>n1 n2. HandleRequestVote demo_voter demo_vote 0 = (Inr \<lparr>vr_Term = 7, VoteGranted = True\<rparr>, n1) \<and>
     restarts Engine_New n1 n2"
proof -
  let ?st = "\<lparr>CurrentTerm = 7, VotedFor = ''2''\<rparr>"
  let ?f = "\<lparr>cached = marshal_state ?st, durable = marshal_state ?st, is_closed = False, faults = []\<rparr>"
  let ?s = "(new_dir [])\<lparr>entry := Some ?f, tmp := None, unsynced := []\<rparr>"
  let ?n1 = "demo_voter\<lparr>currentTerm := 7, votedFor := ''2'', leaderID := [], role := Follower, lastHeard := 0,
    nstate := Some ?s\<rparr>"
  have up: "logUpToDateLocked (demo_voter\<lparr>currentTerm := 7, votedFor := [], leaderID := [], role := Follower, nstate := x\<rparr>) 0 0"
    for x using demo_logs_empty [of demo_three "Some (new_dir [])"] by (simp add: logUpToDateLocked_def demo_node_def)
  have a: "HandleRequestVote demo_voter demo_vote 0 = (Inr \<lparr>vr_Term = 7, VoteGranted = True\<rparr>, ?n1)"
    using up
    by (simp add: HandleRequestVote_def demo_vote_def setTermLocked_def persistLocked_def Save_no_faults new_dir_def
        noteContactLocked_def demo_node_def Let_def)
  have san: "sanitize_state ?st = ?st"
    by (simp add: sanitize_state_def sanitize_valid valid_utf8_ascii valid_utf8_Nil)
  have op: "OpenStateStore ?s = Inr (?s, ?st)"
    using san by (simp add: OpenStateStore_def source_of_def next_io_def new_dir_def unmarshal_marshal_state)
  let ?o = "\<lparr>o_Config = demo_three, o_Log = NewLog, o_State = Some (with_faults [] ?s), o_Apply = Some Engine_Apply,
    o_DisableReadBatching = False, o_HeartbeatInterval = 0, o_ElectionTimeoutMin = 0, o_ElectionTimeoutMax = 0\<rparr>"
  obtain n2 where n2: "NewNode ?o ?st Engine_New 0 = Inr n2"
    using demo_three_ok by (simp add: NewNode_def Let_def orDefault_def defaultElectionTimeoutMin_def
        defaultElectionTimeoutMax_def)
  have cr: "crash_dir ?s ?s"
    by (simp add: crash_dir_def new_dir_def crash_entry_def crash_content_def synced_def)
  have lg: "restart_log (nlog ?n1) NewLog" by (simp add: restart_log_def demo_node_def NewLog_def)
  have "restarts Engine_New ?n1 n2"
    unfolding restarts_def
    by (intro exI [of _ ?s] exI [of _ ?st] exI [of _ "[]"] exI [of _ ?o] exI [of _ 0])
       (use cr op lg n2 in \<open>simp add: demo_node_def\<close>)
  with a show ?thesis by blast
qed

subsection \<open>One entry to replicate\<close>

definition demo_entry :: Record where
  "demo_entry = \<lparr>Term = 1, Index = 1, Op = OpSet, Key = ''k'', Value = ''v''\<rparr>"

definition demo_lead :: "Record list" where
  "demo_lead = [sentinel, demo_entry]"

definition demo_request :: AppendEntriesRequest where
  "demo_request = \<lparr>aq_Term = 1, aq_LeaderID = ''2'', PrevLogIndex = 0, PrevLogTerm = 0, Entries = [demo_entry],
     LeaderCommit = 1\<rparr>"

definition demo_follower :: "Engine Node" where
  "demo_follower = (demo_node demo_three NewLog None)\<lparr>currentTerm := 1\<rparr>"

definition demo_log :: Log where
  "demo_log = \<lparr>entries = demo_lead, offsets = [0, 0], w = None\<rparr>"

definition demo_leader :: "Engine Node" where
  "demo_leader = (demo_node demo_three demo_log None)\<lparr>currentTerm := 1, role := Leader,
     nextIndex := (\<lambda>_. Some 2), matchIndex := (\<lambda>_. Some 0)\<rparr>"

definition demo_peer :: Peer where
  "demo_peer = \<lparr>peer_ID = ''2'', peer_Addr = ''b''\<rparr>"

lemma less_2_cases: "(i :: nat) < Suc (Suc 0) \<Longrightarrow> i = 0 \<or> i = 1"
  by auto

lemma demo_lead_indexed: "indexed demo_lead"
  by (auto simp: indexed_def demo_lead_def demo_entry_def sentinel_def zero_record_def slice_max_def
      dest!: less_2_cases)

lemma demo_log_wf: "log_wf demo_log" "healthy demo_log"
  using demo_lead_indexed by (simp_all add: log_wf_def demo_log_def demo_lead_def healthy_def on_disk_def)

lemma demo_matching: "matching demo_lead [sentinel]" "matching [sentinel] demo_lead"
  by (simp_all add: matching_def demo_lead_def)

lemma demo_matching_log: "matching demo_lead (entries NewLog)"
  using demo_matching by (simp add: NewLog_def)

lemma demo_message: "message_from demo_lead demo_request"
  using demo_lead_indexed
  by (auto simp: message_from_def demo_request_def demo_lead_def sentinel_def zero_record_def intro!: exI [of _ 1])

lemma demo_numbered: "numbered_from 0 [demo_entry]"
  by (simp add: numbered_from_def demo_entry_def)

lemma demo_Match: "Match NewLog 0 0"
  by (simp add: Match_wf log_wf_NewLog) (simp add: NewLog_def sentinel_def zero_record_def)

lemma demo_append: "\<exists>resp n'. HandleAppendEntries demo_follower demo_request 0 = (Inr resp, n') \<and> Success resp"
proof -
  have "aq_Term demo_request = currentTerm demo_follower" "healthy (nlog demo_follower)"
    "unat (PrevLogIndex demo_request) + 1 + length (Entries demo_request) < slice_max"
    "numbered_from (PrevLogIndex demo_request) (Entries demo_request)"
    using demo_numbered healthy_NewLog
    by (simp_all add: demo_request_def demo_follower_def demo_node_def slice_max_def)
  from HandleAppendEntries_healthy [OF this, of 0] obtain u' where
    "HandleAppendEntries demo_follower demo_request 0 = (Inr (replyLocked u' (Match (nlog demo_follower)
      (PrevLogIndex demo_request) (PrevLogTerm demo_request))), u')" by metis
  moreover have "Match (nlog demo_follower) (PrevLogIndex demo_request) (PrevLogTerm demo_request)"
    using demo_Match by (simp add: demo_request_def demo_follower_def demo_node_def)
  ultimately show ?thesis by (simp add: replyLocked_def)
qed

lemma demo_follower_applied: "applied_ok Engine_New demo_follower"
  using log_wf_NewLog by (simp add: applied_ok_def demo_follower_def demo_node_def)

lemma demo_in_step: "in_step demo_peer demo_leader demo_follower"
  using demo_log_wf demo_matching_log healthy_NewLog
  by (simp add: in_step_def demo_leader_def demo_follower_def demo_node_def demo_log_def demo_lead_def)

subsection \<open>A log on disk, a cluster of one\<close>

definition demo_disk_log :: Log where
  "demo_disk_log = \<lparr>entries = [sentinel], offsets = [0], w = Some (wal_fresh [])\<rparr>"

lemma demo_disk_log_healthy: "healthy demo_disk_log"
  using wal_holds_fresh [of "[]"]
  by (simp add: healthy_def demo_disk_log_def log_wf_def indexed_def slice_max_def on_disk_def mirrors_def
      wal_fresh_def sentinel_def zero_record_def)

lemma demo_disk_append:
  "\<exists>l wl. Log_Append demo_disk_log 1 [demo_entry] = ([demo_entry], None, l) \<and> healthy l \<and> w l = Some wl \<and>
     entries l = demo_lead"
proof -
  have sz: "Suc (length (entries demo_disk_log)) < slice_max" by (simp add: demo_disk_log_def slice_max_def)
  have e: "demo_entry\<lparr>Term := 1, Index := LastIndex demo_disk_log + 1\<rparr> = demo_entry"
    by (simp add: demo_entry_def LastIndex_def demo_disk_log_def sentinel_def zero_record_def)
  obtain l where l: "Log_Append demo_disk_log 1 [demo_entry] = ([demo_entry], None, l)" "healthy l"
      "entries l = entries demo_disk_log @ [demo_entry]"
    using Log_Append_one_healthy [OF demo_disk_log_healthy sz, of 1 demo_entry] unfolding e by blast
  have "w l \<noteq> None"
    using l(1) by (auto simp: demo_disk_log_def storeLocked_def Let_def split: sum.splits prod.splits)
  with l show ?thesis by (auto simp: demo_disk_log_def demo_lead_def)
qed

lemma fits_demo: "fits demo_entry" "utf8_record demo_entry"
  by (simp_all add: fits_def maxRecordSize_def marshal_record_def render_obj_def record_fields_def member_text_def
      demo_entry_def enc_body.simps esc_rune_def esc_ascii_def dec.simps OpSet_def utf8_record_def valid_utf8_Nil
      u2028_def u2029_def)

definition demo_env :: "(Engine, unit) env" where
  "demo_env = \<lparr>others = (\<lambda>n u. (n, u)), send_append = (\<lambda>p req u. (None, u)), send_vote = (\<lambda>p req u. (None, u)),
     send_read = (\<lambda>p req u. (None, u)), send_forward = (\<lambda>p req u. (None, u))\<rparr>"

definition demo_single :: "Engine Node" where
  "demo_single = (demo_node (demo_config ''1'' []) NewLog None)\<lparr>role := Leader, currentTerm := 1\<rparr>"

definition demo_batched :: "Peer list \<Rightarrow> Engine Node \<Rightarrow> unit \<Rightarrow> (node_error + u64) option \<times> Engine Node \<times> unit" where
  "demo_batched qs n u = (case confirmRound demo_env qs n u of (r, n, u) \<Rightarrow> (Some r, n, u))"

lemma demo_env_quiet: "quiet_env demo_env" "keeps_applied demo_env"
  by (simp_all add: quiet_env_def keeps_applied_def demo_env_def)

lemma demo_single_alone: "alone Engine_New demo_single"
  using healthy_NewLog log_wf_NewLog
  by (simp add: alone_def demo_single_def demo_node_def demo_config_def applied_ok_def NewLog_def slice_max_def)

lemma demo_read:
  "LinearizableRead demo_env (confirmRound demo_env []) 0 demo_single () = (None, demo_single, ())"
  by (simp add: LinearizableRead_def ReadIndex_def IsLeader_def demo_single_def demo_node_def demo_env_def
      confirmRound_def demo_config_def WaitForApplied.simps wait_pass_def)

definition demo_confirming :: "Engine confirming" where
  "demo_confirming = \<lparr>node = demo_single, rounds = [], closed = Map.empty, waiting = {}, clock = 0, captured = Map.empty\<rparr>"

lemma demo_at_rest: "at_rest demo_confirming"
  by (simp add: at_rest_def demo_confirming_def demo_single_def demo_node_def)

text \<open>A reader joins, and is answered after three steps of the goroutine.\<close>

lemma demo_batch:
  "\<exists>c d. bruns demo_confirming c \<and> (0, 0, 0) \<in> waiting c \<and> role (node c) = Leader \<and>
     bruns demo_confirming d \<and> (0, 0, 0) \<in> waiting d \<and> closed d 0 = Some (Inr 0)"
proof -
  let ?c1 = "tick (demo_confirming\<lparr>node := demo_single\<lparr>confirmNext := None, confirmRunning := True, confirmSeq := 1\<rparr>,
    waiting := insert (0, 0, clock demo_confirming) (waiting demo_confirming),
    rounds := (if True then Begins 0 # rounds demo_confirming else rounds demo_confirming)\<rparr>)"
  have 1: "bstep demo_confirming ?c1"
    by (rule bstep.Join) (simp_all add: demo_confirming_def demo_single_def demo_node_def IsLeader_def join_batch_def)
  let ?c2 = "tick (?c1\<lparr>rounds := [] @ Probing 0 0 # [], captured := (captured ?c1)(0 \<mapsto> (clock ?c1, 0))\<rparr>)"
  have 2: "bstep ?c1 ?c2"
    by (rule bstep.Capture) (simp_all add: demo_confirming_def demo_single_def demo_node_def capture_def)
  let ?c3 = "tick (?c2\<lparr>rounds := [] @ Closes 0 (Inr 0) # []\<rparr>)"
  have 3: "bstep ?c2 ?c3" by (rule bstep.Round) (simp_all add: round_result_def)
  let ?c4 = "tick (?c3\<lparr>rounds := [] @ Looks # [], closed := (closed ?c3)(0 \<mapsto> Inr 0)\<rparr>)"
  have 4: "bstep ?c3 ?c4" by (rule bstep.Close) simp
  have r1: "bruns demo_confirming ?c1" using bmore [OF bstart 1] .
  have r4: "bruns demo_confirming ?c4" using bmore [OF bmore [OF bmore [OF r1 2] 3] 4] .
  have "(0, 0, 0) \<in> waiting ?c1" "role (node ?c1) = Leader" "(0, 0, 0) \<in> waiting ?c4" "closed ?c4 0 = Some (Inr 0)"
    by (simp_all add: demo_confirming_def demo_single_def demo_node_def)
  with r1 r4 show ?thesis by blast
qed

subsection \<open>The empty record\<close>

lemma fits_zero: "fits zero_record"
  by (simp add: fits_def maxRecordSize_def marshal_record_def render_obj_def record_fields_def member_text_def
        zero_record_def enc_body.simps OpSet_def)

subsection \<open>A node started on an empty disk\<close>

definition demo_flags :: flags where
  "demo_flags = \<lparr>f_addr = ''c'', f_id = ''1'', f_raft_addr = ''a'', f_no_read_batching = False, f_peers = []\<rparr>"

lemma demo_starts:
  "\<exists>n. kvnode_main demo_flags True (reopen (wal_fresh [])) (new_dir []) 0 0 = Inr n \<and> cfg n = node_config demo_flags []"
proof -
  have "log_wf demo_disk_log" "on_disk demo_disk_log" "w demo_disk_log = Some (wal_fresh [])"
    using demo_disk_log_healthy by (simp_all add: healthy_def demo_disk_log_def)
  from OpenLog_recovers [OF this] obtain l where l: "OpenLog True (reopen (wal_fresh [])) = Inr l"
    by (auto simp: demo_disk_log_def)
  have "ParsePeers (f_peers demo_flags) = Inr []"
    by (simp add: ParsePeers_def demo_flags_def TrimSpace_def trim_with.simps [of _ "[]"] space_len_def)
  moreover have "Validate (node_config demo_flags []) = None"
    by (simp add: node_config_def demo_flags_def Validate_iff ClusterSize_def)
  moreover have "OpenStateStore (new_dir []) = Inr (new_dir [], zero_state)"
    by (simp add: OpenStateStore_def new_dir_def)
  ultimately show ?thesis using kvnode_main_starts [OF _ _ l] by blast
qed

subsection \<open>A restart that has a log to read back\<close>

lemma demo_log_restart:
  "\<exists>n n' wl. restarts Engine_New (n :: Engine Node) n' \<and> log_wf (nlog n) \<and> on_disk (nlog n) \<and> w (nlog n) = Some wl \<and>
     entries (nlog n) = demo_lead \<and> on_record n \<subseteq> {pair_of n}"
proof -
  obtain l wl where l: "healthy l" "w l = Some wl" "entries l = demo_lead" using demo_disk_append by blast
  have lw: "log_wf l" "on_disk l" using l(1) by (simp_all add: healthy_def)
  have "\<forall>r \<in> set (tl (entries l)). fits r" using l(3) fits_demo by (simp add: demo_lead_def)
  from OpenLog_recovers [OF lw l(2) this] obtain l' where l': "OpenLog True (reopen wl) = Inr l'" by blast
  let ?n = "demo_node demo_three l (Some (new_dir []))"
  let ?o = "\<lparr>o_Config = demo_three, o_Log = l', o_State = Some (with_faults [] (new_dir [])), o_Apply = Some Engine_Apply,
    o_DisableReadBatching = False, o_HeartbeatInterval = 0, o_ElectionTimeoutMin = 0, o_ElectionTimeoutMax = 0\<rparr>"
  obtain n' where n': "NewNode ?o zero_state Engine_New 0 = Inr n'"
    using demo_three_ok by (simp add: NewNode_def Let_def orDefault_def defaultElectionTimeoutMin_def
        defaultElectionTimeoutMax_def)
  have cr: "crash_dir (new_dir []) (new_dir [])" by (simp add: crash_dir_def new_dir_def crash_entry_def)
  have op: "OpenStateStore (new_dir []) = Inr (new_dir [], zero_state)" by (simp add: OpenStateStore_def new_dir_def)
  have lg: "restart_log l l'"
    using l(2) l' by (auto simp: restart_log_def crash_content_def reopen_def intro!: exI [of _ "reopen wl"])
  have "restarts Engine_New ?n n'"
    unfolding restarts_def
    by (intro exI [of _ "new_dir []"] exI [of _ zero_state] exI [of _ "[]"] exI [of _ ?o] exI [of _ 0])
       (use cr op lg n' in \<open>simp add: demo_node_def\<close>)
  moreover have "on_record ?n \<subseteq> {pair_of ?n}"
    using state_back_bound [OF may_hold_new_dir]
    by (simp add: on_record_def demo_node_def pair_of_def zero_state_def)
  ultimately show ?thesis using lw l(2,3)
    by (intro exI [of _ ?n] exI [of _ n'] exI [of _ wl]) (simp add: demo_node_def)
qed

subsection \<open>Inputs that show flaws\<close>

text \<open>Another leader has replaced the one entry of \<^const>\<open>demo_log\<close> and added a second.\<close>

definition demo_second :: Record where
  "demo_second = \<lparr>Term = 2, Index = 2, Op = OpSet, Key = ''k'', Value = ''v''\<rparr>"

definition demo_other_log :: Log where
  "demo_other_log = \<lparr>entries = [sentinel, demo_entry\<lparr>Term := 2\<rparr>, demo_second], offsets = [0, 0, 0], w = None\<rparr>"

definition demo_next :: AppendEntriesRequest where
  "demo_next = \<lparr>aq_Term = 1, aq_LeaderID = ''2'', PrevLogIndex = 1, PrevLogTerm = 0, Entries = [], LeaderCommit = 0\<rparr>"

lemma demo_other_log_wf: "log_wf demo_other_log"
proof -
  have "Index (entries demo_other_log ! i) = of_nat i" if "i < 3" for i
  proof -
    from that have "i = 0 \<or> i = 1 \<or> i = 2" by auto
    then show ?thesis by (auto simp: demo_other_log_def demo_entry_def demo_second_def sentinel_def zero_record_def)
  qed
  then show ?thesis by (simp add: log_wf_def indexed_def demo_other_log_def slice_max_def)
qed

text \<open>A follower that has committed its one entry, and a leader's message that ends before it.\<close>

definition demo_committed :: "Engine Node" where
  "demo_committed = (demo_node demo_three demo_log None)\<lparr>currentTerm := 1, commitIndex := 1, lastApplied := 1\<rparr>"

definition demo_short :: AppendEntriesRequest where
  "demo_short = \<lparr>aq_Term = 1, aq_LeaderID = ''2'', PrevLogIndex = 0, PrevLogTerm = 0, Entries = [], LeaderCommit = 2\<rparr>"

lemma demo_falls: "\<exists>resp n'. handleAppendEntries demo_committed demo_short 0 = (Inr resp, n') \<and> Success resp"
proof -
  have m: "Match demo_log 0 0" using demo_log_wf(1) by (rule Match_sentinel)
  then have "AppendAfter demo_log 0 0 [] = (Inr True, demo_log)" by (simp add: AppendAfter_def)
  then show ?thesis
    by (simp add: handleAppendEntries_def demo_committed_def demo_short_def demo_node_def adopt_def noteContactLocked_def
        replyLocked_def Let_def)
qed

text \<open>A leader with one entry that alone renders to more than the peers accept.\<close>

definition big_entry :: Record where
  "big_entry = zero_record\<lparr>Index := 1, Value := replicate (Suc 8388608) CHR ''v''\<rparr>"

definition demo_heavy :: "Engine Node" where
  "demo_heavy = demo_leader\<lparr>nlog := \<lparr>entries = [sentinel, big_entry], offsets = [0, 0], w = None\<rparr>,
     nextIndex := (\<lambda>_. Some 1)\<rparr>"

lemma enc_body_replicate: "enc_body (replicate n CHR ''v'') = replicate n CHR ''v''"
proof (induction n)
  case (Suc n)
  then show ?case by (simp add: enc_body.simps [of "_ # _"] esc_rune_def esc_ascii_def u2028_def u2029_def)
qed (simp add: enc_body.simps)

lemma length_commas: "x \<in> set xs \<Longrightarrow> length x \<le> length (commas xs)"
  by (induction xs rule: commas.induct) auto

lemma render_member_length: "(k, v) \<in> set ms \<Longrightarrow> length (render_field v) \<le> length (render_obj ms)"
proof -
  assume "(k, v) \<in> set ms"
  then have "member_text (k, render_field v) \<in> set (map member_text (map (map_prod id render_field) ms))"
    by force
  from length_commas [OF this] show ?thesis by (simp add: render_obj_def member_text_def)
qed

lemma render_element_length: "v \<in> set vs \<Longrightarrow> length (render_field v) \<le> length (render_field (FArr vs))"
  using length_commas [of "render_field v" "map render_field vs"] by simp

lemma big_entry_length: "8388608 < length (render_obj (record_fields big_entry))"
proof -
  have "(''value'', FStr (Value big_entry)) \<in> set (record_fields big_entry)"
    by (simp add: record_fields_def big_entry_def zero_record_def)
  from render_member_length [OF this] show ?thesis
    by (simp add: big_entry_def enc_body_replicate)
qed

lemma demo_too_long: "too_long demo_heavy demo_peer"
proof -
  have l: "nlog demo_heavy = \<lparr>entries = [sentinel, big_entry], offsets = [0, 0], w = None\<rparr>"
    by (simp add: demo_heavy_def)
  obtain req where req: "replicate_request demo_heavy demo_peer = Some req" "PrevLogIndex req = 0"
    by (simp add: replicate_request_def demo_heavy_def demo_leader_def at0_def)
  let ?req = "fill_entries (nlog demo_heavy) (fill_prev (nlog demo_heavy) req)"
  have e: "Entries ?req = [big_entry]"
    using req(2) by (simp add: fill_entries_def fill_prev_def l EntriesFrom_def len64_def word_le_nat_alt)
  then have "(''entries'', FArr [FObj (record_fields big_entry)]) \<in> set (append_request_fields ?req)"
    by (simp add: append_request_fields_def)
  from render_member_length [OF this] big_entry_length
    render_element_length [of "FObj (record_fields big_entry)" "[FObj (record_fields big_entry)]"]
  have "8388608 < length (render_obj (append_request_fields ?req))" by (simp add: render_obj_def)
  with req show ?thesis by (simp add: too_long_def)
qed

lemma short_records: "length (marshal_record zero_record) < 256"
  by (simp add: marshal_record_def render_obj_def record_fields_def member_text_def zero_record_def enc_body.simps OpSet_def)

end
