(* ===== verification/Spec2Isabelle.thy ===== *)
theory Spec2Isabelle
  imports Loadgen Kv_Engine Raft_Batch Raft_Races Raft_Cluster Raft_Agreement Raft_Reads Raft_Commit Raft_Replicate Raft_Transport
    Api_Server Kvnode Kv_Examples
begin

text \<open>
  A replicated key-value store in Go (\<^verbatim>\<open>src/\<close>): every node keeps a log of commands
  in a file, Raft makes the logs agree, and what a majority holds is applied to a map in memory. Clients
  talk HTTP to any node.

  \<^bold>\<open>Parts of the program and their theories.\<close> The order is the one in which the code
  builds on itself.

  \<^item> \<open>Kv_Prelude\<close>: 64-bit words, lists, the collections of hints.
  \<^item> \<open>Go_Utf8\<close>, \<open>Go_Json\<close>, \<open>Go_Json_Stream\<close>,
    \<open>Go_Crc32\<close>, \<open>Os_File\<close>: what the code uses of Go's library: UTF-8 and
    \<^verbatim>\<open>encoding/json\<close> on bytes (writer, reader, limited bodies),
    \<^verbatim>\<open>hash/crc32\<close>, and files: each has cached and durable bytes and a script of
    the faults its calls meet. The interface \<open>json_struct\<close> gives every struct its round
    trips; it is interpreted on the log record, the state file and the eight messages.
  \<^item> \<open>Wal_Record\<close>, \<open>Wal_Reader\<close>, \<open>Wal\<close>:
    \<^verbatim>\<open>internal/wal\<close>, the frames, \<^verbatim>\<open>ReadAll\<close>, append and
    truncate with their fsyncs. The interface \<open>record_file\<close> is what the log relies on.
  \<^item> \<open>Kv_Store\<close>, \<open>Kv_Engine\<close>: \<^verbatim>\<open>internal/store\<close>
    and \<^verbatim>\<open>internal/engine\<close>, with the interfaces \<open>kv_map\<close> and
    \<open>state_machine\<close>; a log's meaning is \<^const>\<open>last_write\<close>.
  \<^item> \<open>Raft_Config\<close> (\<^verbatim>\<open>config.go\<close>, interface
    \<open>voting\<close>), \<open>Raft_Log\<close> (\<^verbatim>\<open>log.go\<close>: entries in memory
    mirrored on disk), \<open>Raft_State\<close> (\<^verbatim>\<open>state.go\<close>, interface
    \<open>stable_storage\<close>), \<open>Raft_Rpc\<close> and \<open>Raft_Wire\<close>
    (\<^verbatim>\<open>rpc.go\<close> and its JSON).
  \<^item> \<open>Raft_Node\<close>, \<open>Raft_Election\<close>, \<open>Raft_Read\<close>:
    \<^verbatim>\<open>node.go\<close>, \<^verbatim>\<open>election.go\<close>,
    \<^verbatim>\<open>read.go\<close>.
  \<^item> \<open>Raft_Transport\<close> (\<^verbatim>\<open>transport.go\<close>), \<open>Api_Server\<close>
    (\<^verbatim>\<open>internal/api/server.go\<close>), \<open>Kvnode\<close>
    (\<^verbatim>\<open>cmd/kvnode/main.go\<close>: a function up to the started node, then the steps of its
    listeners and its shutdown).
  \<^item> \<open>Go_Float\<close>, \<open>Loadgen\<close>: \<^verbatim>\<open>float64\<close>, and
    \<^verbatim>\<open>cmd/loadgen/main.go\<close>, the client that measures a cluster.

  \<^bold>\<open>How the code is read.\<close> A struct is a record, a Go string is a list of bytes
  (\<^typ>\<open>string\<close>), a \<^verbatim>\<open>uint64\<close> is a 64-bit word whose additions
  wrap, an error is a constructor in an option or the left of a sum. What a goroutine does while it holds
  \<^verbatim>\<open>n.mu\<close>, \<^verbatim>\<open>n.applyMu\<close> or
  \<^verbatim>\<open>confirmMu\<close> is one function of the node (for instance
  \<^const>\<open>handleAppendEntries\<close>, \<^const>\<open>replicate_reply\<close>,
  \<^const>\<open>promote\<close>), and a method is the composition of its sections, as
  \<^const>\<open>Propose\<close> is. Between two sections other goroutines may run: that is the field
  \<open>others\<close> of the parameter \<^typ>\<open>('s, 'w) env\<close>, whose other fields are the
  four calls of the interface \<^verbatim>\<open>Transport\<close>, any of which may fail. Clocks, random
  numbers, the order in which peers answer, and contexts that expire are arguments.
  \<^verbatim>\<open>net/http\<close> is the parameter \<^typ>\<open>'w http_client\<close>.

  \<^bold>\<open>The systems of steps.\<close> \<open>Raft_Cluster\<close> runs the critical sections of
  all nodes in any order, with messages in sets from which nothing is removed, and crashes that keep a
  possible disk state. Two flags exclude interleavings the code does not guard against.
  \<open>strict\<close> excludes that of \<open>probe_race_votes_twice\<close>, in which a node votes
  twice in a term; it is all that Election Safety needs. \<open>orderly\<close> is for what is said of
  logs: it excludes the reading of a message in two moments
  (\<open>mixed_message_breaks_matching\<close>), a reply that is taken in by a later term of its leader
  (\<open>stale_reply_commits\<close>), an entry that is appended by a node that has been deposed since it
  read its term or to a log as long as a slice can be, and restarts that bring back less than the node had
  in memory, which a failed write can lead to (\<open>failed_append_loses_the_next\<close>); without one,
  \<open>restart_brings_back_memory\<close> shows that all of it comes back. \<open>Raft_Batch\<close>
  runs readers and the goroutine that confirms leadership.

  \<^bold>\<open>Groups of lemmas.\<close> \<open>Raft_Voting\<close>: no operation takes back a vote that was
  reported, not even across a restart, and only two operations cast one. \<open>Raft_Commit\<close>: the commit
  index and what is applied, on the leader and on a follower. \<open>Raft_Replicate\<close>: replication converges.
  \<open>Raft_Races\<close>: what some interleavings lead to. \<open>Raft_History\<close>: the logs of every term's
  leader and of every candidate, as history variables beside the cluster, and the argument about majorities that
  carries committed entries into every later leader's log. \<open>Raft_Safety\<close>: the invariant of logs,
  messages and indexes. \<open>Raft_Orderly\<close> and \<open>Raft_Steps\<close>: every operation and every step
  preserves it. \<open>Raft_Agreement\<close>: what follows for the runs of a cluster of new nodes;
  \<open>Raft_Reads\<close>: the same for strong reads: every commit index was once a leader's, and what a confirmed
  leader's covers. \<open>Kv_Examples\<close>: inputs on which the properties are shown to apply. This theory states
  the properties C1 to C40; C32 to C40 are about behaviour the code does not mean to have.

  \<^bold>\<open>Bounds and fuel.\<close> The JSON reader takes fuel \<open>2 * length + 1\<close>, which
  \<open>json_fuel_suffices\<close> shows to be enough, and refuses values nested deeper than 10000 as Go
  does. \<^verbatim>\<open>replicateTo\<close>'s 64 attempts are the code's own constant;
  \<open>replication_converges\<close> says how many rounds of them are enough. Logs have fewer than
  \<^const>\<open>slice_max\<close> entries, so that positions fit in 64 bits.
  \<^verbatim>\<open>WaitForApplied\<close> and the loops of the node's clock recurse over how often they
  are woken. The loops of the load generator run until the clock passes a deadline; their fuel is enough
  when it exceeds the nanoseconds left and every look at the clock moves it
  (\<open>load_worker_ends\<close>). All other loops are shown to terminate.

  \<^bold>\<open>Not modelled.\<close> What the packages \<^verbatim>\<open>flag\<close>,
  \<^verbatim>\<open>log\<close> and \<^verbatim>\<open>net/http\<close> do inside: the values of flags are
  arguments, log lines and the texts of errors are left out, and so are server timeouts, connection pools and
  deadlines of HTTP clients (a call that misses one fails). The layout of the load generator's output, and durations
  beyond 292 years. A handler of reads looks at the role and the map at one moment, where the code takes two locks
  after each other. A term that would pass \<open>2 ^ 64 - 1\<close> wraps as in Go, and the cluster's steps exclude
  it. A confirmation round is a function of the node and its environment, and its sharing a system of steps of its
  own; in the cluster, \<open>confirmed_read_is_fresh\<close> speaks of the probes by what members answered.
\<close>

section \<open>Properties\<close>

subsection \<open>Elections\<close>



text \<open>
  C2: State Machine Safety. In the life of an orderly cluster of new nodes, at any two moments, what any
  two members have applied is one the beginning of the other; the state of each is what it has
  applied replayed, so two that have applied equally much are in the same state. Crashes, restarts that
  bring back term and log, lost, late and repeated messages, and failing disks are all included; what
  \<^emph>\<open>orderly\<close> leaves out is what the last section shows to go wrong.
\<close>

theorem state_machine_safety:
  assumes "fresh M m0 app c" and "reachable M m0 True True c d" and "reachable M m0 True True d e" and "i \<in> M" and "k \<in> M"
  shows "(prefix (applied (nodes d i)) (applied (nodes e k)) \<or> prefix (applied (nodes e k)) (applied (nodes d i))) \<and>
    length (applied (nodes d i)) = unat (lastApplied (nodes d i)) \<and>
    machine (nodes d i) = foldl app m0 (applied (nodes d i)) \<and>
    (lastApplied (nodes d i) = lastApplied (nodes e k) \<longrightarrow> machine (nodes d i) = machine (nodes e k))"
proof -
  obtain h where h: "safe_inv M m0 app d h" using fresh_reachable [OF assms(1,2)] .
  obtain g where g: "safe_inv M m0 app e g" using safe_inv_reachable [OF assms(3) h] by blast
  note n = safe_node [OF h assms(4)] and m = safe_node [OF g assms(5)]
  have pre: "prefix (applied (nodes d i)) (applied (nodes e k)) \<or> prefix (applied (nodes e k)) (applied (nodes d i))"
    using h assms(3-5) by (rule applied_agree)
  moreover have "applied (nodes d i) = applied (nodes e k)" if "lastApplied (nodes d i) = lastApplied (nodes e k)"
    using pre that applied_length [OF n] applied_length [OF m] by (auto simp: prefix_def)
  ultimately show ?thesis using applied_length [OF n] applied_machine [OF n] applied_machine [OF m] by auto
qed

theorem state_machine_safety_witness:
  "\<exists>d. reachable {''1''} Engine_New True True demo_cluster d \<and> length (applied (nodes d ''1'')) = 1 \<and>
     machine (nodes d ''1'') = foldl Engine_Apply Engine_New (applied (nodes d ''1''))"
proof -
  obtain d where d: "reachable {''1''} Engine_New True True demo_cluster d" "lastApplied (nodes d ''1'') = 1"
    using demo_applied by blast
  with state_machine_safety [OF demo_fresh d(1) reachable.start, of "''1''" "''1''"] show ?thesis by auto
qed



text \<open>
  C4: Log Matching, in the life of an orderly cluster: two members whose logs have an entry of the same
  term at the same place have equal logs up to it.
\<close>

theorem cluster_logs_match:
  assumes "fresh M m0 app c" and "reachable M m0 True True c d" and "i \<in> M" and "k \<in> M"
    and "x < length (entries (nlog (nodes d i)))" and "x < length (entries (nlog (nodes d k)))"
    and "Term (entries (nlog (nodes d i)) ! x) = Term (entries (nlog (nodes d k)) ! x)"
  shows "take (Suc x) (entries (nlog (nodes d i))) = take (Suc x) (entries (nlog (nodes d k)))"
proof -
  obtain h where "safe_inv M m0 app d h" using fresh_reachable [OF assms(1,2)] .
  from logs_match [OF this assms(3,4)] assms(5-7) show ?thesis by (simp add: matching_def)
qed

theorem cluster_logs_match_witness:
  "\<exists>d. reachable {''1'', ''2'', ''3''} Engine_New True True demo_trio d \<and>
     take 1 (entries (nlog (nodes d ''1''))) = take 1 (entries (nlog (nodes d ''2'')))"
proof -
  have r: "reachable {''1'', ''2'', ''3''} Engine_New True True demo_trio demo_trio" by (rule reachable.start)
  have "take (Suc 0) (entries (nlog (nodes demo_trio ''1''))) = take (Suc 0) (entries (nlog (nodes demo_trio ''2'')))"
    by (rule cluster_logs_match [OF demo_trio_fresh r]) (simp_all add: demo_trio_logs)
  with r show ?thesis by auto
qed



text \<open>
  C6: A vote that was reported is never taken back: after a power cut at any later moment and
  a restart, the node's term is at least the vote's, and in that very term it still has
  the same candidate, in memory and on every disk state a further power cut may leave.
\<close>

theorem vote_survives_restart:
  assumes "HandleRequestVote n req now = (Inr resp, n1)" and "VoteGranted resp" and "nstate n \<noteq> None"
    and "valid_utf8 (CandidateID req)" and "restarts m0 n1 n2"
  shows "honours n2 (vq_Term req) (CandidateID req)"
proof (rule honours_restart [OF assms(5)])
  show "honours n1 (vq_Term req) (CandidateID req)"
    using HandleRequestVote_votes [OF assms(1,3)] assms(2,4) honours_new by blast
qed

theorem vote_survives_restart_witness: "\<exists>n2. honours (n2 :: Engine Node) 7 ''2''"
proof -
  obtain n1 n2 where a: "HandleRequestVote demo_voter demo_vote 0 = (Inr \<lparr>vr_Term = 7, VoteGranted = True\<rparr>, n1)"
      "restarts Engine_New n1 n2"
    using demo_vote_restart by blast
  have "honours n2 (vq_Term demo_vote) (CandidateID demo_vote)"
    by (rule vote_survives_restart [OF a(1) _ _ _ a(2)]) (simp_all add: demo_node_def demo_vote_def valid_utf8_Nil)
  then show ?thesis by (auto simp: demo_vote_def)
qed

subsection \<open>Replication and commitment\<close>

text \<open>
  Advancing the commit index never lowers it, and moves it only on a leader, to an entry
  of the leader's own term that a majority of the cluster is recorded to hold.
\<close>

theorem commit_needs_majority:
  "commitIndex n \<le> commitIndex (advanceCommit n) \<and>
   (commitIndex (advanceCommit n) = commitIndex n \<or>
    role n = Leader \<and> committable n (commitIndex (advanceCommit n)))"
  using advanceCommit_sound [of n] by blast

text \<open>
  C7: A follower that says yes to a leader's message. If its log agreed with the leader's up to
  an index \<open>c\<close> that covers what it has committed and applied, then afterwards its
  commit index is within its log, its log is the leader's up to there, all of that is applied,
  and its state machine is the leader's log replayed to that point.
\<close>

theorem follower_follows_leader:
  assumes "HandleAppendEntries n req now = (Inr resp, n')" and "Success resp"
    and "message_from lead req" and "matching lead (entries (nlog n))" and "applied_ok m0 n"
    and "take (Suc (unat c)) (entries (nlog n)) = take (Suc (unat c)) lead"
    and "commitIndex n \<le> c" and "lastApplied n \<le> c" and "unat c < length lead"
    and "unat c < length (entries (nlog n))"
  shows "log_wf (nlog n') \<and> unat (commitIndex n') \<le> Log_Len (nlog n') \<and>
    take (Suc (unat (commitIndex n'))) (entries (nlog n')) = take (Suc (unat (commitIndex n'))) lead \<and>
    lastApplied n' = max (lastApplied n) (commitIndex n') \<and>
    machine n' = foldl (apply_fn n) m0 (take (unat (lastApplied n')) (tl lead))"
  using assms by (rule HandleAppendEntries_follows)

theorem follower_follows_leader_witness:
  "\<exists>resp n'. HandleAppendEntries demo_follower demo_request 0 = (Inr resp, n') \<and>
     take (Suc (unat (commitIndex n'))) (entries (nlog n')) = take (Suc (unat (commitIndex n'))) demo_lead \<and>
     machine n' = foldl Engine_Apply Engine_New (take (unat (lastApplied n')) (tl demo_lead))"
proof -
  obtain resp n' where run: "HandleAppendEntries demo_follower demo_request 0 = (Inr resp, n')" "Success resp"
    using demo_append by blast
  have "matching demo_lead (entries (nlog demo_follower))"
    and "take (Suc (unat (0 :: u64))) (entries (nlog demo_follower)) = take (Suc (unat (0 :: u64))) demo_lead"
    and "commitIndex demo_follower \<le> 0" "lastApplied demo_follower \<le> 0"
    and "unat (0 :: u64) < length demo_lead" "unat (0 :: u64) < length (entries (nlog demo_follower))"
    and "apply_fn demo_follower = Engine_Apply"
    using demo_matching_log
    by (simp_all add: demo_follower_def demo_node_def demo_lead_def NewLog_def)
  with follower_follows_leader [OF run demo_message _ demo_follower_applied, of 0] run show ?thesis by auto
qed

text \<open>
  C8: \<^verbatim>\<open>AppendAfter\<close> with a message cut from the leader's log, on a log that
  agrees with the leader's wherever the terms do: the log stays well formed, on success it is the leader's
  up to the last entry sent, and it goes on agreeing with every log both agreed with (Log Matching), on
  failure as well.
\<close>

theorem append_agrees_with_leader:
  assumes "log_wf l" and "AppendAfter l p t new = (res, l')" and "indexed lead" and "unat p < length lead"
    and "t = Term (lead ! unat p)" and "new = take n (drop (unat p + 1) lead)" and "matching lead (entries l)"
  shows "log_wf l' \<and>
    (res = Inr True \<longrightarrow> take (unat p + 1 + length new) (entries l') = take (unat p + 1 + length new) lead) \<and>
    (\<forall>g. matching g lead \<and> matching g (entries l) \<longrightarrow> matching g (entries l'))"
  using assms by (rule AppendAfter_from_leader)

theorem append_agrees_with_leader_witness:
  "\<exists>l'. AppendAfter NewLog 0 0 [demo_entry] = (Inr True, l') \<and> take 2 (entries l') = demo_lead"
proof -
  obtain l' where l': "AppendAfter NewLog 0 0 [demo_entry] = (Inr True, l')"
    using AppendAfter_healthy [OF healthy_NewLog, of 0 "[demo_entry]" 0] demo_numbered demo_Match
    by (auto simp: slice_max_def)
  have "take (unat (0 :: u64) + 1 + length [demo_entry]) (entries l') =
      take (unat (0 :: u64) + 1 + length [demo_entry]) demo_lead"
    by (rule append_agrees_with_leader [OF log_wf_NewLog l' demo_lead_indexed _ _ _ demo_matching_log,
          of 1, THEN conjunct2, THEN conjunct1, rule_format])
       (simp_all add: demo_lead_def sentinel_def zero_record_def)
  with l' show ?thesis by (auto simp: demo_lead_def numeral_2_eq_2)
qed



subsection \<open>Stable storage\<close>









subsection \<open>Clients\<close>

text \<open>
  C14: A strong read (\<^verbatim>\<open>?consistency=\<close> strong or absent) either fails with 503,
  when its barrier failed, or answers from the state machine of a node that has applied everything up to
  an index its \<^verbatim>\<open>ReadIndex\<close> returned: never from one whose barrier failed.
\<close>

theorem strong_read_behind_barrier:
  assumes "handleGet env confirm wakes query key n u = (rep, n', u')" and "query = [] \<or> query = ''strong''"
    and "keeps_applied env"
  shows "(case LinearizableRead env confirm wakes n u of
      (Some e, _) \<Rightarrow> Status rep = 503
    | (None, _) \<Rightarrow> rep = read_local ''strong'' key n' \<and>
        (\<exists>i n1 u1. ReadIndex env confirm n u = (Inr i, n1, u1) \<and> i \<le> lastApplied n'))"
  using assms by (rule handleGet_strong)

theorem strong_read_behind_barrier_witness:
  "\<exists>rep n'. handleGet demo_env (confirmRound demo_env []) 0 [] ''k'' demo_single () = (rep, n', ()) \<and>
     rep = read_local ''strong'' ''k'' n'"
proof -
  obtain rep n' where run: "handleGet demo_env (confirmRound demo_env []) 0 [] ''k'' demo_single () = (rep, n', ())"
    by (metis prod_cases3 old.unit.exhaust)
  from strong_read_behind_barrier [OF run _ demo_env_quiet(2)] run show ?thesis by (auto simp: demo_read)
qed

text \<open>
  C15: Read your write, end to end on a cluster of one whose disk works: a PUT of a value within the
  limit is answered with 204, and the strong GET of its key that follows with 200 and that
  very value, whatever was in the log before.
\<close>

theorem put_then_get_returns_it:
  assumes "quiet_env env" and "alone Engine_New n" and "apply_fn n = Engine_Apply" and "length body \<le> maxValueBytes"
    and "noReadBatching n \<or> batched = (\<lambda>n u. case confirmRound env qs n u of (r, n, u) \<Rightarrow> (Some r, n, u))"
    and "handlePut env ps key body False n u = (rep, n1, u1)"
    and "handleGet env (ConfirmLeadership env qs batched) wakes [] key n1 u1 = (rep2, n2, u2)"
  shows "Status rep = 204 \<and> Status rep2 = 200 \<and> Content rep2 = body"
  using assms by (rule put_then_get)

theorem put_then_get_returns_it_witness:
  "\<exists>rep n1 rep2 n2. handlePut demo_env [] ''k'' ''v'' False demo_single () = (rep, n1, ()) \<and>
     handleGet demo_env (ConfirmLeadership demo_env [] (demo_batched [])) 0 [] ''k'' n1 () = (rep2, n2, ()) \<and>
     Status rep = 204 \<and> Status rep2 = 200 \<and> Content rep2 = ''v''"
proof -
  obtain rep n1 u1 where p: "handlePut demo_env [] ''k'' ''v'' False demo_single () = (rep, n1, u1)"
    by (metis prod_cases3)
  obtain rep2 n2 u2 where
    g: "handleGet demo_env (ConfirmLeadership demo_env [] (demo_batched [])) 0 [] ''k'' n1 u1 = (rep2, n2, u2)"
    by (metis prod_cases3)
  have ap: "apply_fn demo_single = Engine_Apply" and len: "length ''v'' \<le> maxValueBytes"
    by (simp_all add: demo_single_def demo_node_def maxValueBytes_def)
  have b: "noReadBatching demo_single \<or>
      demo_batched [] = (\<lambda>n u. case confirmRound demo_env [] n u of (r, n, u) \<Rightarrow> (Some r, n, u))"
    by (simp add: demo_batched_def fun_eq_iff)
  note res = put_then_get_returns_it [OF demo_env_quiet(1) demo_single_alone ap len b p g]
  have "u1 = ()" "u2 = ()" by simp_all
  with p g res show ?thesis by blast
qed

text \<open>
  C16: Sharing confirmations does not make reads stale: the index a reader's batch was closed
  with was read from the node after that reader had asked.
\<close>

theorem confirmed_index_is_fresh:
  assumes "at_rest c" and "bruns c d" and "(reader, b, t) \<in> waiting d" and "closed d b = Some (Inr i)"
  shows "\<exists>t'. captured d b = Some (t', i) \<and> t \<le> t'"
  using fresh_index [OF batch_inv_bruns [OF assms(2,1)] assms(3,4)] .

theorem confirmed_index_is_fresh_witness:
  "\<exists>d t'. bruns demo_confirming d \<and> closed d 0 = Some (Inr 0) \<and> captured d 0 = Some (t', 0)"
proof -
  obtain d where d: "bruns demo_confirming d" "(0, 0, 0) \<in> waiting d" "closed d 0 = Some (Inr 0)"
    using demo_batch by blast
  from confirmed_index_is_fresh [OF demo_at_rest d] d show ?thesis by blast
qed

text \<open>
  C17: What a confirmed index is worth, in an orderly cluster. A leader looks at its commit index when this is an
  entry of its own term, and after that a majority (itself included) says yes to messages of this term. Then the
  index covers all that any member had committed by then, and a member that
  \<^verbatim>\<open>WaitForApplied\<close> lets pass at this index, now or later, has applied all that any member
  had applied. The two conditions are not the code's: \<open>strong_read_before_noop_misses_writes\<close> and
  \<open>confirmation_spans_terms\<close> show what it does without.
\<close>

theorem confirmed_read_is_fresh:
  assumes "fresh M m0 app c" and "reachable M m0 True True c b" and "reachable M m0 True True b d"
    and "reachable M m0 True True d e" and "i \<in> M" and "role (nodes d i) = Leader"
    and "Term (entries (nlog (nodes d i)) ! unat (commitIndex (nodes d i))) = currentTerm (nodes d i)"
    and "Q \<subseteq> M" and "card M < 2 * card Q"
    and "\<forall>v \<in> Q - {i}. \<exists>a req resp n now. reachable M m0 True True d a \<and> aq_Term req = currentTerm (nodes d i) \<and>
      handleAppendEntries (nodes a v) req now = (Inr resp, n) \<and> Success resp"
    and "k \<in> M" and "m \<in> M" and "wait_pass (nodes e m) (commitIndex (nodes d i)) = None"
  shows "commitIndex (nodes b k) \<le> commitIndex (nodes d i) \<and> prefix (applied (nodes b k)) (applied (nodes e m))"
proof -
  have "\<exists>a. reachable M m0 True True d a \<and> currentTerm (nodes a v) \<le> currentTerm (nodes d i)" if "v \<in> Q" for v
  proof (cases "v = i")
    case True
    then show ?thesis using reachable.start [of M m0 True True d] by blast
  next
    case False
    with assms(10) that obtain a req resp n now where "reachable M m0 True True d a" "Success resp"
        "aq_Term req = currentTerm (nodes d i)" "handleAppendEntries (nodes a v) req now = (Inr resp, n)"
      by blast
    then show ?thesis using yes_in_term by fastforce
  qed
  note bound = read_index_bound [OF assms(1-3,5-9) this assms(11)]
  have "commitIndex (nodes d i) \<le> lastApplied (nodes e m)" using assms(13) by (simp add: wait_pass_def split: if_splits)
  with bound read_sees_applied [OF assms(1,2) reachable_trans [OF assms(3,4)] assms(11,12)] show ?thesis by blast
qed

theorem confirmed_read_is_fresh_witness:
  "\<exists>d. reachable {''1''} Engine_New True True demo_cluster d \<and> commitIndex (nodes d ''1'') = 1 \<and>
     prefix (applied (nodes demo_cluster ''1'')) (applied (nodes d ''1''))"
proof -
  obtain d where d: "reachable {''1''} Engine_New True True demo_cluster d" "role (nodes d ''1'') = Leader"
      "commitIndex (nodes d ''1'') = 1" "lastApplied (nodes d ''1'') = 1" "currentTerm (nodes d ''1'') = 1"
      "entries (nlog (nodes d ''1'')) = [sentinel, zero_record\<lparr>Term := 1, Index := 1\<rparr>]"
    using demo_applied by blast
  have "prefix (applied (nodes demo_cluster ''1'')) (applied (nodes d ''1''))"
    by (rule conjunct2 [OF confirmed_read_is_fresh [OF demo_fresh reachable.start d(1) reachable.start _ d(2), of "{''1''}"]])
       (use d in \<open>simp_all add: wait_pass_def\<close>)
  with d show ?thesis by blast
qed

text \<open>
  C18: No reader waits for ever on the goroutine: whatever else happens in between, after seven of
  its steps the batch of any waiting reader is closed; and on a leader there are runs with
  seven of its steps.
\<close>

theorem every_reader_is_answered:
  assumes "at_rest c" and "bruns c d" and "(reader, b, t) \<in> waiting d"
  shows "(round_runs d 7 e \<longrightarrow> closed e b \<noteq> None) \<and> (role (node d) = Leader \<longrightarrow> (\<exists>e. round_runs d 7 e))"
proof -
  have inv: "batch_inv d" using assms(2,1) by (rule batch_inv_bruns)
  show ?thesis
    using every_batch_closes [OF _ inv nobody_stranded [OF inv assms(3)]] round_runs_exist [OF _ inv, of 7] by blast
qed

theorem every_reader_is_answered_witness:
  "\<exists>c e. bruns demo_confirming c \<and> (0, 0, 0) \<in> waiting c \<and> round_runs c 7 e \<and> closed e 0 \<noteq> None"
proof -
  obtain c where c: "bruns demo_confirming c" "(0, 0, 0) \<in> waiting c" "role (node c) = Leader"
    using demo_batch by blast
  from every_reader_is_answered [OF demo_at_rest c(1,2)] c show ?thesis by metis
qed

text \<open>
  C19: Repairing a log file of any content. \<^verbatim>\<open>ReadAll\<close> never fails on bytes alone;
  cutting the file at the \<^verbatim>\<open>ValidBytes\<close> it reports and reading again returns the
  same records at the same offsets with a clean end, so recovery is idempotent.
\<close>

theorem log_repair_is_idempotent:
  "case ReadAll (Bytes bs False) of (res, err) \<Rightarrow>
     err = None \<and> ValidBytes res \<le> length bs \<and>
     ReadAll (Bytes (take (ValidBytes res) bs) False) = (res\<lparr>Truncated := False\<rparr>, None)"
  using ReadAll_repair by (auto split: prod.split)

subsection \<open>Messages\<close>

text \<open>
  C20: \<^verbatim>\<open>AppendEntries\<close> over HTTP, client, JSON and
  \<^verbatim>\<open>PeerHandler\<close> together, is the peer's handler run on the message as JSON leaves
  it, its error status 500, as long as the body is within 8 MiB; over that it is status 400 and the peer
  is as it was.
\<close>

theorem append_over_http_is_a_call:
  "HTTP_AppendEntries (loopback sv (peer_Addr p)) p req (n, u) =
     (if length (render_obj (append_request_fields req)) \<le> 8388608
      then case HandleAppendEntries n (sanitize_append_request req) (s_now sv) of
             (Inl _, n') \<Rightarrow> (Inl (ErrPeerStatus (peer_ID p) 500), (n', u))
           | (Inr resp, n') \<Rightarrow> (Inr resp, (n', u))
      else (Inl (ErrPeerStatus (peer_ID p) 400), (n, u)))"
  by (rule append_over_http)

text \<open>
  C21: The JSON of an append request, read from a body limited to any number of bytes: the whole
  message with its strings sanitized if it fits, and an error, never another message, if
  the limit cuts it anywhere.
\<close>

theorem append_request_roundtrip:
  "decode_limited limit append_request_names set_append_request zero_append_request
     (render_obj (append_request_fields req)) =
   (if length (render_obj (append_request_fields req)) \<le> limit then Some (sanitize_append_request req) else None)"
  by (rule append_request.decode_limit)

subsection \<open>The state machine\<close>

text \<open>
  C22: What a replica answers after applying a log from the start is what the last entry
  that set or deleted the key says, whatever the log.
\<close>

theorem replay_answers_last_write:
  "Engine_Get (replay rs) k = last_write rs k"
  by (rule replay_get)

text \<open>
  C23: Applying what is committed: the entries after the last applied one, up to the commit
  index or the end of the log, each once and in order, and the counters with them.
\<close>

theorem apply_in_order:
  assumes "log_wf (nlog n)"
  shows "applyCommitted n = n\<lparr>
    machine := foldl (apply_fn n) (machine n) (window (nlog n) (unat (lastApplied n)) (apply_limit n)),
    lastApplied := of_nat (apply_limit n),
    applyWait := applyWait n + (apply_limit n - unat (lastApplied n))\<rparr>"
  using assms by (rule applyCommitted_spec)

theorem apply_in_order_witness:
  "machine (applyCommitted (demo_leader\<lparr>commitIndex := 1\<rparr>)) = foldl Engine_Apply Engine_New [demo_entry]"
proof -
  have "log_wf (nlog (demo_leader\<lparr>commitIndex := 1\<rparr>))"
    using demo_log_wf by (simp add: demo_leader_def demo_node_def)
  from apply_in_order [OF this] show ?thesis
    by (simp add: demo_leader_def demo_node_def apply_limit_def window_def demo_log_def demo_lead_def Log_Len_def)
qed

text \<open>
  C24: \<^verbatim>\<open>advanceCommit\<close> misses nothing: on a leader whose log is sorted by term,
  the commit index ends at the highest entry of its term that a majority is recorded to hold.
\<close>

theorem advance_commit_highest:
  assumes "log_wf (nlog n)" and "terms_sorted n" and "role n = Leader" and "committable n N"
  shows "committable n (commitIndex (advanceCommit n)) \<and> N \<le> commitIndex (advanceCommit n)"
  using assms by (rule advanceCommit_highest)

theorem advance_commit_highest_witness:
  "1 \<le> commitIndex (advanceCommit (demo_leader\<lparr>matchIndex := (\<lambda>_. Some 1)\<rparr>))"
proof -
  let ?n = "demo_leader\<lparr>matchIndex := (\<lambda>_. Some 1)\<rparr>"
  have a: "log_wf (nlog ?n)" "terms_sorted ?n" "role ?n = Leader"
    using demo_log_wf
    by (simp_all add: demo_leader_def demo_node_def terms_sorted_def demo_log_def demo_lead_def demo_entry_def
        sentinel_def zero_record_def)
  have "committable ?n 1"
    using demo_log_wf
    by (simp add: committable_def demo_leader_def demo_node_def At_wf)
       (simp add: demo_log_def demo_lead_def demo_entry_def replicas_def demo_config_def at0_def Majority_def ClusterSize_def)
  from advance_commit_highest [OF a this] show ?thesis by blast
qed

subsection \<open>Starting a node\<close>

text \<open>
  A node \<^verbatim>\<open>kvnode\<close> has started has a valid configuration, is a follower, has the log and
  the term and vote of its disk, and an empty state machine with nothing committed or applied:
  it knows nothing it could answer from before a leader has told it what is committed.
\<close>

theorem started_node_knows_only_its_disk:
  "case kvnode_main fl present logfile store t0 t1 of
     Inl _ \<Rightarrow> True
   | Inr n \<Rightarrow> Validate (cfg n) = None \<and> role n = Follower \<and> machine n = Engine_New \<and> apply_fn n = Engine_Apply \<and>
       commitIndex n = 0 \<and> lastApplied n = 0 \<and> OpenLog present logfile = Inr (nlog n) \<and>
       (\<exists>store'. OpenStateStore store = Inr (store', pair_of n))"
  using kvnode_main_node [of fl present logfile store t0 t1] by (simp split: sum.split)

text \<open>
  C25: Running \<^verbatim>\<open>kvnode\<close> again after a crash is the restart step of the cluster
  model, with the election timer set anew: what the cluster theorems say of restarts is about this
  program.
\<close>

theorem kvnode_refines_restart:
  assumes "kvnode_main fl True logfile store t0 t1 = Inr n'" and "nstate n = Some s" and "crash_dir s store"
    and "w (nlog n) = Some wl" and "crash_content (f wl) (cached logfile)" and "cfg n' = cfg n"
    and "apply_fn n = Engine_Apply"
  shows "\<exists>n0. restarts Engine_New n n0 \<and> n' = Start n0 t1"
  using assms by (rule kvnode_main_restarts)

theorem kvnode_refines_restart_witness:
  "\<exists>n' n0. kvnode_main demo_flags True (reopen (wal_fresh [])) (new_dir []) 0 0 = Inr n' \<and>
     restarts Engine_New (demo_node (node_config demo_flags []) demo_disk_log (Some (new_dir []))) n0 \<and>
     n' = Start n0 0"
proof -
  let ?n = "demo_node (node_config demo_flags []) demo_disk_log (Some (new_dir []))"
  obtain n' where n': "kvnode_main demo_flags True (reopen (wal_fresh [])) (new_dir []) 0 0 = Inr n'"
      "cfg n' = node_config demo_flags []"
    using demo_starts by blast
  have "crash_dir (new_dir []) (new_dir [])" by (simp add: crash_dir_def new_dir_def crash_entry_def)
  moreover have "nstate ?n = Some (new_dir [])" "w (nlog ?n) = Some (wal_fresh [])" "cfg n' = cfg ?n"
      "apply_fn ?n = Engine_Apply" "crash_content (f (wal_fresh [])) (cached (reopen (wal_fresh [])))"
    using n'(2) by (simp_all add: demo_node_def demo_disk_log_def crash_content_def reopen_def)
  ultimately show ?thesis using kvnode_refines_restart [OF n'(1), of ?n "new_dir []" "wal_fresh []"] n'(1) by blast
qed

subsection \<open>Clusters and their configuration\<close>

text \<open>
  C26: Exactly the configurations \<^verbatim>\<open>Validate\<close> accepts: every name and address
  given, no ID twice, the node's own included, and an odd number of nodes.
\<close>

theorem valid_configurations:
  "Validate c = None \<longleftrightarrow>
     cfg_ID c \<noteq> [] \<and> cfg_Addr c \<noteq> [] \<and> list_all (\<lambda>p. peer_ID p \<noteq> [] \<and> peer_Addr p \<noteq> []) (cfg_Peers c) \<and>
     distinct (cfg_ID c # map peer_ID (cfg_Peers c)) \<and> odd (ClusterSize c)"
  using Validate_iff [of c] by (simp add: list_all_iff)

text \<open>
  The peer flag. Peers whose fields are printable, without a comma, and without an equals
  sign in the ID, are read back from the text they are written as, sorted by ID.
\<close>

theorem peer_flag_roundtrip:
  assumes "list_all peer_ok ps"
  shows "ParsePeers (render_peers ps) = Inr (sort_key peer_ID ps)"
  using assms by (intro ParsePeers_render) (simp add: list_all_iff)

theorem peer_flag_roundtrip_witness: "ParsePeers ''2=b'' = Inr [demo_peer]"
proof -
  have "list_all peer_ok [demo_peer]" by (simp add: peer_ok_def graphic_def demo_peer_def)
  from peer_flag_roundtrip [OF this] show ?thesis by (simp add: render_peer_def demo_peer_def)
qed

text \<open>
  Of a valid cluster of \<open>2 f + 1\<close> nodes, the nodes that are up are a majority exactly when at most
  \<open>f\<close> are down.
\<close>

theorem majority_tolerates_f:
  assumes "Validate c = None" and "down \<subseteq> members c"
  shows "Majority c \<le> card (members c - down) \<longleftrightarrow> card down \<le> (ClusterSize c - 1) div 2"
  using assms by (rule majority_tolerates)

theorem majority_tolerates_f_witness: "Majority demo_three \<le> card (members demo_three - {''2''})"
proof -
  have "{''2''} \<subseteq> members demo_three" by (simp add: members_def demo_config_def)
  from majority_tolerates_f [OF demo_three_ok this] show ?thesis
    by (simp add: ClusterSize_def demo_config_def)
qed

subsection \<open>Components\<close>

text \<open>
  At most one goroutine confirms leadership at a time, and the flag
  \<^verbatim>\<open>confirmRunning\<close> says whether there is one.
\<close>

theorem one_confirmation_at_a_time:
  assumes "at_rest c" and "bruns c d"
  shows "length (rounds d) \<le> 1 \<and> confirmRunning (node d) = (rounds d \<noteq> [])"
  using assms by (intro one_round batch_inv_bruns)

theorem one_confirmation_at_a_time_witness:
  "length (rounds demo_confirming) \<le> 1 \<and> \<not> confirmRunning (node demo_confirming)"
  using one_confirmation_at_a_time [OF demo_at_rest bstart] by (simp add: demo_confirming_def)

text \<open>
  C27: Damage to one byte of a payload is always found: decoding the payload with that byte
  changed, against the checksum of the original, is \<^verbatim>\<open>ErrCorrupt\<close>.
\<close>

theorem damaged_byte_is_found:
  assumes "i < length payload" and "b \<noteq> payload ! i"
  shows "decodePayload (payload[i := b]) (crc32 payload) = Inl ErrCorrupt"
  using assms by (intro decodePayload_damaged)

theorem damaged_byte_is_found_witness: "decodePayload ''x'' (crc32 ''y'') = Inl ErrCorrupt"
  using damaged_byte_is_found [of 0 "''y''" "CHR ''x''"] by simp

text \<open>
  Records written are records read: from the frames of a list of records that fit,
  \<^verbatim>\<open>ReadAll\<close> returns them in order, their strings as JSON leaves them, with a
  clean end after the last.
\<close>

theorem frames_read_back:
  assumes "list_all fits rs"
  shows "case ReadAll (Bytes (frames rs) False) of (res, err) \<Rightarrow>
    err = None \<and> Records res = map sanitize_record rs \<and> Offsets res = offsets_from 0 rs \<and>
    ValidBytes res = length (frames rs) \<and> \<not> Truncated res"
  using assms by (simp add: ReadAll_frames list_all_iff log_result_def frames_len_def)

theorem frames_read_back_witness:
  "Records (fst (ReadAll (Bytes (frames [demo_entry]) False))) = [demo_entry]"
  using frames_read_back [of "[demo_entry]"] fits_demo by (simp add: sanitize_record_valid split: prod.splits)




text \<open>
  A write is acknowledged with 204 exactly when the proposal, here or forwarded, succeeded, and with
  503 otherwise; a body over the limit is answered 413 and proposed to nobody.
\<close>

theorem put_status:
  "Status (fst (handlePut env ps key body False n u)) =
     (if maxValueBytes < length body then 413
      else if fst (ProposeOrForward env ps (zero_record\<lparr>Op := OpSet, Key := key, Value := body\<rparr>) n u) = None then 204
      else 503) \<and>
   snd (handlePut env ps key body False n u) =
     (if maxValueBytes < length body then (n, u)
      else snd (propose env ps (zero_record\<lparr>Op := OpSet, Key := key, Value := body\<rparr>) n u))"
  by (simp add: handlePut_def propose_status) (simp add: http_text_def)

text \<open>
  Two logs lead replicas to the same state machine exactly when every key's last write is the
  same in both; what else they hold does not matter.
\<close>

theorem replicas_agree:
  "replay rs = replay ss \<longleftrightarrow> last_write rs = last_write ss"
  by (rule replay_eq_iff)

text \<open>
  Nothing a node hears from a peer, request or reply, raises its role in the order follower, candidate,
  leader: it becomes a candidate by its own timer and a leader by its own count of votes.
\<close>

theorem messages_never_promote:
  "role (snd (HandleAppendEntries n aq now)) \<le> role n \<and> role (snd (HandleRequestVote n vq now)) \<le> role n \<and>
   role (snd (vote_reply n vr)) \<le> role n \<and> role (snd (replicate_reply n p aq ar)) \<le> role n \<and>
   role (probe_set n ar) \<le> role n \<and> role (snd (read_term n rr)) \<le> role n"
  by (intro conjI HandleAppendEntries_role HandleRequestVote_role replies_role)

text \<open>
  C30: A vote is reported only to a candidate whose log is up to date, in the voter's own term after
  the call, which is never less than before it, with the vote for that candidate recorded.
\<close>

theorem vote_needs_current_log:
  assumes "HandleRequestVote n req now = (Inr resp, n')" and "VoteGranted resp"
  shows "logUpToDateLocked n (vq_LastLogIndex req) (vq_LastLogTerm req) \<and>
    votedFor n' = CandidateID req \<and> currentTerm n' = vq_Term req \<and> vr_Term resp = vq_Term req \<and>
    currentTerm n \<le> currentTerm n'"
  using assms(1)
proof (cases rule: HandleRequestVote_cases)
  case (granted m k)
  with persistLocked_sel [OF granted(6)] votes_nothing_term [OF granted(2)] show ?thesis by auto
qed (use assms(2) in auto)

theorem vote_needs_current_log_witness:
  "\<exists>n'. HandleRequestVote demo_voter demo_vote 0 = (Inr \<lparr>vr_Term = 7, VoteGranted = True\<rparr>, n') \<and>
     votedFor n' = ''2'' \<and> currentTerm n' = 7"
proof -
  obtain n' where n': "HandleRequestVote demo_voter demo_vote 0 = (Inr \<lparr>vr_Term = 7, VoteGranted = True\<rparr>, n')"
    using demo_vote_restart by blast
  from vote_needs_current_log [OF n'] n' show ?thesis by (simp add: demo_vote_def)
qed

subsection \<open>The load generator\<close>

text \<open>
  C31: The report of a throughput run: \<^verbatim>\<open>p50 <= p99 <= max\<close>, the maximum is that
  of all latencies and the other two are latencies that were measured (the percentiles' index, computed in
  floating point, is always in range), all rounded to microseconds; and the order in which the clients
  hand in their latencies does not matter.
\<close>

theorem report_is_sound:
  assumes "report fl elapsed lat errs = Report nm rate a b m k e" and "list_all (\<lambda>x. 0 \<le> x) lat"
  shows "a \<le> b \<and> b \<le> m \<and> m = duration_round (Max (set lat)) microsecond \<and> k = length lat \<and> e = errs \<and>
    a \<in> (\<lambda>x. duration_round x microsecond) ` set lat \<and> b \<in> (\<lambda>x. duration_round x microsecond) ` set lat \<and>
    (mset lat' = mset lat \<longrightarrow> report fl elapsed lat' errs = report fl elapsed lat errs)"
  using report_ordered [OF assms(1)] report_any_order [of lat' lat fl elapsed errs] assms(2) by (auto simp: list_all_iff)

theorem report_is_sound_witness:
  "\<exists>nm rate a b k e. report (\<lparr>lg_addr = [], lg_follower = [], lg_workers = 1, lg_duration = 1, lg_mode = ''write'',
      lg_consistency = [], lg_samples = 0, lg_label = [], lg_jitter = 1\<rparr>) 1000 [3000, 1000] 0 = Report nm rate a b 3000 k e \<and>
    a \<le> b \<and> b \<le> 3000"
proof -
  let ?fl = "\<lparr>lg_addr = [], lg_follower = [], lg_workers = 1, lg_duration = 1, lg_mode = ''write'',
      lg_consistency = [], lg_samples = 0, lg_label = [], lg_jitter = 1\<rparr>"
  obtain nm rate a b m k e where r: "report ?fl 1000 [3000, 1000] 0 = Report nm rate a b m k e"
    by (simp add: report_def Let_def)
  have "m = 3000" "a \<le> b" "b \<le> m"
    using report_is_sound [OF r] by (auto simp: duration_round_def microsecond_def)
  with r show ?thesis by blast
qed

text \<open>
  The timeline of an availability run has 50 characters, one per slice of the run: an underscore
  where some write failed, a hash where all that ended in the slice succeeded, a dot where none did.
\<close>

theorem timeline_marks:
  assumes "0 < whole" and "list_all (\<lambda>s. start \<le> s_at s) h"
  shows "\<exists>t. timeline h start whole = Some t \<and> length t = 50 \<and> (\<forall>i < 50. t ! i =
    (if list_ex (\<lambda>s. bucket_of start whole s = int i \<and> \<not> s_ok s) h then CHR ''_''
     else if list_ex (\<lambda>s. bucket_of start whole s = int i) h then CHR ''#'' else CHR ''.''))"
  using timeline_spec [OF assms [unfolded list_all_iff]] unfolding list_ex_iff .

theorem timeline_marks_witness:
  "\<exists>t. timeline [\<lparr>s_at = 7, s_ok = True\<rparr>, \<lparr>s_at = 106, s_ok = False\<rparr>] 7 100 = Some t \<and> length t = 50 \<and>
     t ! 0 = CHR ''#'' \<and> t ! 1 = CHR ''.'' \<and> t ! 49 = CHR ''_''"
proof -
  have b: "bucket_of 7 100 \<lparr>s_at = 7, s_ok = True\<rparr> = 0" "bucket_of 7 100 \<lparr>s_at = 106, s_ok = False\<rparr> = 49"
    by (simp add: bucket_of_def float64_def float_mul_def float_div_def trunc_def) code_simp
  obtain t where t: "timeline [\<lparr>s_at = 7, s_ok = True\<rparr>, \<lparr>s_at = 106, s_ok = False\<rparr>] 7 100 = Some t" "length t = 50"
      and m: "\<forall>i < 50. t ! i =
        (if i = 49 then CHR ''_'' else if i = 0 \<or> i = 49 then CHR ''#'' else CHR ''.'')"
    using timeline_marks [of 100 7 "[\<lparr>s_at = 7, s_ok = True\<rparr>, \<lparr>s_at = 106, s_ok = False\<rparr>]"] by (auto simp: b)
  from m have "t ! 0 = CHR ''#''" "t ! 1 = CHR ''.''" "t ! 49 = CHR ''_''" by simp_all
  with t show ?thesis by blast
qed

subsection \<open>Where the code falls short\<close>

text \<open>
  C32: The commit index is not monotone. A message a follower accepts lowers it exactly when
  the message ends below what the follower has committed and the leader has committed more:
  the code sets it to the smaller of the two without comparing the result with what it had. The
  probe of a strong read is such a message: it sets the commit index of any follower that is behind
  the leader's to 0.
\<close>

theorem commit_index_can_fall:
  assumes "handleAppendEntries n req now = (Inr resp, n')" and "Success resp"
  shows "(commitIndex n' < commitIndex n \<longleftrightarrow> last_new req < commitIndex n \<and> commitIndex n < LeaderCommit req) \<and>
    (probe_request lead = Some req \<and> commitIndex n < commitIndex lead \<longrightarrow> commitIndex n' = 0)"
proof -
  have c: "commitIndex n' = new_commit (commitIndex n) req"
    using handleAppendEntries_commit [OF assms(1)] assms(2) by simp
  have "LeaderCommit req = commitIndex lead \<and> last_new req = 0" if "probe_request lead = Some req"
    using that by (auto simp: probe_request_def last_new_def split: if_splits)
  then have "commitIndex n' = 0" if "probe_request lead = Some req" and "commitIndex n < commitIndex lead"
    using that c by (simp add: new_commit_last_new)
  then show ?thesis using c new_commit_falls by simp
qed

theorem commit_index_can_fall_witness:
  "\<exists>resp n'. handleAppendEntries demo_committed demo_short 0 = (Inr resp, n') \<and>
     commitIndex demo_committed = 1 \<and> commitIndex n' = 0"
proof -
  obtain resp n' where run: "handleAppendEntries demo_committed demo_short 0 = (Inr resp, n')" "Success resp"
    using demo_falls by blast
  let ?lead = "(demo_node (demo_config ''2'' [''1'', ''3'']) demo_log None)\<lparr>currentTerm := 1, role := Leader, commitIndex := 2\<rparr>"
  have "probe_request ?lead = Some demo_short" "commitIndex demo_committed < commitIndex ?lead"
      "commitIndex demo_committed = 1"
    by (simp_all add: probe_request_def demo_short_def demo_committed_def demo_node_def demo_config_def)
  with commit_index_can_fall [OF run, of ?lead] run show ?thesis by blast
qed

text \<open>
  C33: A strong read right after a restart. A cluster of one whose node has just won its election, before
  the no-op of \<^verbatim>\<open>winElection\<close> is in, lets the read through with its commit index
  still 0 and answers 404 for every key, whatever its log holds: committed writes are missing.
\<close>

theorem strong_read_before_noop_misses_writes:
  assumes "NewNode opts st Engine_New now = Inr n0" and "cfg_Peers (o_Config opts) = []"
    and "campaign_start n0 t = (Inr req, n1)" and "promote n1 (vq_Term req) = (True, n2)" and "quiet_env env"
    and "noReadBatching n2 \<or> batched = (\<lambda>n u. case confirmRound env qs n u of (r, n, u) \<Rightarrow> (Some r, n, u))"
  shows "nlog n2 = o_Log opts \<and>
    handleGet env (ConfirmLeadership env qs batched) wakes [] key n2 u = (read_local ''strong'' key n2, n2, u) \<and>
    Status (read_local ''strong'' key n2) = 404"
  using assms by (rule strong_read_before_noop)

theorem strong_read_before_noop_misses_writes_witness:
  "\<exists>n2. entries (nlog n2) = demo_lead \<and>
     Status (fst (handleGet demo_env (ConfirmLeadership demo_env [] (demo_batched [])) 0 [] ''k'' n2 ())) = 404"
proof -
  let ?o = "\<lparr>o_Config = demo_config ''1'' [], o_Log = demo_log, o_State = None, o_Apply = Some Engine_Apply,
    o_DisableReadBatching = False, o_HeartbeatInterval = 0, o_ElectionTimeoutMin = 0, o_ElectionTimeoutMax = 0\<rparr>"
  have "Validate (demo_config ''1'' []) = None" by (simp add: demo_config_def Validate_iff ClusterSize_def)
  then obtain n0 where n0: "NewNode ?o zero_state Engine_New 0 = Inr n0" "nstate n0 = None" "currentTerm n0 = 0"
      "role n0 = Follower"
    by (simp add: NewNode_def Let_def orDefault_def defaultElectionTimeoutMin_def defaultElectionTimeoutMax_def
        zero_state_def)
  obtain req n1 where n1: "campaign_start n0 0 = (Inr req, n1)" "vq_Term req = 1" "role n1 = Candidate" "currentTerm n1 = 1"
    using n0 by (simp add: campaign_start_def persistLocked_def)
  obtain n2 where n2: "promote n1 (vq_Term req) = (True, n2)" using n1 by (simp add: promote_def)
  have b: "noReadBatching n2 \<or>
      demo_batched [] = (\<lambda>n u. case confirmRound demo_env [] n u of (r, n, u) \<Rightarrow> (Some r, n, u))"
    by (simp add: demo_batched_def fun_eq_iff)
  have solo: "cfg_Peers (o_Config ?o) = []" by (simp add: demo_config_def)
  from strong_read_before_noop_misses_writes [OF n0(1) solo n1(1) n2 demo_env_quiet(1) b, of 0 "''k''" "()"]
  show ?thesis by (intro exI [of _ n2]) (simp add: demo_log_def)
qed

text \<open>
  C34: A follower that is more than 8 MiB of JSON behind is never brought up to date: the leader puts all it
  misses in one message, the peer's handler caps the body, and any number of rounds changes
  nothing on either side.
\<close>

theorem far_follower_stuck:
  assumes "too_long n p"
  shows "round_all (http_env (loopback sv (peer_Addr p)) (\<lambda>n u. (n, u))) (replicate m p) n v = (n, v)"
  using assms by (rule rounds_too_long)

theorem far_follower_stuck_witness:
  "\<forall>m sv. round_all (http_env (loopback sv (peer_Addr demo_peer)) (\<lambda>n u. (n, u))) (replicate m demo_peer) demo_heavy
     (demo_follower, ()) = (demo_heavy, (demo_follower, ()))"
  using far_follower_stuck [OF demo_too_long] by blast



text \<open>
  C36: A late success from an earlier term of the same leader counts as a replica of what the log holds at
  that index now: in a cluster of three one such reply commits the leader's last entry, though
  no follower need hold it.
\<close>

theorem stale_reply_commits:
  assumes "role n = Leader" and "cfg_Peers (cfg n) = [p, q]" and "log_wf (nlog n)"
    and "At (nlog n) (LastIndex (nlog n)) = Some e" and "Term e = currentTerm n" and "aq_Term req < currentTerm n"
    and "last_new req = LastIndex (nlog n)" and "Success resp" and "ar_Term resp \<le> currentTerm n"
    and "commitIndex n < LastIndex (nlog n)"
  shows "commitIndex (advanceCommit (snd (replicate_reply n p req resp))) = LastIndex (nlog n)"
  using assms by (rule stale_reply)

theorem stale_reply_commits_witness:
  "commitIndex (advanceCommit (snd (replicate_reply demo_leader \<lparr>peer_ID = ''2'', peer_Addr = ''b''\<rparr>
     (demo_request\<lparr>aq_Term := 0\<rparr>) \<lparr>ar_Term = 0, Success = True, ar_LastLogIndex = 1\<rparr>))) = 1"
proof -
  have l: "LastIndex (nlog demo_leader) = 1"
    by (simp add: demo_leader_def demo_node_def LastIndex_def demo_log_def demo_lead_def demo_entry_def)
  have a: "At (nlog demo_leader) (LastIndex (nlog demo_leader)) = Some demo_entry"
    using demo_log_wf(1) unfolding l by (simp add: demo_leader_def demo_node_def At_wf) (simp add: demo_log_def demo_lead_def)
  have c: "role demo_leader = Leader" "log_wf (nlog demo_leader)" "Term demo_entry = currentTerm demo_leader"
      "cfg_Peers (cfg demo_leader) = [\<lparr>peer_ID = ''2'', peer_Addr = ''b''\<rparr>, \<lparr>peer_ID = ''3'', peer_Addr = ''b''\<rparr>]"
      "aq_Term (demo_request\<lparr>aq_Term := 0\<rparr>) < currentTerm demo_leader"
      "last_new (demo_request\<lparr>aq_Term := 0\<rparr>) = LastIndex (nlog demo_leader)"
      "commitIndex demo_leader < LastIndex (nlog demo_leader)"
    using demo_log_wf(1) unfolding l
    by (simp_all add: demo_leader_def demo_entry_def demo_node_def demo_config_def demo_request_def last_new_def)
  show ?thesis
    by (subst stale_reply_commits [OF c(1,4,2) a c(3,5,6) _ _ c(7)])
       (simp_all add: l)
qed

text \<open>
  C37: A confirmation round that spans terms. \<^verbatim>\<open>confirmRound\<close> captures the commit index, and
  every probe then takes whatever term the node has by then; at the end it only asks whether the node leads. If in
  between a later leader gives the node an entry (which with that leader makes two of three that hold it) and the
  node then wins an election itself, the round succeeds with the old index and a state machine without the entry,
  even if it was committed and acknowledged before the read came in.
\<close>

theorem confirmation_spans_terms:
  assumes "role n = Leader" and "nstate n = None" and "cfg_Peers (cfg n) = [p, q]" and "healthy (nlog n)"
    and "commitIndex n \<le> lastApplied n" and "currentTerm n < aq_Term req"
    and "PrevLogIndex req = LastIndex (nlog n)" and "PrevLogTerm req = LastTerm (nlog n)" and "Entries req = [e]"
    and "LeaderCommit req \<le> commitIndex n" and "Index e = of_nat (length (entries (nlog n)))"
    and "Suc (length (entries (nlog n))) < slice_max"
  shows "\<exists>resp n1 vq n2 m. HandleAppendEntries n req now = (Inr resp, n1) \<and> Success resp \<and>
    campaign_start n1 now' = (Inr vq, n2) \<and> promote n2 (vq_Term vq) = (True, m) \<and>
    entries (nlog m) = entries (nlog n) @ [e] \<and> machine m = machine n \<and>
    confirmRound (interrupted m) [p] n False = (Inr (commitIndex n), m, True) \<and> wait_pass m (commitIndex n) = None"
proof -
  obtain resp n1 vq n2 m where r: "HandleAppendEntries n req now = (Inr resp, n1)" "Success resp"
      "campaign_start n1 now' = (Inr vq, n2)" "promote n2 (vq_Term vq) = (True, m)"
      "entries (nlog m) = entries (nlog n) @ [e]" "machine m = machine n" "lastApplied m = lastApplied n"
      "confirmRound (interrupted m) [p] n False = (Inr (commitIndex n), m, True)"
    by (rule confirmation_race [OF assms])
  moreover have "wait_pass m (commitIndex n) = None" using r(7) assms(5) by (simp add: wait_pass_def)
  ultimately show ?thesis by blast
qed

theorem confirmation_spans_terms_witness:
  "\<exists>m. confirmRound (interrupted m) [demo_peer] (demo_leader\<lparr>commitIndex := 1, lastApplied := 1\<rparr>) False = (Inr 1, m, True) \<and>
     entries (nlog m) = demo_lead @ [demo_second] \<and> wait_pass m 1 = None"
proof -
  let ?n = "demo_leader\<lparr>commitIndex := 1, lastApplied := 1\<rparr>"
  have n: "role ?n = Leader" "nstate ?n = None" "cfg_Peers (cfg ?n) = [demo_peer, \<lparr>peer_ID = ''3'', peer_Addr = ''b''\<rparr>]"
      "healthy (nlog ?n)" "commitIndex ?n \<le> lastApplied ?n" "entries (nlog ?n) = demo_lead"
    using demo_log_wf by (simp_all add: demo_leader_def demo_node_def demo_config_def demo_peer_def demo_log_def)
  let ?q = "\<lparr>aq_Term = 2, aq_LeaderID = ''2'', PrevLogIndex = 1, PrevLogTerm = 1, Entries = [demo_second], LeaderCommit = 1\<rparr>"
  have q: "currentTerm ?n < aq_Term ?q" "PrevLogIndex ?q = LastIndex (nlog ?n)" "PrevLogTerm ?q = LastTerm (nlog ?n)"
      "LeaderCommit ?q \<le> commitIndex ?n"
    by (simp_all add: demo_leader_def demo_node_def demo_log_def demo_lead_def LastIndex_def LastTerm_def demo_entry_def)
  have e: "Index demo_second = of_nat (length (entries (nlog ?n)))" "Suc (length (entries (nlog ?n))) < slice_max"
    unfolding n(6) by (simp_all add: demo_second_def demo_lead_def slice_max_def)
  from confirmation_spans_terms [OF n(1-5) q(1-3) _ q(4) e, of 0 0] n(6) show ?thesis by auto
qed

text \<open>
  C38: A message put together from the logs of two moments. \<^verbatim>\<open>replicateTo\<close> reads
  the entry before the new ones and the new ones themselves without holding
  \<^verbatim>\<open>n.mu\<close>: if the node is deposed in between and its last entry replaced, the
  message carries the old entry's term and the new leader's entries. A follower with the old entry takes
  them in. Its log then disagrees with the new leader's, though the last entries have the same term, so
  the new leader's messages match it and never repair it.
\<close>

theorem mixed_message_breaks_matching:
  assumes "log_wf l" and "log_wf l'" and "healthy lf" and "entries lf = entries l"
    and "Suc (unat (PrevLogIndex req)) = length (entries l)" and "PrevLogIndex req \<noteq> 0"
    and "length (entries l) < length (entries l')"
    and "Term (entries l' ! unat (PrevLogIndex req)) \<noteq> Term (last (entries l))"
  shows "let q = fill_entries l' (fill_prev l req) in
    \<exists>lf'. AppendAfter lf (PrevLogIndex q) (PrevLogTerm q) (Entries q) = (Inr True, lf') \<and>
      entries lf' = entries l @ drop (length (entries l)) (entries l') \<and> \<not> matching (entries l') (entries lf') \<and>
      Match lf' (LastIndex l') (LastTerm l')"
  using mixed_message [OF assms] unfolding Let_def by metis

theorem mixed_message_breaks_matching_witness:
  "\<exists>lf'. AppendAfter demo_log 1 1 [demo_second] = (Inr True, lf') \<and> entries lf' = demo_lead @ [demo_second] \<and>
     \<not> matching (entries demo_other_log) (entries lf')"
proof -
  have a: "entries demo_log = demo_lead" "Suc (unat (PrevLogIndex demo_next)) = length (entries demo_log)"
      "PrevLogIndex demo_next \<noteq> 0" "length (entries demo_log) < length (entries demo_other_log)"
      "Term (entries demo_other_log ! unat (PrevLogIndex demo_next)) \<noteq> Term (last (entries demo_log))"
    by (simp_all add: demo_log_def demo_lead_def demo_next_def demo_other_log_def demo_entry_def)
  have q: "fill_entries demo_other_log (fill_prev demo_log demo_next) = demo_next\<lparr>PrevLogTerm := 1, Entries := [demo_second]\<rparr>"
    by (simp add: fill_entries_def fill_prev_def demo_next_def EntriesFrom_wf [OF demo_other_log_wf] At_wf [OF demo_log_wf(1)])
       (simp add: demo_log_def demo_lead_def demo_other_log_def demo_entry_def)
  have "drop (length (entries demo_log)) (entries demo_other_log) = [demo_second]"
    by (simp add: demo_log_def demo_lead_def demo_other_log_def)
  with mixed_message_breaks_matching [OF demo_log_wf(1) demo_other_log_wf demo_log_wf(2) refl a(2-5)] a(1)
  show ?thesis unfolding q by (auto simp: demo_next_def Let_def)
qed

text \<open>
  C39: The load generator's failover time. The outage \<^verbatim>\<open>availability\<close> reports is
  the largest step between successive successful writes, the first counted from the start: what fails
  after the last success counts for nothing, so an outage that lasts to the end of the run is not seen,
  and a run in which no write succeeds reports none at all, at no time.
\<close>

theorem unended_outage_is_missed:
  assumes "list_all (\<lambda>s. \<not> s_ok s) fs"
  shows "maxGap (gaps_of start (h @ fs)) = largest_step start (map s_at (filter s_ok h)) \<and>
    gapStart (gaps_of start (h @ fs)) = gapStart (gaps_of start h) \<and>
    maxGap (gaps_of start fs) = 0 \<and> gapStart (gaps_of start fs) = None"
  using outage_unended [of fs start h] outage_unended [of fs start "[]"] gaps_spec [of start h] assms
  by (simp add: list_all_iff) (simp add: gaps_of_def)

theorem unended_outage_is_missed_witness:
  "maxGap (gaps_of 0 [\<lparr>s_at = 5, s_ok = True\<rparr>, \<lparr>s_at = 9, s_ok = False\<rparr>, \<lparr>s_at = 900, s_ok = False\<rparr>]) = 5"
  using unended_outage_is_missed [of "[\<lparr>s_at = 9, s_ok = False\<rparr>, \<lparr>s_at = 900, s_ok = False\<rparr>]" 0 "[\<lparr>s_at = 5, s_ok = True\<rparr>]"]
  by simp

text \<open>
  C40: A failed append is not undone. A log that wrote one byte of a record, reported the failure, and then
  appended the next record with success is read back empty: the acknowledged record is lost.
\<close>

theorem failed_append_loses_the_next:
  assumes "length (marshal_record r1) < 256" and "length (marshal_record r2) < 256"
  shows "let (res1, w1) = WAL_Append (wal_fresh [IoFail 1]) r1; (res2, w2) = WAL_Append w1 r2 in
    res1 = Inl ErrWrite \<and> res2 = Inr 0 \<and>
    ReadAll (Bytes (durable (f w2)) False) = (empty_result\<lparr>Truncated := True\<rparr>, None)"
  using wal_partial_write_loses_record [OF assms] by (simp add: case_prod_unfold Let_def)

theorem failed_append_loses_the_next_witness:
  "\<exists>w2. WAL_Append (snd (WAL_Append (wal_fresh [IoFail 1]) zero_record)) zero_record = (Inr 0, w2) \<and>
     Records (fst (ReadAll (Bytes (durable (f w2)) False))) = []"
  using failed_append_loses_the_next [OF short_records short_records]
  by (simp add: Let_def empty_result_def split: prod.splits)

end
